theory Spec2Isabelle
  imports Main "HOL-Library.Word" "HOL-Library.AList"
begin

section \<open>The derivation builder: data model\<close>

text \<open>
  The model follows \<^verbatim>\<open>src/libstore/unix/build/derivation-builder.cc\<close>.
  A \<^verbatim>\<open>std::map\<close> is an association list with distinct keys, a
  \<^verbatim>\<open>std::set\<close> a list; both are kept in the order of the source's iteration
  (ascending keys). \<^verbatim>\<open>insert_or_assign\<close> and \<^verbatim>\<open>operator[]=\<close> are
  \<^const>\<open>AList.update\<close>. Exceptions are values: a function that can throw returns
  the state it leaves behind together with the error. What the file calls but does not
  define (the store, the file system, hashing) is a field of a parameter record, so every
  theorem holds for whatever those collaborators compute.
\<close>

type_synonym Path = string

text \<open>A store path \<^verbatim>\<open><hashPart>-<name>\<close>.\<close>

datatype StorePath = StorePath (hashPart: string) (pathName: string)

definition to_string :: "StorePath \<Rightarrow> string" where
  "to_string p = hashPart p @ ''-'' @ pathName p"

datatype HashAlgorithm = MD5 | SHA1 | SHA256 | SHA512

datatype Hash = Hash (hashAlgo: HashAlgorithm) (hashBytes: "8 word list")

text \<open>\<^verbatim>\<open>Hash(HashAlgorithm::SHA256)\<close>: the all-zeroes hash.\<close>

definition zeroHash :: Hash where
  "zeroHash = Hash SHA256 (replicate 32 0)"

datatype HashFormat = Base64 | Nix32 | Base16 | SRI

datatype BuildMode = bmNormal | bmRepair | bmCheck

datatype SandboxMode = smEnabled | smRelaxed | smDisabled

text \<open>The preprocessor branches of the file: \<^verbatim>\<open>__linux__\<close>,
  \<^verbatim>\<open>__APPLE__\<close>, \<^verbatim>\<open>__CYGWIN__\<close>, or none of them.\<close>

datatype Platform = Linux | Darwin | Cygwin | OtherUnix

text \<open>Modelled from the spec: the status of an output's final path before the build
  (declared outside this file). The path is absent, present but not valid, or valid.\<close>

datatype PathStatus = Corrupt | Absent | Valid

record InitialOutputStatus =
  ios_path :: StorePath
  ios_status :: PathStatus

definition isValid :: "InitialOutputStatus \<Rightarrow> bool" where
  "isValid k = (ios_status k = Valid)"

definition isPresent :: "InitialOutputStatus \<Rightarrow> bool" where
  "isPresent k = (ios_status k = Corrupt \<or> ios_status k = Valid)"

record InitialOutput =
  io_wanted :: bool
  io_outputHash :: Hash
  io_known :: "InitialOutputStatus option"

text \<open>A lease on a build user: \<^verbatim>\<open>UserLock\<close>.\<close>

record UserLock =
  getUID :: "32 word"
  getGID :: "32 word"
  getUIDCount :: nat

text \<open>How an output is addressed: \<^verbatim>\<open>DerivationOutput\<close> and what it is made
  of.\<close>

datatype FileIngestionMethod = fimFlat | fimNixArchive | fimGit

datatype ContentAddressMethod = camText | camFlat | camNixArchive | camGit

definition getFileIngestionMethod :: "ContentAddressMethod \<Rightarrow> FileIngestionMethod" where
  "getFileIngestionMethod m =
     (case m of camText \<Rightarrow> fimFlat | camFlat \<Rightarrow> fimFlat
      | camNixArchive \<Rightarrow> fimNixArchive | camGit \<Rightarrow> fimGit)"

record ContentAddress =
  ca_method :: ContentAddressMethod
  ca_hash :: Hash

datatype DerivationOutput =
    InputAddressed StorePath
  | CAFixed ContentAddress
  | CAFloating ContentAddressMethod HashAlgorithm
  | Deferred
  | Impure ContentAddressMethod HashAlgorithm

text \<open>\<^verbatim>\<open>StoreReferences\<close>: a self-reference flag and the other references.\<close>

record StoreReferences =
  sr_self :: bool
  sr_others :: "StorePath list"

record ValidPathInfo =
  vpi_path :: StorePath
  vpi_narHash :: Hash
  vpi_narSize :: nat
  vpi_references :: "StorePath list"
  vpi_ca :: "ContentAddress option"
  vpi_deriver :: "StorePath option"
  vpi_ultimate :: bool
  vpi_sigs :: "string list"

record Realisation =
  r_drvHash :: Hash
  r_outputName :: string
  r_outPath :: StorePath

text \<open>The store facade. \<^verbatim>\<open>makeStorePath type hash name\<close>,
  \<^verbatim>\<open>makeFixedOutputPathFromCA\<close> (given the name, the method, the hash and the
  references) and the printers are the store's; they are parameters here.\<close>

record Store =
  storeDir :: Path
  realStoreDir :: Path
  printStorePath :: "StorePath \<Rightarrow> Path"
  toRealPath :: "Path \<Rightarrow> Path"
  makeStorePath :: "string \<Rightarrow> Hash \<Rightarrow> string \<Rightarrow> StorePath"
  makeFixedOutputPathFromCA :: "string \<Rightarrow> ContentAddressMethod \<Rightarrow> Hash \<Rightarrow> StoreReferences \<Rightarrow> StorePath"

section \<open>Classifying a failed builder (\<^verbatim>\<open>unprepareBuild\<close>)\<close>

text \<open>Modelled from the spec: the decoded wait status that \<^verbatim>\<open>pid.kill()\<close>
  returns. \<^verbatim>\<open>statusOk\<close> (declared outside this file) holds for a normal exit
  with code 0 only; a non-zero exit and a death by signal are failures.\<close>

datatype ChildStatus = Exited nat | Signaled nat

definition statusOk :: "ChildStatus \<Rightarrow> bool" where
  "statusOk s = (s = Exited 0)"

text \<open>The two fields of \<^verbatim>\<open>struct statvfs\<close> that are read. The source casts
  \<^verbatim>\<open>f_bavail\<close> to \<^verbatim>\<open>uint64_t\<close> before multiplying, so the product is
  taken in 64 bits and wraps.\<close>

record statvfs_t =
  f_bavail :: "64 word"
  f_bsize :: "64 word"

text \<open>\<^verbatim>\<open>statvfs\<close> of a directory: \<^const>\<open>None\<close> when the call does not
  return 0.\<close>

record DiskWorld =
  HAVE_STATVFS :: bool
  statvfs :: "Path \<Rightarrow> statvfs_t option"

definition required :: "64 word" where
  "required = 8 * 1024 * 1024"

definition belowRequired :: "DiskWorld \<Rightarrow> Path \<Rightarrow> bool" where
  "belowRequired w dir =
     (case statvfs w dir of
        None \<Rightarrow> False
      | Some st \<Rightarrow> f_bavail st * f_bsize st < required)"

text \<open>\<^verbatim>\<open>cleanupDecideWhetherDiskFull\<close>, lines 696-733: the value it returns.
  Afterwards it deletes the temporary directory and moves outputs out of the chroot;
  neither changes the result.\<close>

definition cleanupDecideWhetherDiskFull :: "DiskWorld \<Rightarrow> Path \<Rightarrow> Path \<Rightarrow> bool" where
  "cleanupDecideWhetherDiskFull w realStore tmp =
     (let diskFull = False;
          diskFull = (if HAVE_STATVFS w \<and> belowRequired w realStore then True else diskFull);
          diskFull = (if HAVE_STATVFS w \<and> belowRequired w tmp then True else diskFull)
      in diskFull)"

datatype Status = NotDeterministic | OutputRejected | TransientFailure | PermanentFailure

text \<open>The \<^verbatim>\<open>catch (BuildError & e)\<close> block of \<^verbatim>\<open>unprepareBuild\<close>,
  lines 629-638. \<open>notDet\<close> says whether the caught error is a
  \<^verbatim>\<open>NotDeterministic\<close>.\<close>

definition failureStatus :: "bool \<Rightarrow> ChildStatus \<Rightarrow> bool \<Rightarrow> bool \<Rightarrow> Status" where
  "failureStatus notDet status isSandboxed diskFull =
     (if notDet then NotDeterministic
      else if statusOk status then OutputRejected
      else if \<not> isSandboxed \<or> diskFull then TransientFailure
      else PermanentFailure)"

text \<open>The branch of \<^verbatim>\<open>unprepareBuild\<close> taken when the exit status is not ok,
  lines 584-602 and the catch block: a plain \<^verbatim>\<open>BuildError\<close> is thrown and
  classified. The result is the status and whether the disk-space note is appended to the
  message.\<close>

definition builderFailed :: "DiskWorld \<Rightarrow> Path \<Rightarrow> Path \<Rightarrow> bool \<Rightarrow> ChildStatus \<Rightarrow> Status \<times> bool" where
  "builderFailed w realStore tmp isSandboxed status =
     (let diskFull = False;
          diskFull = (diskFull \<or> cleanupDecideWhetherDiskFull w realStore tmp)
      in (failureStatus False status isSandboxed diskFull, diskFull))"

section \<open>Errors\<close>

text \<open>One constructor for each \<^verbatim>\<open>throw\<close> of the file that the model reaches,
  carrying the arguments of its message. \<open>HashMismatch\<close> carries the printed
  derivation path, the specified hash and the hash that was found;
  \<open>FixedOutputReferences\<close> the printed derivation path, the number of violations and
  the printed example. \<open>AssertionFailed\<close> is a failed \<^verbatim>\<open>assert\<close>.
  \<open>UninitialisedRead\<close> is not an exception: it stands for a run that ends in a read of
  \<^verbatim>\<open>newInfo\<close> while that variable is being initialised (lines 2714 and 2719),
  when the read does not yield a value.\<close>

datatype Error =
    NoChrootNotAllowed Path
  | SandboxProfileNotAllowed Path
  | DivertedStoreUnsupported
  | NamespacesUnsupported
  | AlreadyExistsInSandbox Path
  | CouldNotAddPath Path
  | CannotMakeAppear Path
  | NoScratchOutput Path string
  | NoInitialOutput Path string
  | FailedToProduceOutput Path string Path
  | SuspiciousOwnership Path string
  | NoOutputReference string Path
  | CycleDetected Path string string
  | OutputWithoutStats Path
  | NotRegularFile Path
  | HashMismatch Path string string
  | FixedOutputReferences Path nat Path
  | UninitialisedRead
  | NotDeterministicDiffers Path Path Path
  | NotDeterministicError Path Path
  | OutputCheckFailed string
  | AssertionFailed

section \<open>Parameters and state of a build\<close>

text \<open>\<^verbatim>\<open>DerivationBuilderParams\<close>, the settings that are read, the platform
  the file is compiled for, and the functions defined outside the file.
  \<open>isSandboxed\<close> is \<^verbatim>\<open>derivationType->isSandboxed()\<close>, \<open>useUidRange\<close> is
  \<^verbatim>\<open>drvOptions.useUidRange(drv)\<close>, \<open>acquireUserLock n c\<close> is the lock
  \<^verbatim>\<open>acquireUserLock(n, c)\<close> returns, \<open>None\<close> for the null pointer.
  \<open>checkOutputs infos\<close> is the message of the \<^verbatim>\<open>BuildError\<close> that
  \<^verbatim>\<open>checkOutputs(infos)\<close> (lines 2908-3040) throws, if any; that function reads
  the store and the options and writes nothing.
  \<open>assertPathValidity\<close> is what the callback of that name returns,
  \<open>hashToString f p h\<close> is \<^verbatim>\<open>h.to_string(f, p)\<close>, \<open>signatureOf\<close> the
  signature that \<^verbatim>\<open>signPathInfo\<close> adds, \<open>caDerivationsEnabled\<close> the
  experimental feature, \<open>drvIsImpure\<close> is \<^verbatim>\<open>drv.type().isImpure()\<close>.

  \<open>readOfNewInfo\<close> stands for the two reads of \<^verbatim>\<open>newInfo.references\<close> at lines
  2714 and 2719. They are made inside the expression that initialises \<^verbatim>\<open>newInfo\<close>
  (line 2659); the info that has been computed at that point is the local
  \<^verbatim>\<open>newInfo0\<close>. The language gives these reads no meaning, so what they do is left
  to this parameter: given the references of \<^verbatim>\<open>newInfo0\<close>, it is \<open>None\<close> when a
  read traps, and otherwise what \<^verbatim>\<open>newInfo.references.size()\<close> and
  \<^verbatim>\<open>*newInfo.references.begin()\<close> yield. Where the compiler builds
  \<^verbatim>\<open>newInfo0\<close> in the storage of \<^verbatim>\<open>newInfo\<close>, they yield the size and the
  least element of the references of \<^verbatim>\<open>newInfo0\<close>.\<close>

record Params =
  platform :: Platform
  store :: Store
  sandboxMode :: SandboxMode
  sandboxFallback :: bool
  useBuildUsers :: bool
  mountAndPidNamespacesSupported :: bool
  acquireUserLock :: "nat \<Rightarrow> bool \<Rightarrow> UserLock option"
  drvPath :: StorePath
  drvName :: string
  noChroot :: bool
  additionalSandboxProfile :: string
  useUidRange :: bool
  isSandboxed :: bool
  buildMode :: BuildMode
  inputPaths :: "StorePath list"
  initialOutputs :: "(string \<times> InitialOutput) list"
  hashPlaceholder :: "string \<Rightarrow> string"
  outputPathName :: "string \<Rightarrow> string \<Rightarrow> string"
  drvOutputs :: "(string \<times> DerivationOutput) list"
  unsafeDiscardReferences :: "(string \<times> bool) list"
  keepFailed :: bool
  runDiffHook :: bool
  caDerivationsEnabled :: bool
  drvIsImpure :: bool
  checkOutputs :: "(string \<times> ValidPathInfo) list \<Rightarrow> string option"
  assertPathValidity :: "(string \<times> Realisation) list"
  hashToString :: "HashFormat \<Rightarrow> bool \<Rightarrow> Hash \<Rightarrow> string"
  signatureOf :: "ValidPathInfo \<Rightarrow> string"
  readOfNewInfo :: "StorePath list \<Rightarrow> (nat \<times> StorePath) option"

text \<open>The members of \<^verbatim>\<open>DerivationBuilderImpl\<close> that the modelled functions
  write. \<open>deletedPaths\<close> records the calls of \<^verbatim>\<open>deletePath\<close> made by
  \<^verbatim>\<open>startBuilder\<close>.\<close>

record Builder =
  useChroot :: bool
  buildUser :: "UserLock option"
  chrootRootDir :: Path
  scratchOutputs :: "(string \<times> StorePath) list"
  inputRewrites :: "(string \<times> string) list"
  redirectedOutputs :: "(StorePath \<times> StorePath) list"
  addedPaths :: "StorePath list"
  deletedPaths :: "Path list"

definition needsHashRewrite :: "Params \<Rightarrow> Builder \<Rightarrow> bool" where
  "needsHashRewrite P b = (if platform P = Linux then \<not> useChroot b else True)"

section \<open>\<^verbatim>\<open>prepareBuild\<close>\<close>

text \<open>Lines 472-526. The result is \<open>Inr True\<close>, \<open>Inr False\<close> (no build user
  could be acquired) or \<open>Inl\<close> of the error thrown.\<close>

definition prepareBuild :: "Params \<Rightarrow> Builder \<Rightarrow> Builder \<times> (Error + bool)" where
  "prepareBuild P b =
    (case (if sandboxMode P = smEnabled then
             (if noChroot P then Inl (NoChrootNotAllowed (printStorePath (store P) (drvPath P)))
              else if platform P = Darwin \<and> additionalSandboxProfile P \<noteq> '''' then
                Inl (SandboxProfileNotAllowed (printStorePath (store P) (drvPath P)))
              else Inr (b\<lparr>useChroot := True\<rparr>))
           else if sandboxMode P = smDisabled then Inr (b\<lparr>useChroot := False\<rparr>)
           else if sandboxMode P = smRelaxed then
             Inr (b\<lparr>useChroot := (isSandboxed P \<and> \<not> noChroot P)\<rparr>)
           else Inr b) of
       Inl e \<Rightarrow> (b, Inl e)
     | Inr b1 \<Rightarrow>
    (case (if storeDir (store P) \<noteq> realStoreDir (store P) then
             (if platform P = Linux then Inr (b1\<lparr>useChroot := True\<rparr>)
              else Inl DivertedStoreUnsupported)
           else Inr b1) of
       Inl e \<Rightarrow> (b1, Inl e)
     | Inr b2 \<Rightarrow>
    (case (if platform P = Linux \<and> useChroot b2 then
             (if \<not> mountAndPidNamespacesSupported P then
                (if \<not> sandboxFallback P then Inl NamespacesUnsupported
                 else Inr (b2\<lparr>useChroot := False\<rparr>))
              else Inr b2)
           else Inr b2) of
       Inl e \<Rightarrow> (b2, Inl e)
     | Inr b3 \<Rightarrow>
    (if useBuildUsers P then
       (let b4 = (if buildUser b3 = None then
                    b3\<lparr>buildUser := acquireUserLock P (if useUidRange P then 65536 else 1) (useChroot b3)\<rparr>
                  else b3)
        in if buildUser b4 = None then (b4, Inr False) else (b4, Inr True))
     else (b3, Inr True)))))"

text \<open>The value of \<^verbatim>\<open>useChroot\<close> when \<^verbatim>\<open>prepareBuild\<close> reaches
  the build-user step, in closed form (see \<open>prepareBuild_chroot\<close>).\<close>

definition finalChroot :: "Params \<Rightarrow> bool" where
  "finalChroot P =
     (let c1 = (sandboxMode P = smEnabled \<or> (sandboxMode P = smRelaxed \<and> isSandboxed P \<and> \<not> noChroot P));
          c2 = (storeDir (store P) \<noteq> realStoreDir (store P) \<or> c1)
      in c2 \<and> \<not> (platform P = Linux \<and> \<not> mountAndPidNamespacesSupported P))"

section \<open>\<^verbatim>\<open>startBuilder\<close>: the scratch paths\<close>

text \<open>The two overloads of \<^verbatim>\<open>makeFallbackPath\<close>, lines 3061-3083.\<close>

definition makeFallbackPath_name :: "Params \<Rightarrow> string \<Rightarrow> StorePath" where
  "makeFallbackPath_name P outputName =
     (let pathType = ''rewrite:'' @ to_string (drvPath P) @ '':name:'' @ outputName
      in makeStorePath (store P) pathType zeroHash (outputPathName P (drvName P) outputName))"

definition makeFallbackPath_path :: "Params \<Rightarrow> StorePath \<Rightarrow> StorePath" where
  "makeFallbackPath_path P path =
     (let pathType = ''rewrite:'' @ to_string (drvPath P) @ '':'' @ to_string path
      in makeStorePath (store P) pathType zeroHash (pathName path))"

text \<open>The initialiser of \<^verbatim>\<open>scratchPath\<close>, lines 912-927.\<close>

definition scratchPathFor :: "Params \<Rightarrow> Builder \<Rightarrow> string \<Rightarrow> InitialOutput \<Rightarrow> StorePath" where
  "scratchPathFor P b outputName status =
     (case io_known status of
        None \<Rightarrow> makeFallbackPath_name P outputName
      | Some known \<Rightarrow>
          if \<not> needsHashRewrite P b then ios_path known
          else if \<not> isPresent known then ios_path known
          else if buildMode P \<noteq> bmRepair \<and> \<not> isValid known then ios_path known
          else makeFallbackPath_path P (ios_path known))"

text \<open>The body of the loop over \<^verbatim>\<open>initialOutputs\<close>, lines 900-953.\<close>

definition startBuilder_output :: "Params \<Rightarrow> Builder \<Rightarrow> string \<times> InitialOutput \<Rightarrow> Builder" where
  "startBuilder_output P b entry =
    (case entry of (outputName, status) \<Rightarrow>
     (let scratchPath = scratchPathFor P b outputName status;
          b1 = b\<lparr>scratchOutputs := AList.update outputName scratchPath (scratchOutputs b)\<rparr>;
          b2 = b1\<lparr>inputRewrites :=
                     AList.update (hashPlaceholder P outputName)
                       (printStorePath (store P) scratchPath) (inputRewrites b1)\<rparr>
      in case io_known status of
           None \<Rightarrow> b2
         | Some known \<Rightarrow>
             (let fixedFinalPath = ios_path known
              in if fixedFinalPath = scratchPath then b2
                 else
                   (let b3 = b2\<lparr>deletedPaths := deletedPaths b2 @ [printStorePath (store P) scratchPath]\<rparr>;
                        h1 = hashPart fixedFinalPath;
                        h2 = hashPart scratchPath;
                        b4 = b3\<lparr>inputRewrites := AList.update h1 h2 (inputRewrites b3)\<rparr>
                    in b4\<lparr>redirectedOutputs :=
                             AList.update fixedFinalPath scratchPath (redirectedOutputs b4)\<rparr>))))"

definition startBuilder_outputs :: "Params \<Rightarrow> Builder \<Rightarrow> (string \<times> InitialOutput) list \<Rightarrow> Builder" where
  "startBuilder_outputs P b outs = foldl (startBuilder_output P) b outs"

section \<open>\<^verbatim>\<open>addDependency\<close>\<close>

definition isAllowed :: "Params \<Rightarrow> Builder \<Rightarrow> StorePath \<Rightarrow> bool" where
  "isAllowed P b path = (path \<in> set (inputPaths P) \<or> path \<in> set (addedPaths b))"

text \<open>What \<^verbatim>\<open>addDependency\<close> asks of the file system: whether the target
  exists in the chroot, and the exit status of the helper process that enters the
  sandbox's namespaces and bind-mounts the source onto the target.\<close>

record MountWorld =
  pathExists :: "Path \<Rightarrow> bool"
  bindMountChild :: "Path \<Rightarrow> Path \<Rightarrow> int"

text \<open>Lines 1694-1744. The result is the builder after the call and the error thrown,
  if any; \<^verbatim>\<open>addedPaths.insert\<close> comes before every \<^verbatim>\<open>throw\<close>.\<close>

definition addDependency :: "Params \<Rightarrow> MountWorld \<Rightarrow> Builder \<Rightarrow> StorePath \<Rightarrow> Builder \<times> Error option" where
  "addDependency P w b path =
    (if isAllowed P b path then (b, None)
     else
      (let b1 = b\<lparr>addedPaths := addedPaths b @ [path]\<rparr>
       in if useChroot b1 then
            (if platform P = Linux then
               (let source = toRealPath (store P) (printStorePath (store P) path);
                    target = chrootRootDir b1 @ printStorePath (store P) path
                in if pathExists w target then
                     (b1, Some (AlreadyExistsInSandbox (printStorePath (store P) path)))
                   else if bindMountChild w source target \<noteq> 0 then
                     (b1, Some (CouldNotAddPath (printStorePath (store P) path)))
                   else (b1, None))
             else (b1, Some (CannotMakeAppear (printStorePath (store P) path))))
          else (b1, None)))"

section \<open>Topological sorting\<close>

text \<open>Modelled from the spec: \<^verbatim>\<open>topoSort\<close> is called by
  \<^verbatim>\<open>registerOutputs\<close> but defined outside this file. The spec asks for a
  topological sort of the graph whose nodes are the items and whose edges are given by
  \<open>getChildren\<close>, with cycle detection, and for an error that names both ends of the
  edge that closes a cycle. The model is the usual depth-first search: \<open>parents\<close> is
  the set of nodes on the current path, \<open>visited\<close> and \<open>sorted\<close> are carried from
  call to call, a node is appended to \<open>sorted\<close> after all its children, children that
  are the node itself or not among the items are skipped, and meeting a node of
  \<open>parents\<close> again is the cycle error. The result is \<open>sorted\<close> reversed, so that a
  node comes before the nodes it refers to. \<open>getChildren\<close> may throw.\<close>

record TopoState =
  visited :: "string list"
  sorted_nodes :: "string list"

function
  dfsVisit :: "string list \<Rightarrow> (string \<Rightarrow> Error + string list) \<Rightarrow> (string \<Rightarrow> string \<Rightarrow> Error) \<Rightarrow>
    string set \<Rightarrow> string \<Rightarrow> string option \<Rightarrow> TopoState \<Rightarrow> Error + TopoState"
and
  visitChildren :: "string list \<Rightarrow> (string \<Rightarrow> Error + string list) \<Rightarrow> (string \<Rightarrow> string \<Rightarrow> Error) \<Rightarrow>
    string set \<Rightarrow> string \<Rightarrow> string list \<Rightarrow> TopoState \<Rightarrow> Error + TopoState"
where
  "dfsVisit items getChildren makeCycleError parents path parent st =
     (if path \<in> parents then
        (case parent of
           Some p \<Rightarrow> Inl (makeCycleError path p)
         | None \<Rightarrow> Inl AssertionFailed)
      else if path \<in> set (visited st) then Inr st
      else
        (let st1 = st\<lparr>visited := visited st @ [path]\<rparr>
         in case getChildren path of
              Inl e \<Rightarrow> Inl e
            | Inr references \<Rightarrow>
                (case visitChildren items getChildren makeCycleError (insert path parents) path
                        references st1 of
                   Inl e \<Rightarrow> Inl e
                 | Inr st2 \<Rightarrow> Inr (st2\<lparr>sorted_nodes := sorted_nodes st2 @ [path]\<rparr>))))"
| "visitChildren items getChildren makeCycleError parents path [] st = Inr st"
| "visitChildren items getChildren makeCycleError parents path (i # rest) st =
     (if i \<noteq> path \<and> i \<in> set items then
        (case dfsVisit items getChildren makeCycleError parents i (Some path) st of
           Inl e \<Rightarrow> Inl e
         | Inr st1 \<Rightarrow> visitChildren items getChildren makeCycleError parents path rest st1)
      else visitChildren items getChildren makeCycleError parents path rest st)"
  by pat_completeness auto
termination
proof (relation "measures
        [\<lambda>x. case x of
               Inl (items, gc, mk, parents, path, parent, st) \<Rightarrow>
                 2 * card (set items - parents) + (if path \<in> set items then 0 else 2)
             | Inr (items, gc, mk, parents, path, cs, st) \<Rightarrow> 2 * card (set items - parents) + 1,
         \<lambda>x. case x of
               Inl (items, gc, mk, parents, path, parent, st) \<Rightarrow> 0
             | Inr (items, gc, mk, parents, path, cs, st) \<Rightarrow> length cs]", goal_cases)
  case (2 items getChildren makeCycleError parents path parent st x2 x2a)
  have "Suc (2 * (card (set items - parents) - Suc 0)) < 2 * card (set items - parents)"
    if "path \<in> set items"
  proof -
    from that 2 have "path \<in> set items - parents" by simp
    then have "card (set items - parents) > 0"
      by (metis List.finite_set card_gt_0_iff empty_iff finite_Diff)
    then show ?thesis by arith
  qed
  with 2 show ?case by simp
qed simp_all

text \<open>The loop over the items, each visited with no parent.\<close>

fun visitItems :: "string list \<Rightarrow> (string \<Rightarrow> Error + string list) \<Rightarrow> (string \<Rightarrow> string \<Rightarrow> Error) \<Rightarrow>
    string list \<Rightarrow> TopoState \<Rightarrow> Error + TopoState" where
  "visitItems items getChildren makeCycleError [] st = Inr st"
| "visitItems items getChildren makeCycleError (i # rest) st =
     (case dfsVisit items getChildren makeCycleError {} i None st of
        Inl e \<Rightarrow> Inl e
      | Inr st1 \<Rightarrow> visitItems items getChildren makeCycleError rest st1)"

definition topoSort :: "string list \<Rightarrow> (string \<Rightarrow> Error + string list) \<Rightarrow> (string \<Rightarrow> string \<Rightarrow> Error) \<Rightarrow>
    Error + string list" where
  "topoSort items getChildren makeCycleError =
     (case visitItems items getChildren makeCycleError items \<lparr>visited = [], sorted_nodes = []\<rparr> of
        Inl e \<Rightarrow> Inl e
      | Inr st \<Rightarrow> Inr (rev (sorted_nodes st)))"

text \<open>The graph that is sorted: an edge from a node to each of its children, other than
  itself, that is among the items.\<close>

definition edges :: "string list \<Rightarrow> (string \<Rightarrow> Error + string list) \<Rightarrow> (string \<times> string) set" where
  "edges items getChildren =
     {(x, y). \<exists>cs. getChildren x = Inr cs \<and> y \<in> set cs \<and> y \<noteq> x \<and> y \<in> set items}"

text \<open>\<open>comesBefore xs y x\<close>: in the list \<open>xs\<close>, \<open>y\<close> stands before an occurrence of
  \<open>x\<close>.\<close>

definition comesBefore :: "'a list \<Rightarrow> 'a \<Rightarrow> 'a \<Rightarrow> bool" where
  "comesBefore xs y x = (\<exists>ys zs. xs = ys @ x # zs \<and> y \<in> set ys)"

text \<open>The invariant of the search, and how a call extends the state: these are used
  in the proofs only.\<close>

definition dfsInv :: "string list \<Rightarrow> (string \<Rightarrow> Error + string list) \<Rightarrow> string set \<Rightarrow> TopoState \<Rightarrow> bool" where
  "dfsInv items gc parents st =
     (distinct (sorted_nodes st) \<and>
      set (sorted_nodes st) \<subseteq> set (visited st) \<and>
      set (visited st) \<subseteq> set (sorted_nodes st) \<union> parents \<and>
      set (sorted_nodes st) \<inter> parents = {} \<and>
      (\<forall>x y. x \<in> set (sorted_nodes st) \<and> (x, y) \<in> edges items gc \<longrightarrow>
             comesBefore (sorted_nodes st) y x))"

definition dfsExt :: "string set \<Rightarrow> string set \<Rightarrow> TopoState \<Rightarrow> TopoState \<Rightarrow> bool" where
  "dfsExt parents ds st st' =
     (\<exists>new. sorted_nodes st' = sorted_nodes st @ new \<and>
            set (visited st') = set (visited st) \<union> set new \<and>
            set new \<inter> parents = {} \<and> set new \<subseteq> ds)"

text \<open>What an error of the sort can be: an error of \<open>getChildren\<close> at one of the
  nodes \<open>D\<close>, or the cycle error for an edge from \<open>parent\<close> to \<open>path\<close> where
  \<open>path\<close> reaches \<open>parent\<close>.\<close>

definition cycleError :: "string set \<Rightarrow> string list \<Rightarrow> (string \<Rightarrow> Error + string list) \<Rightarrow>
    (string \<Rightarrow> string \<Rightarrow> Error) \<Rightarrow> Error \<Rightarrow> bool" where
  "cycleError D items gc mk e =
     ((\<exists>x \<in> D. gc x = Inl e) \<or>
      (\<exists>path parent. e = mk path parent \<and> (parent, path) \<in> edges items gc \<and>
         (path, parent) \<in> (edges items gc)\<^sup>*))"

section \<open>\<^verbatim>\<open>registerOutputs\<close>\<close>

subsection \<open>The file system and the store as the function sees them\<close>

text \<open>The two fields of \<^verbatim>\<open>struct stat\<close> that are read, and the mode macros
  with their POSIX values.\<close>

record Stat =
  st_mode :: "32 word"
  st_uid :: "32 word"

definition S_IFMT :: "32 word" where "S_IFMT = 0xF000"
definition S_IFLNK :: "32 word" where "S_IFLNK = 0xA000"
definition S_IFREG :: "32 word" where "S_IFREG = 0x8000"
definition S_IWGRP :: "32 word" where "S_IWGRP = 0x10"
definition S_IWOTH :: "32 word" where "S_IWOTH = 0x2"
definition S_IXUSR :: "32 word" where "S_IXUSR = 0x40"

definition S_ISLNK :: "32 word \<Rightarrow> bool" where
  "S_ISLNK m = (and m S_IFMT = S_IFLNK)"

definition S_ISREG :: "32 word \<Rightarrow> bool" where
  "S_ISREG m = (and m S_IFMT = S_IFREG)"

text \<open>What \<^verbatim>\<open>registerOutputs\<close> reads from the file system:
  \<^verbatim>\<open>maybeLstat\<close>, the bytes of a path's serialisation as the reference scan
  reads them, the content hash of a path (\<^verbatim>\<open>HashModuloSink\<close> or
  \<^verbatim>\<open>git::dumpHash\<close>, given the ingestion method, the algorithm and the hash
  part taken out), and \<^verbatim>\<open>hashPath\<close> (hash and size of the serialisation).\<close>

record FsWorld =
  maybeLstat :: "Path \<Rightarrow> Stat option"
  pathBytes :: "Path \<Rightarrow> string"
  caHashOf :: "Path \<Rightarrow> FileIngestionMethod \<Rightarrow> HashAlgorithm \<Rightarrow> string \<Rightarrow> Hash"
  narHashOf :: "Path \<Rightarrow> Hash \<times> nat"

text \<open>The effects of \<^verbatim>\<open>registerOutputs\<close> on the file system, the store and
  the callbacks, in the order in which they happen.\<close>

datatype Op =
    Canonicalise Path "UserLock option"
  | RewriteOutput Path "(string \<times> string) list"
  | CopyFresh Path
  | NoteHashMismatch
  | NoteCheckMismatch
  | LockPaths Path
  | ReplaceValidPath Path Path
  | DeletePath Path
  | MovePath Path Path
  | DiffHook Path Path
  | OptimisePath Path
  | MarkContentsGood StorePath
  | RegisterValidPaths "(StorePath \<times> ValidPathInfo) list"
  | RegisterDrvOutput Realisation

text \<open>The state that \<^verbatim>\<open>registerOutputs\<close> changes: the effects so far, the
  store's table of valid paths, the member \<^verbatim>\<open>outputRewrites\<close>, and the locals
  \<^verbatim>\<open>finalOutputs\<close>, \<^verbatim>\<open>infos\<close> and \<^verbatim>\<open>delayedException\<close>.
  The maps of the source are association lists here. They keep their entries in the order
  of insertion, where a \<^verbatim>\<open>std::map\<close> is traversed in the order of its keys: the
  two loops over \<^verbatim>\<open>infos\<close> (lines 2866-2869 and 2885-2902) visit the same
  entries in another order. Nothing that is proved below depends on that order.\<close>

record RegState =
  ops :: "Op list"
  validPaths :: "(StorePath \<times> ValidPathInfo) list"
  outputRewrites :: "(string \<times> string) list"
  finalOutputs :: "(string \<times> StorePath) list"
  infos :: "(string \<times> ValidPathInfo) list"
  delayedException :: "Error option"

definition emit :: "Op list \<Rightarrow> RegState \<Rightarrow> RegState" where
  "emit os st = st\<lparr>ops := ops st @ os\<rparr>"

text \<open>Modelled from the spec: \<^verbatim>\<open>registerValidPaths\<close> is the store's. It
  registers the validity of all the given paths in one commit.\<close>

definition registerValidPaths :: "(StorePath \<times> ValidPathInfo) list \<Rightarrow> RegState \<Rightarrow> RegState" where
  "registerValidPaths batch st =
     st\<lparr>validPaths := fold (\<lambda>e db. AList.update (fst e) (snd e) db) batch (validPaths st),
        ops := ops st @ [RegisterValidPaths batch]\<rparr>"

definition isValidPath :: "RegState \<Rightarrow> StorePath \<Rightarrow> bool" where
  "isValidPath st p = (map_of (validPaths st) p \<noteq> None)"

text \<open>\<^verbatim>\<open>std::map::emplace\<close> and \<^verbatim>\<open>std::set::insert\<close>: nothing
  happens when the key is there.\<close>

definition emplace :: "'k \<Rightarrow> 'v \<Rightarrow> ('k \<times> 'v) list \<Rightarrow> ('k \<times> 'v) list" where
  "emplace k v al = (if k \<in> fst ` set al then al else al @ [(k, v)])"

definition set_insert :: "'a \<Rightarrow> 'a list \<Rightarrow> 'a list" where
  "set_insert x xs = (if x \<in> set xs then xs else xs @ [x])"

subsection \<open>Scanning for references\<close>

fun isPrefixOf :: "'a list \<Rightarrow> 'a list \<Rightarrow> bool" where
  "isPrefixOf [] ys = True"
| "isPrefixOf (x # xs) [] = False"
| "isPrefixOf (x # xs) (y # ys) = (x = y \<and> isPrefixOf xs ys)"

fun occursIn :: "'a list \<Rightarrow> 'a list \<Rightarrow> bool" where
  "occursIn xs [] = (xs = [])"
| "occursIn xs (y # ys) = (isPrefixOf xs (y # ys) \<or> occursIn xs ys)"

text \<open>Modelled from the spec: \<^verbatim>\<open>scanForReferences\<close> is defined outside this
  file. It scans the bytes of the output for the hash parts of the given paths and returns
  the paths whose hash part occurs.\<close>

definition scanForReferences :: "string \<Rightarrow> StorePath list \<Rightarrow> StorePath list" where
  "scanForReferences bytes refs = filter (\<lambda>p. occursIn (hashPart p) bytes) refs"

subsection \<open>The first loop: existence, ownership, references\<close>

datatype OutputRefs = AlreadyRegistered StorePath | PerhapsNeedToRegister "StorePath list"

record ScanAcc =
  outputsToSort :: "string list"
  outputReferencesIfUnregistered :: "(string \<times> OutputRefs) list"
  outputStats :: "(string \<times> Stat) list"

text \<open>Lines 2369-2375.\<close>

definition referenceablePaths :: "Params \<Rightarrow> Builder \<Rightarrow> StorePath list" where
  "referenceablePaths P b = inputPaths P @ map snd (scratchOutputs b) @ addedPaths b"

text \<open>Lines 2379-2383.\<close>

definition toRealPathChroot :: "Params \<Rightarrow> Builder \<Rightarrow> Path \<Rightarrow> Path" where
  "toRealPathChroot P b p =
     (if useChroot b \<and> \<not> needsHashRewrite P b then chrootRootDir b @ p
      else toRealPath (store P) p)"

text \<open>Lines 2414-2415: the value assigned to \<^verbatim>\<open>initialInfo.wanted\<close>. The
  model keeps it as this value; nothing in the file reads the field again.\<close>

definition wantedOutput :: "Params \<Rightarrow> InitialOutput \<Rightarrow> bool" where
  "wantedOutput P initialInfo =
     (buildMode P = bmCheck \<or>
      \<not> (case io_known initialInfo of None \<Rightarrow> False | Some k \<Rightarrow> isValid k))"

text \<open>Lines 2435-2436, compiled unless \<^verbatim>\<open>__CYGWIN__\<close> is defined.\<close>

definition suspiciousOwnership :: "Params \<Rightarrow> Builder \<Rightarrow> Stat \<Rightarrow> bool" where
  "suspiciousOwnership P b st =
     (platform P \<noteq> Cygwin \<and>
      ((\<not> S_ISLNK (st_mode st) \<and> and (st_mode st) (or S_IWGRP S_IWOTH) \<noteq> 0) \<or>
       (case buildUser b of None \<Rightarrow> False | Some u \<Rightarrow> st_uid st \<noteq> getUID u)))"

text \<open>Lines 2450-2464: the references of an output, none when its
  \<^verbatim>\<open>unsafeDiscardReferences\<close> bit is set.\<close>

definition discardReferences :: "Params \<Rightarrow> string \<Rightarrow> bool" where
  "discardReferences P outputName =
     (case map_of (unsafeDiscardReferences P) outputName of None \<Rightarrow> False | Some udr \<Rightarrow> udr)"

definition outputReferences :: "Params \<Rightarrow> FsWorld \<Rightarrow> Builder \<Rightarrow> string \<Rightarrow> Path \<Rightarrow> StorePath list" where
  "outputReferences P W b outputName actualPath =
     (if discardReferences P outputName then []
      else scanForReferences (pathBytes W actualPath) (referenceablePaths P b))"

text \<open>The body of the loop over \<^verbatim>\<open>drv.outputs\<close>, lines 2395-2470.\<close>

definition scanOutput ::
  "Params \<Rightarrow> FsWorld \<Rightarrow> Builder \<Rightarrow> string \<Rightarrow> ScanAcc \<Rightarrow> RegState \<Rightarrow> RegState \<times> (Error + ScanAcc)" where
  "scanOutput P W b outputName acc st =
    (case map_of (scratchOutputs b) outputName of
       None \<Rightarrow> (st, Inl (NoScratchOutput (printStorePath (store P) (drvPath P)) outputName))
     | Some scratchOutput \<Rightarrow>
        (let actualPath = toRealPathChroot P b (printStorePath (store P) scratchOutput);
             acc1 = acc\<lparr>outputsToSort := set_insert outputName (outputsToSort acc)\<rparr>
         in case map_of (initialOutputs P) outputName of
              None \<Rightarrow> (st, Inl (NoInitialOutput (printStorePath (store P) (drvPath P)) outputName))
            | Some initialInfo \<Rightarrow>
               if \<not> wantedOutput P initialInfo then
                 (case io_known initialInfo of
                    None \<Rightarrow> (st, Inl AssertionFailed)
                  | Some k \<Rightarrow>
                      (st, Inr (acc1\<lparr>outputReferencesIfUnregistered :=
                                  AList.update outputName (AlreadyRegistered (ios_path k))
                                    (outputReferencesIfUnregistered acc1)\<rparr>)))
               else
                 (case maybeLstat W actualPath of
                    None \<Rightarrow>
                      (st, Inl (FailedToProduceOutput (printStorePath (store P) (drvPath P))
                                  outputName actualPath))
                  | Some stt \<Rightarrow>
                      if suspiciousOwnership P b stt then
                        (st, Inl (SuspiciousOwnership actualPath outputName))
                      else
                        (let st1 = emit [Canonicalise actualPath (buildUser b)] st;
                             references = outputReferences P W b outputName actualPath
                         in (st1, Inr (acc1\<lparr>outputReferencesIfUnregistered :=
                                          AList.update outputName (PerhapsNeedToRegister references)
                                            (outputReferencesIfUnregistered acc1),
                                        outputStats :=
                                          AList.update outputName stt (outputStats acc1)\<rparr>))))))"

fun scanOutputs ::
  "Params \<Rightarrow> FsWorld \<Rightarrow> Builder \<Rightarrow> string list \<Rightarrow> ScanAcc \<Rightarrow> RegState \<Rightarrow> RegState \<times> (Error + ScanAcc)" where
  "scanOutputs P W b [] acc st = (st, Inr acc)"
| "scanOutputs P W b (outputName # rest) acc st =
     (case scanOutput P W b outputName acc st of
        (st1, Inl e) \<Rightarrow> (st1, Inl e)
      | (st1, Inr acc1) \<Rightarrow> scanOutputs P W b rest acc1 st1)"

subsection \<open>The order of finalisation\<close>

text \<open>The first argument of \<^verbatim>\<open>topoSort\<close>, lines 2473-2494: the outputs whose
  scratch path is among the references of the given output. The source collects them in a
  \<^verbatim>\<open>std::set\<close>; they are listed here in the order of
  \<^verbatim>\<open>scratchOutputs\<close>.\<close>

definition referencedOutputs :: "Params \<Rightarrow> Builder \<Rightarrow> ScanAcc \<Rightarrow> string \<Rightarrow> Error + string list" where
  "referencedOutputs P b acc outputName =
     (case map_of (outputReferencesIfUnregistered acc) outputName of
        None \<Rightarrow> Inl (NoOutputReference outputName (printStorePath (store P) (drvPath P)))
      | Some (AlreadyRegistered p) \<Rightarrow> Inr []
      | Some (PerhapsNeedToRegister refs) \<Rightarrow>
          Inr (map fst (filter (\<lambda>op. snd op \<in> set refs) (scratchOutputs b))))"

text \<open>Lines 2472-2502: the sort, then \<^verbatim>\<open>std::reverse\<close>.\<close>

definition sortedOutputNames :: "Params \<Rightarrow> Builder \<Rightarrow> ScanAcc \<Rightarrow> Error + string list" where
  "sortedOutputNames P b acc =
     (case topoSort (outputsToSort acc) (referencedOutputs P b acc)
             (\<lambda>path parent. CycleDetected (printStorePath (store P) (drvPath P)) path parent) of
        Inl e \<Rightarrow> Inl e
      | Inr sortedNames \<Rightarrow> Inr (rev sortedNames))"

subsection \<open>The second loop: finalising one output\<close>

text \<open>The lambda \<^verbatim>\<open>finish\<close>, lines 2512-2520.\<close>

definition finish :: "string \<Rightarrow> StorePath \<Rightarrow> StorePath \<Rightarrow> RegState \<Rightarrow> RegState" where
  "finish outputName scratchPath finalStorePath st =
     (let st1 = st\<lparr>finalOutputs := AList.update outputName finalStorePath (finalOutputs st)\<rparr>
      in if scratchPath \<noteq> finalStorePath then
           st1\<lparr>outputRewrites :=
                 AList.update (hashPart scratchPath) (hashPart finalStorePath) (outputRewrites st1)\<rparr>
         else st1)"

text \<open>The lambda \<^verbatim>\<open>rewriteOutput\<close>, lines 2539-2559.\<close>

definition rewriteOutput :: "Path \<Rightarrow> (string \<times> string) list \<Rightarrow> RegState \<Rightarrow> RegState" where
  "rewriteOutput actualPath rewrites st =
     (if rewrites \<noteq> [] then emit [RewriteOutput actualPath rewrites, Canonicalise actualPath None] st
      else st)"

text \<open>The lambda \<^verbatim>\<open>rewriteRefs\<close>, lines 2561-2584.\<close>

definition rewriteRef :: "(string \<times> string) list \<Rightarrow> StorePath \<Rightarrow> StorePath" where
  "rewriteRef rewrites r =
     (case map_of rewrites (hashPart r) of
        Some outputRewrite \<Rightarrow> StorePath outputRewrite (pathName r)
      | None \<Rightarrow> r)"

definition rewriteRefs :: "StorePath list \<Rightarrow> StorePath \<Rightarrow> (string \<times> string) list \<Rightarrow> StoreReferences" where
  "rewriteRefs references scratchPath rewrites =
     \<lparr>sr_self = (scratchPath \<in> set references),
      sr_others = map (rewriteRef rewrites) (filter (\<lambda>r. r \<noteq> scratchPath) references)\<rparr>"

text \<open>Modelled from the spec: the constructor of \<^verbatim>\<open>ValidPathInfo\<close> from a content
  address with references is defined outside this file. The path is the store's fixed
  output path for the content address; the references are the others, and the path itself
  when the self flag is set.\<close>

definition validPathInfoFromCA ::
  "Params \<Rightarrow> string \<Rightarrow> ContentAddressMethod \<Rightarrow> Hash \<Rightarrow> StoreReferences \<Rightarrow> Hash \<Rightarrow> ValidPathInfo" where
  "validPathInfoFromCA P pname method h refs narHash =
     (let path = makeFixedOutputPathFromCA (store P) pname method h refs
      in \<lparr>vpi_path = path, vpi_narHash = narHash, vpi_narSize = 0,
          vpi_references = sr_others refs @ (if sr_self refs then [path] else []),
          vpi_ca = Some \<lparr>ca_method = method, ca_hash = h\<rparr>,
          vpi_deriver = None, vpi_ultimate = False, vpi_sigs = []\<rparr>)"

text \<open>\<^verbatim>\<open>Hash::dummy\<close>.\<close>

definition dummyHash :: Hash where
  "dummyHash = Hash SHA256 []"

text \<open>The lambda \<^verbatim>\<open>newInfoFromCA\<close>, lines 2586-2657.\<close>

definition newInfoFromCA ::
  "Params \<Rightarrow> FsWorld \<Rightarrow> ScanAcc \<Rightarrow> string \<Rightarrow> StorePath \<Rightarrow> Path \<Rightarrow> StorePath list \<Rightarrow>
   ContentAddressMethod \<Rightarrow> HashAlgorithm \<Rightarrow> RegState \<Rightarrow> RegState \<times> (Error + ValidPathInfo)" where
  "newInfoFromCA P W acc outputName scratchPath actualPath references method algo st =
    (case map_of (outputStats acc) outputName of
       None \<Rightarrow> (st, Inl (OutputWithoutStats actualPath))
     | Some stt \<Rightarrow>
        if getFileIngestionMethod method = fimFlat \<and>
           (\<not> S_ISREG (st_mode stt) \<or> and (st_mode stt) S_IXUSR \<noteq> 0) then
          (st, Inl (NotRegularFile actualPath))
        else
          (let st1 = rewriteOutput actualPath (outputRewrites st) st;
               oldHashPart = hashPart scratchPath;
               got = caHashOf W actualPath (getFileIngestionMethod method) algo oldHashPart;
               newInfo0 = validPathInfoFromCA P (outputPathName P (drvName P) outputName) method got
                            (rewriteRefs references scratchPath (outputRewrites st1)) dummyHash;
               st2 = (if scratchPath \<noteq> vpi_path newInfo0 then
                        rewriteOutput actualPath [(oldHashPart, hashPart (vpi_path newInfo0))] st1
                      else st1);
               narHashAndSize = narHashOf W actualPath
           in (st2, Inr (newInfo0\<lparr>vpi_narHash := fst narHashAndSize,
                                   vpi_narSize := snd narHashAndSize\<rparr>))))"

text \<open>The \<^verbatim>\<open>std::visit\<close> that computes \<^verbatim>\<open>newInfo\<close>, lines
  2659-2742. In the branch for a fixed output, the error about the references is made from
  two reads of \<^verbatim>\<open>newInfo\<close>, the variable being initialised: see
  \<open>readOfNewInfo\<close>.\<close>

definition computeNewInfo ::
  "Params \<Rightarrow> FsWorld \<Rightarrow> ScanAcc \<Rightarrow> string \<Rightarrow> DerivationOutput \<Rightarrow> StorePath \<Rightarrow> Path \<Rightarrow>
   StorePath list \<Rightarrow> RegState \<Rightarrow> RegState \<times> (Error + ValidPathInfo)" where
  "computeNewInfo P W acc outputName output scratchPath actualPath references st =
    (case output of
       InputAddressed requiredFinalPath \<Rightarrow>
         (let st1 = (if scratchPath \<noteq> requiredFinalPath then
                       st\<lparr>outputRewrites :=
                            AList.update (hashPart scratchPath) (hashPart requiredFinalPath)
                              (outputRewrites st)\<rparr>
                     else st);
              st2 = rewriteOutput actualPath (outputRewrites st1) st1;
              narHashAndSize = narHashOf W actualPath;
              refs = rewriteRefs references scratchPath (outputRewrites st2)
          in (st2, Inr \<lparr>vpi_path = requiredFinalPath, vpi_narHash = fst narHashAndSize,
                         vpi_narSize = snd narHashAndSize,
                         vpi_references =
                           sr_others refs @ (if sr_self refs then [requiredFinalPath] else []),
                         vpi_ca = None, vpi_deriver = None, vpi_ultimate = False,
                         vpi_sigs = []\<rparr>))
     | CAFixed dof \<Rightarrow>
         (let wanted = ca_hash dof;
              st1 = emit [CopyFresh actualPath] st
          in case newInfoFromCA P W acc outputName scratchPath actualPath references
                    (ca_method dof) (hashAlgo wanted) st1 of
               (st2, Inl e) \<Rightarrow> (st2, Inl e)
             | (st2, Inr newInfo0) \<Rightarrow>
                 (case vpi_ca newInfo0 of
                    None \<Rightarrow> (st2, Inl AssertionFailed)
                  | Some ca \<Rightarrow>
                      (let got = ca_hash ca;
                           st3 = (if wanted \<noteq> got then
                                    (emit [NoteHashMismatch] st2)
                                      \<lparr>delayedException :=
                                         Some (HashMismatch (printStorePath (store P) (drvPath P))
                                                 (hashToString P SRI True wanted)
                                                 (hashToString P SRI True got))\<rparr>
                                  else st2)
                       in if vpi_references newInfo0 \<noteq> [] then
                            (case readOfNewInfo P (vpi_references newInfo0) of
                               None \<Rightarrow> (st3, Inl UninitialisedRead)
                             | Some (numViolations, example) \<Rightarrow>
                                 (st3\<lparr>delayedException :=
                                        Some (FixedOutputReferences
                                                (printStorePath (store P) (drvPath P))
                                                numViolations
                                                (printStorePath (store P) example))\<rparr>,
                                  Inr newInfo0))
                          else (st3, Inr newInfo0))))
     | CAFloating method algo \<Rightarrow>
         newInfoFromCA P W acc outputName scratchPath actualPath references method algo st
     | Deferred \<Rightarrow> (st, Inl AssertionFailed)
     | Impure method algo \<Rightarrow>
         newInfoFromCA P W acc outputName scratchPath actualPath references method algo st)"

text \<open>\<^verbatim>\<open>output->path(store, drv.name, outputName)\<close>: the path of an output when
  it is known before the build.\<close>

definition outputPath :: "Params \<Rightarrow> string \<Rightarrow> DerivationOutput \<Rightarrow> StorePath option" where
  "outputPath P outputName output =
     (case output of
        InputAddressed p \<Rightarrow> Some p
      | CAFixed dof \<Rightarrow>
          Some (makeFixedOutputPathFromCA (store P) (outputPathName P (drvName P) outputName)
                  (ca_method dof) (ca_hash dof) \<lparr>sr_self = False, sr_others = []\<rparr>)
      | CAFloating m a \<Rightarrow> None
      | Deferred \<Rightarrow> None
      | Impure m a \<Rightarrow> None)"

text \<open>Lines 2748-2785: locking the final path and moving the files. The result is the
  state and the new \<^verbatim>\<open>actualPath\<close>.\<close>

definition placeOutput ::
  "Params \<Rightarrow> string \<Rightarrow> DerivationOutput \<Rightarrow> ValidPathInfo \<Rightarrow> Path \<Rightarrow> RegState \<Rightarrow>
   RegState \<times> (Error + Path)" where
  "placeOutput P outputName output newInfo actualPath st =
    (let finalDestPath = printStorePath (store P) (vpi_path newInfo);
         optFixedPath = outputPath P outputName output;
         needLock = (case optFixedPath of
                       None \<Rightarrow> True
                     | Some fp \<Rightarrow> printStorePath (store P) fp \<noteq> finalDestPath)
     in if needLock \<and> vpi_ca newInfo = None then (st, Inl AssertionFailed)
        else
         (let st1 = (if needLock then emit [LockPaths (toRealPath (store P) finalDestPath)] st
                     else st)
          in if toRealPath (store P) finalDestPath \<noteq> actualPath then
               (if buildMode P = bmRepair then
                  (emit [ReplaceValidPath (toRealPath (store P) finalDestPath) actualPath] st1,
                   Inr (toRealPath (store P) finalDestPath))
                else if buildMode P = bmCheck then (st1, Inr actualPath)
                else if isValidPath st1 (vpi_path newInfo) then
                  (if vpi_ca newInfo = None then (st1, Inl AssertionFailed)
                   else (st1, Inr actualPath))
                else
                  (let destPath = toRealPath (store P) finalDestPath
                   in (emit [DeletePath destPath, MovePath actualPath destPath] st1, Inr destPath)))
             else (st1, Inr actualPath)))"

text \<open>Lines 2789-2820: what is done with an output in a check build.\<close>

definition checkOutput ::
  "Params \<Rightarrow> Builder \<Rightarrow> ValidPathInfo \<Rightarrow> Path \<Rightarrow> RegState \<Rightarrow> RegState \<times> (Error + unit)" where
  "checkOutput P b newInfo actualPath st =
    (let finalDestPath = printStorePath (store P) (vpi_path newInfo)
     in case map_of (validPaths st) (vpi_path newInfo) of
          None \<Rightarrow> (st, Inr ())
        | Some oldInfo \<Rightarrow>
            if vpi_narHash newInfo \<noteq> vpi_narHash oldInfo then
              (let st1 = emit [NoteCheckMismatch] st
               in if runDiffHook P \<or> keepFailed P then
                    (let dst = toRealPath (store P) (finalDestPath @ ''.check'')
                     in (emit [DeletePath dst, MovePath actualPath dst, DiffHook finalDestPath dst] st1,
                         Inl (NotDeterministicDiffers (printStorePath (store P) (drvPath P))
                                (toRealPath (store P) finalDestPath) dst)))
                  else
                    (st1, Inl (NotDeterministicError (printStorePath (store P) (drvPath P))
                                 (toRealPath (store P) finalDestPath))))
            else if \<not> vpi_ultimate oldInfo then
              (let oldInfo1 = oldInfo\<lparr>vpi_ultimate := True\<rparr>;
                   oldInfo2 = oldInfo1\<lparr>vpi_sigs := vpi_sigs oldInfo1 @ [signatureOf P oldInfo1]\<rparr>
               in (registerValidPaths [(vpi_path oldInfo2, oldInfo2)] st, Inr ()))
            else (st, Inr ()))"

text \<open>Lines 2822-2845: what is done with an output in a build that is not a check
  build.\<close>

definition recordOutput ::
  "Params \<Rightarrow> string \<Rightarrow> StorePath \<Rightarrow> ValidPathInfo \<Rightarrow> Path \<Rightarrow> RegState \<Rightarrow> RegState" where
  "recordOutput P outputName scratchPath newInfo actualPath st =
    (let st1 = emit [OptimisePath actualPath, MarkContentsGood (vpi_path newInfo)] st;
         newInfo1 = newInfo\<lparr>vpi_deriver := Some (drvPath P), vpi_ultimate := True\<rparr>;
         newInfo2 = newInfo1\<lparr>vpi_sigs := vpi_sigs newInfo1 @ [signatureOf P newInfo1]\<rparr>;
         st2 = finish outputName scratchPath (vpi_path newInfo2) st1;
         st3 = (if vpi_ca newInfo2 \<noteq> None then
                  registerValidPaths [(vpi_path newInfo2, newInfo2)] st2
                else st2)
     in st3\<lparr>infos := emplace outputName newInfo2 (infos st3)\<rparr>)"

text \<open>The body of the loop over \<^verbatim>\<open>sortedOutputNames\<close>, lines 2506-2846.\<close>

definition finalizeOutput ::
  "Params \<Rightarrow> FsWorld \<Rightarrow> Builder \<Rightarrow> ScanAcc \<Rightarrow> string \<Rightarrow> RegState \<Rightarrow> RegState \<times> (Error + unit)" where
  "finalizeOutput P W b acc outputName st =
    (case (map_of (drvOutputs P) outputName, map_of (scratchOutputs b) outputName) of
       (Some output, Some scratchPath) \<Rightarrow>
        (let actualPath = toRealPathChroot P b (printStorePath (store P) scratchPath)
         in case map_of (outputReferencesIfUnregistered acc) outputName of
              None \<Rightarrow> (st, Inl AssertionFailed)
            | Some (AlreadyRegistered skippedFinalPath) \<Rightarrow>
                (finish outputName scratchPath skippedFinalPath st, Inr ())
            | Some (PerhapsNeedToRegister references) \<Rightarrow>
                (case computeNewInfo P W acc outputName output scratchPath actualPath references st of
                   (st1, Inl e) \<Rightarrow> (st1, Inl e)
                 | (st1, Inr newInfo) \<Rightarrow>
                     (let st2 = emit [Canonicalise actualPath None] st1
                      in case placeOutput P outputName output newInfo actualPath st2 of
                           (st3, Inl e) \<Rightarrow> (st3, Inl e)
                         | (st3, Inr actualPath1) \<Rightarrow>
                             if buildMode P = bmCheck then checkOutput P b newInfo actualPath1 st3
                             else (recordOutput P outputName scratchPath newInfo actualPath1 st3,
                                   Inr ()))))
     | _ \<Rightarrow> (st, Inl AssertionFailed))"

fun finalizeOutputs ::
  "Params \<Rightarrow> FsWorld \<Rightarrow> Builder \<Rightarrow> ScanAcc \<Rightarrow> string list \<Rightarrow> RegState \<Rightarrow> RegState \<times> (Error + unit)" where
  "finalizeOutputs P W b acc [] st = (st, Inr ())"
| "finalizeOutputs P W b acc (outputName # rest) st =
     (case finalizeOutput P W b acc outputName st of
        (st1, Inl e) \<Rightarrow> (st1, Inl e)
      | (st1, Inr u) \<Rightarrow> finalizeOutputs P W b acc rest st1)"

subsection \<open>The commit and the result\<close>

text \<open>Lines 2885-2902: the realisations.\<close>

fun builtOutputsOf ::
  "Params \<Rightarrow> (string \<times> ValidPathInfo) list \<Rightarrow> (string \<times> Realisation) list \<Rightarrow> RegState \<Rightarrow>
   RegState \<times> (Error + (string \<times> Realisation) list)" where
  "builtOutputsOf P [] builtOutputs st = (st, Inr builtOutputs)"
| "builtOutputsOf P ((outputName, newInfo) # rest) builtOutputs st =
     (case map_of (initialOutputs P) outputName of
        None \<Rightarrow> (st, Inl AssertionFailed)
      | Some oldinfo \<Rightarrow>
          (let thisRealisation =
                 \<lparr>r_drvHash = io_outputHash oldinfo, r_outputName = outputName,
                  r_outPath = vpi_path newInfo\<rparr>;
               st1 = (if caDerivationsEnabled P \<and> \<not> drvIsImpure P then
                        emit [RegisterDrvOutput thisRealisation] st
                      else st)
           in builtOutputsOf P rest (emplace outputName thisRealisation builtOutputs) st1))"

text \<open>Lines 2866-2869: \<^verbatim>\<open>infos2\<close>, keyed by path.\<close>

definition infos2Of :: "(string \<times> ValidPathInfo) list \<Rightarrow> (StorePath \<times> ValidPathInfo) list" where
  "infos2Of is = fold (\<lambda>e m. AList.update (vpi_path (snd e)) (snd e) m) is []"

text \<open>\<^verbatim>\<open>registerOutputs\<close>, lines 2356-2905. The locals \<^verbatim>\<open>finalOutputs\<close>,
  \<^verbatim>\<open>infos\<close> and \<^verbatim>\<open>delayedException\<close> start empty.\<close>

definition registerOutputs ::
  "Params \<Rightarrow> FsWorld \<Rightarrow> Builder \<Rightarrow> RegState \<Rightarrow> RegState \<times> (Error + (string \<times> Realisation) list)" where
  "registerOutputs P W b st0 =
    (let st = st0\<lparr>finalOutputs := [], infos := [], delayedException := None\<rparr>
     in case scanOutputs P W b (map fst (drvOutputs P))
               \<lparr>outputsToSort = [], outputReferencesIfUnregistered = [], outputStats = []\<rparr> st of
          (st1, Inl e) \<Rightarrow> (st1, Inl e)
        | (st1, Inr acc) \<Rightarrow>
           (case sortedOutputNames P b acc of
              Inl e \<Rightarrow> (st1, Inl e)
            | Inr names \<Rightarrow>
               (case finalizeOutputs P W b acc names st1 of
                  (st2, Inl e) \<Rightarrow> (st2, Inl e)
                | (st2, Inr u) \<Rightarrow>
                    if buildMode P = bmCheck then
                      (case delayedException st2 of
                         Some e \<Rightarrow> (st2, Inl e)
                       | None \<Rightarrow> (st2, Inr (assertPathValidity P)))
                    else
                      (case checkOutputs P (infos st2) of
                         Some msg \<Rightarrow> (st2, Inl (OutputCheckFailed msg))
                       | None \<Rightarrow>
                          (let st3 = registerValidPaths (infos2Of (infos st2)) st2
                           in case delayedException st3 of
                                Some e \<Rightarrow> (st3, Inl e)
                              | None \<Rightarrow> builtOutputsOf P (infos st3) [] st3)))))"

text \<open>The batches given to \<^verbatim>\<open>registerValidPaths\<close>, in order: one for each
  commit to the store.\<close>

fun batchesOf :: "Op list \<Rightarrow> (StorePath \<times> ValidPathInfo) list list" where
  "batchesOf [] = []"
| "batchesOf (RegisterValidPaths batch # os) = batch # batchesOf os"
| "batchesOf (opn # os) = batchesOf os"

subsection \<open>Predicates used in the proofs about \<^verbatim>\<open>registerOutputs\<close>\<close>

text \<open>\<open>sameStore st st1\<close>: from \<open>st\<close> to \<open>st1\<close> nothing was registered and the
  locals \<^verbatim>\<open>finalOutputs\<close> and \<^verbatim>\<open>infos\<close> are unchanged.\<close>

definition sameStore :: "RegState \<Rightarrow> RegState \<Rightarrow> bool" where
  "sameStore st st1 =
     (batchesOf (ops st1) = batchesOf (ops st) \<and> validPaths st1 = validPaths st \<and>
      finalOutputs st1 = finalOutputs st \<and> infos st1 = infos st)"

text \<open>The errors that are only ever thrown from \<^verbatim>\<open>delayedException\<close>.\<close>

definition isDelayedKind :: "Error \<Rightarrow> bool" where
  "isDelayedKind e =
     (case e of HashMismatch d w g \<Rightarrow> True | FixedOutputReferences d k ex \<Rightarrow> True
      | _ \<Rightarrow> False)"

text \<open>What the first loop establishes about its accumulator: every output to sort has
  a scratch path, an initial status and an entry in
  \<^verbatim>\<open>outputReferencesIfUnregistered\<close>; an \<open>AlreadyRegistered\<close> entry belongs to
  an output that is valid and is not wanted; a \<open>PerhapsNeedToRegister\<close> entry belongs
  to a wanted output and holds the references scanned at its scratch path; such an output
  has its \<^verbatim>\<open>stat\<close> recorded.\<close>

definition entryOK :: "Params \<Rightarrow> FsWorld \<Rightarrow> Builder \<Rightarrow> (string \<times> Stat) list \<Rightarrow> string \<Rightarrow> OutputRefs \<Rightarrow> bool" where
  "entryOK P W b stats n r =
     (\<exists>sp info. map_of (scratchOutputs b) n = Some sp \<and> map_of (initialOutputs P) n = Some info \<and>
        (case r of
           AlreadyRegistered p \<Rightarrow>
             \<not> wantedOutput P info \<and> (\<exists>k. io_known info = Some k \<and> p = ios_path k)
         | PerhapsNeedToRegister refs \<Rightarrow>
             wantedOutput P info \<and>
             refs = outputReferences P W b n (toRealPathChroot P b (printStorePath (store P) sp)) \<and>
             map_of stats n \<noteq> None))"

definition scanInv :: "Params \<Rightarrow> FsWorld \<Rightarrow> Builder \<Rightarrow> ScanAcc \<Rightarrow> bool" where
  "scanInv P W b acc =
    ((\<forall>n. (n \<in> set (outputsToSort acc)) = (map_of (outputReferencesIfUnregistered acc) n \<noteq> None)) \<and>
     (\<forall>n r. map_of (outputReferencesIfUnregistered acc) n = Some r \<longrightarrow>
        entryOK P W b (outputStats acc) n r))"

text \<open>The info that is recorded for an output, lines 2833-2835: the new info with its
  deriver, the ultimate flag and the signature.\<close>

definition recordedInfo :: "Params \<Rightarrow> ValidPathInfo \<Rightarrow> ValidPathInfo" where
  "recordedInfo P newInfo =
     (let newInfo1 = newInfo\<lparr>vpi_deriver := Some (drvPath P), vpi_ultimate := True\<rparr>
      in newInfo1\<lparr>vpi_sigs := vpi_sigs newInfo1 @ [signatureOf P newInfo1]\<rparr>)"

text \<open>\<open>refersTo P b acc A B\<close>: output \<open>A\<close> is to be registered and the scratch path of
  output \<open>B\<close> is among its scanned references.\<close>

definition refersTo :: "Params \<Rightarrow> Builder \<Rightarrow> ScanAcc \<Rightarrow> string \<Rightarrow> string \<Rightarrow> bool" where
  "refersTo P b acc A B =
     (\<exists>refs p. map_of (outputReferencesIfUnregistered acc) A = Some (PerhapsNeedToRegister refs) \<and>
        (B, p) \<in> set (scratchOutputs b) \<and> p \<in> set refs)"

text \<open>The graph on the outputs that is sorted: the references between different
  outputs of the derivation.\<close>

definition outputGraph :: "Params \<Rightarrow> Builder \<Rightarrow> ScanAcc \<Rightarrow> (string \<times> string) set" where
  "outputGraph P b acc =
     {(A, B). refersTo P b acc A B \<and> B \<noteq> A \<and>
              A \<in> fst ` set (drvOutputs P) \<and> B \<in> fst ` set (drvOutputs P)}"

text \<open>An output that was already valid when the build started.\<close>

definition alreadyValid :: "Params \<Rightarrow> string \<Rightarrow> bool" where
  "alreadyValid P n =
     (\<exists>info k. map_of (initialOutputs P) n = Some info \<and> io_known info = Some k \<and> isValid k)"


text \<open>The path at which the second loop finds the output with scratch path \<open>sp\<close>, and
  for a fixed output with the content address \<open>ca\<close>: the content hash that is computed
  there, the hash mismatch that is noted when that hash is not the declared one (lines
  2700-2712), and the path that the output gets when it has no references.\<close>

definition actualPathOf :: "Params \<Rightarrow> Builder \<Rightarrow> StorePath \<Rightarrow> Path" where
  "actualPathOf P b sp = toRealPathChroot P b (printStorePath (store P) sp)"

definition gotHash :: "Params \<Rightarrow> FsWorld \<Rightarrow> Builder \<Rightarrow> ContentAddress \<Rightarrow> StorePath \<Rightarrow> Hash" where
  "gotHash P W b ca sp =
     caHashOf W (actualPathOf P b sp) (getFileIngestionMethod (ca_method ca))
       (hashAlgo (ca_hash ca)) (hashPart sp)"

definition mismatchOf :: "Params \<Rightarrow> FsWorld \<Rightarrow> Builder \<Rightarrow> ContentAddress \<Rightarrow> StorePath \<Rightarrow> Error" where
  "mismatchOf P W b ca sp =
     HashMismatch (printStorePath (store P) (drvPath P))
       (hashToString P SRI True (ca_hash ca))
       (hashToString P SRI True (gotHash P W b ca sp))"

definition fixedPathOf :: "Params \<Rightarrow> FsWorld \<Rightarrow> Builder \<Rightarrow> string \<Rightarrow> ContentAddress \<Rightarrow> StorePath \<Rightarrow> StorePath" where
  "fixedPathOf P W b n ca sp =
     makeFixedOutputPathFromCA (store P) (outputPathName P (drvName P) n) (ca_method ca)
       (gotHash P W b ca sp) \<lparr>sr_self = False, sr_others = []\<rparr>"

text \<open>\<open>fixedOutputProduced P W b n\<close>: the output \<open>n\<close> is a fixed output with a
  scratch path and an initial status, and, when it has to be registered, the builder has
  left at its scratch path a file that passes the tests of the two loops (lines 2423-2448
  and 2592-2600) and in which no reference is found.\<close>

definition fixedOutputProduced :: "Params \<Rightarrow> FsWorld \<Rightarrow> Builder \<Rightarrow> string \<Rightarrow> bool" where
  "fixedOutputProduced P W b n =
     (case (map_of (drvOutputs P) n, map_of (scratchOutputs b) n, map_of (initialOutputs P) n) of
        (Some (CAFixed ca), Some sp, Some ini) \<Rightarrow>
          \<not> wantedOutput P ini \<or>
          (case maybeLstat W (actualPathOf P b sp) of
             None \<Rightarrow> False
           | Some stt \<Rightarrow>
               \<not> suspiciousOwnership P b stt \<and>
               (getFileIngestionMethod (ca_method ca) = fimFlat \<longrightarrow>
                  S_ISREG (st_mode stt) \<and> and (st_mode stt) S_IXUSR = 0) \<and>
               outputReferences P W b n (actualPathOf P b sp) = [])
      | _ \<Rightarrow> False)"

text \<open>The state in which the second loop comes to the output \<open>n\<close>, when it runs over
  \<open>names\<close> from the state \<open>st1\<close>; and \<^verbatim>\<open>outputRewrites\<close> as it is when
  \<^verbatim>\<open>rewriteRefs\<close> is called for \<open>n\<close> (line 2574): after the loop has come to
  \<open>n\<close> and \<^verbatim>\<open>newInfo\<close> has been computed.\<close>

definition stateBefore ::
  "Params \<Rightarrow> FsWorld \<Rightarrow> Builder \<Rightarrow> ScanAcc \<Rightarrow> string list \<Rightarrow> RegState \<Rightarrow> string \<Rightarrow> RegState" where
  "stateBefore P W b acc names st1 n =
     fst (finalizeOutputs P W b acc (takeWhile (\<lambda>m. m \<noteq> n) names) st1)"

text \<open>The second loop comes to the output \<open>n\<close>: the outputs before it in the order
  have been finalised without an error.\<close>

definition reachedOutput ::
  "Params \<Rightarrow> FsWorld \<Rightarrow> Builder \<Rightarrow> ScanAcc \<Rightarrow> string list \<Rightarrow> RegState \<Rightarrow> string \<Rightarrow> bool" where
  "reachedOutput P W b acc names st1 n =
     (snd (finalizeOutputs P W b acc (takeWhile (\<lambda>m. m \<noteq> n) names) st1) = Inr ())"

definition rewritesFor ::
  "Params \<Rightarrow> FsWorld \<Rightarrow> Builder \<Rightarrow> ScanAcc \<Rightarrow> string list \<Rightarrow> RegState \<Rightarrow> string \<Rightarrow>
   (string \<times> string) list" where
  "rewritesFor P W b acc names st1 n =
     (case (map_of (drvOutputs P) n, map_of (scratchOutputs b) n) of
        (Some out, Some sp) \<Rightarrow>
          outputRewrites
            (fst (computeNewInfo P W acc n out sp (actualPathOf P b sp)
                    (outputReferences P W b n (actualPathOf P b sp))
                    (stateBefore P W b acc names st1 n)))
      | _ \<Rightarrow> [])"

text \<open>\<open>scannedInfo P W b acc names st1 n i\<close>: the references of the info \<open>i\<close> are
  the references scanned at the scratch path of the output \<open>n\<close>, the ones other than the
  scratch path itself rewritten with \<^verbatim>\<open>outputRewrites\<close>, and the path of \<open>i\<close>
  in place of the scratch path.\<close>

definition scannedInfo ::
  "Params \<Rightarrow> FsWorld \<Rightarrow> Builder \<Rightarrow> ScanAcc \<Rightarrow> string list \<Rightarrow> RegState \<Rightarrow> string \<Rightarrow>
   ValidPathInfo \<Rightarrow> bool" where
  "scannedInfo P W b acc names st1 n i =
     (case map_of (scratchOutputs b) n of
        None \<Rightarrow> False
      | Some sp \<Rightarrow>
          vpi_references i =
            map (rewriteRef (rewritesFor P W b acc names st1 n))
              (filter (\<lambda>q. q \<noteq> sp) (outputReferences P W b n (actualPathOf P b sp))) @
            (if sp \<in> set (outputReferences P W b n (actualPathOf P b sp)) then [vpi_path i]
             else []))"
section \<open>Example inputs\<close>

text \<open>A small store for the closed instances below. Its \<open>makeStorePath\<close> uses
  the fingerprint itself as the hash part, so that distinct fingerprints give distinct
  paths.\<close>

definition exStore :: Store where
  "exStore =
     \<lparr>storeDir = ''/nix/store'', realStoreDir = ''/nix/store'',
      printStorePath = (\<lambda>p. ''/nix/store/'' @ to_string p),
      toRealPath = (\<lambda>p. p),
      makeStorePath = (\<lambda>t h n. StorePath t n),
      makeFixedOutputPathFromCA = (\<lambda>n m h r. StorePath (''ca:'' @ map (\<lambda>w. char_of (unat w)) (hashBytes h)) n)\<rparr>"

definition exParams :: Params where
  "exParams =
     \<lparr>platform = Linux, store = exStore, sandboxMode = smDisabled, sandboxFallback = True,
      useBuildUsers = True, mountAndPidNamespacesSupported = True,
      acquireUserLock = (\<lambda>n c. None),
      drvPath = StorePath ''dddd'' ''foo.drv'', drvName = ''foo'',
      noChroot = False, additionalSandboxProfile = '''', useUidRange = False,
      isSandboxed = True, buildMode = bmNormal,
      inputPaths = [StorePath ''iiii'' ''dep''],
      initialOutputs =
        [(''dev'', \<lparr>io_wanted = True, io_outputHash = zeroHash, io_known = None\<rparr>),
         (''out'', \<lparr>io_wanted = True, io_outputHash = zeroHash,
                    io_known = Some \<lparr>ios_path = StorePath ''oooo'' ''foo'', ios_status = Valid\<rparr>\<rparr>)],
      hashPlaceholder = (\<lambda>n. ''/placeholder-'' @ n),
      outputPathName = (\<lambda>d n. if n = ''out'' then d else d @ ''-'' @ n),
      drvOutputs = [], unsafeDiscardReferences = [], keepFailed = False, runDiffHook = False,
      caDerivationsEnabled = False, drvIsImpure = False,
      checkOutputs = (\<lambda>infos. None), assertPathValidity = [],
      hashToString = (\<lambda>f p h. ''sha256-'' @ map (\<lambda>w. char_of (unat w)) (hashBytes h)),
      signatureOf = (\<lambda>i. ''sig''), readOfNewInfo = (\<lambda>refs. None)\<rparr>"

definition exBuilder :: Builder where
  "exBuilder =
     \<lparr>useChroot = False, buildUser = None, chrootRootDir = ''/chroot'',
      scratchOutputs = [], inputRewrites = [], redirectedOutputs = [],
      addedPaths = [], deletedPaths = []\<rparr>"

definition exMountWorld :: MountWorld where
  "exMountWorld = \<lparr>pathExists = (\<lambda>p. False), bindMountChild = (\<lambda>s t. 0)\<rparr>"

text \<open>For \<^verbatim>\<open>registerOutputs\<close>: scratch paths for the two outputs of the example,
  an empty state, a file system in which every path has the given \<^verbatim>\<open>stat\<close> and
  the given bytes, and whose hashes are fixed.\<close>

definition exScratchBuilder :: Builder where
  "exScratchBuilder =
     exBuilder\<lparr>scratchOutputs :=
       [(''dev'', StorePath ''sd'' ''foo-dev''),
        (''out'', StorePath ''rewrite:dddd-foo.drv:oooo-foo'' ''foo'')]\<rparr>"

definition exRegState :: RegState where
  "exRegState =
     \<lparr>ops = [], validPaths = [], outputRewrites = [], finalOutputs = [], infos = [],
      delayedException = None\<rparr>"

definition exScanAcc :: ScanAcc where
  "exScanAcc = \<lparr>outputsToSort = [], outputReferencesIfUnregistered = [], outputStats = []\<rparr>"

definition exFsWorld :: "Stat \<Rightarrow> FsWorld" where
  "exFsWorld stt =
     \<lparr>maybeLstat = (\<lambda>p. Some stt), pathBytes = (\<lambda>p. ''hello''),
      caHashOf = (\<lambda>p m a h. Hash a [0x61, 0x62]), narHashOf = (\<lambda>p. (Hash SHA256 [0x6E], 5))\<rparr>"

text \<open>A derivation with the single input-addressed output \<open>out\<close>, whose final path
  is already valid, and a file system in which no path exists.\<close>

definition exValidOut :: Params where
  "exValidOut =
     exParams\<lparr>drvOutputs := [(''out'', InputAddressed (StorePath ''oooo'' ''foo''))],
       initialOutputs :=
         [(''out'', \<lparr>io_wanted = True, io_outputHash = zeroHash,
                    io_known = Some \<lparr>ios_path = StorePath ''oooo'' ''foo'', ios_status = Valid\<rparr>\<rparr>)]\<rparr>"

definition exNoFiles :: FsWorld where
  "exNoFiles =
     \<lparr>maybeLstat = (\<lambda>p. None), pathBytes = (\<lambda>p. []),
      caHashOf = (\<lambda>p m a h. Hash a []), narHashOf = (\<lambda>p. (Hash SHA256 [], 0))\<rparr>"

text \<open>A derivation with the two floating outputs \<open>dev\<close> and \<open>out\<close>, neither of
  which has a known final path, and the same derivation built in check mode with the
  output \<open>out\<close> known and valid. In the file system the bytes of the scratch path of
  \<open>out\<close> contain \<open>sd\<close>, the hash part of the scratch path of \<open>dev\<close>.
  \<open>exTwoScanned\<close> and \<open>exTwoAcc\<close> are the state and the accumulator after the first
  loop.\<close>

definition exTwoFloating :: Params where
  "exTwoFloating =
     exParams\<lparr>drvOutputs :=
       [(''dev'', CAFloating camNixArchive SHA256), (''out'', CAFloating camNixArchive SHA256)],
       initialOutputs :=
        [(''dev'', \<lparr>io_wanted = True, io_outputHash = zeroHash, io_known = None\<rparr>),
         (''out'', \<lparr>io_wanted = True, io_outputHash = zeroHash, io_known = None\<rparr>)]\<rparr>"

definition exTwoCheck :: Params where
  "exTwoCheck =
     exParams\<lparr>buildMode := bmCheck, drvOutputs :=
       [(''dev'', CAFloating camNixArchive SHA256), (''out'', CAFloating camNixArchive SHA256)]\<rparr>"

definition exRefWorld :: FsWorld where
  "exRefWorld =
     \<lparr>maybeLstat = (\<lambda>p. Some \<lparr>st_mode = 0x8124, st_uid = 0\<rparr>),
      pathBytes = (\<lambda>p. if p = ''/nix/store/rewrite:dddd-foo.drv:oooo-foo-foo'' then ''see sd here''
                        else ''hello''),
      caHashOf = (\<lambda>p m a h. Hash a [0x61, 0x62]), narHashOf = (\<lambda>p. (Hash SHA256 [0x6E], 5))\<rparr>"

definition exTwoScanned :: RegState where
  "exTwoScanned =
     exRegState\<lparr>ops := [Canonicalise ''/nix/store/sd-foo-dev'' None,
          Canonicalise ''/nix/store/rewrite:dddd-foo.drv:oooo-foo-foo'' None]\<rparr>"

definition exTwoAcc :: ScanAcc where
  "exTwoAcc =
     \<lparr>outputsToSort = [''dev'', ''out''],
      outputReferencesIfUnregistered =
        [(''dev'', PerhapsNeedToRegister []),
         (''out'', PerhapsNeedToRegister [StorePath ''sd'' ''foo-dev''])],
      outputStats =
        [(''dev'', \<lparr>st_mode = 0x8124, st_uid = 0\<rparr>), (''out'', \<lparr>st_mode = 0x8124, st_uid = 0\<rparr>)]\<rparr>"


text \<open>A derivation with the single fixed output \<open>out\<close>, declared with the hash
  \<open>w\<close>; its scratch path is its final path. In the file system every path is a regular
  file whose bytes contain \<open>iiii\<close>, the hash part of the input path, and whose content
  hash is \<open>ab\<close>. As in all the examples, a read of \<^verbatim>\<open>newInfo\<close> while it is
  being initialised traps.\<close>

definition exFixed :: Params where
  "exFixed =
     exParams\<lparr>drvOutputs := [(''out'', CAFixed \<lparr>ca_method = camFlat, ca_hash = Hash SHA256 [0x77]\<rparr>)],
       initialOutputs :=
         [(''out'', \<lparr>io_wanted = True, io_outputHash = zeroHash,
                    io_known = Some \<lparr>ios_path = StorePath ''ca:w'' ''foo'', ios_status = Absent\<rparr>\<rparr>)]\<rparr>"

definition exFixedBuilder :: Builder where
  "exFixedBuilder = exBuilder\<lparr>scratchOutputs := [(''out'', StorePath ''ca:w'' ''foo'')]\<rparr>"

definition exDepWorld :: FsWorld where
  "exDepWorld =
     \<lparr>maybeLstat = (\<lambda>p. Some \<lparr>st_mode = 0x8124, st_uid = 0\<rparr>),
      pathBytes = (\<lambda>p. ''uses iiii''),
      caHashOf = (\<lambda>p m a h. Hash a [0x61, 0x62]), narHashOf = (\<lambda>p. (Hash SHA256 [0x6E], 5))\<rparr>"

text \<open>A derivation with the two input-addressed outputs \<open>dev\<close> and \<open>out\<close>, of
  which \<open>out\<close> is valid before the build.\<close>

definition exInputAddressed :: Params where
  "exInputAddressed =
     exParams\<lparr>drvOutputs :=
       [(''dev'', InputAddressed (StorePath ''dddv'' ''foo-dev'')),
        (''out'', InputAddressed (StorePath ''oooo'' ''foo''))],
       initialOutputs :=
        [(''dev'', \<lparr>io_wanted = True, io_outputHash = zeroHash,
                    io_known = Some \<lparr>ios_path = StorePath ''dddv'' ''foo-dev'', ios_status = Absent\<rparr>\<rparr>),
         (''out'', \<lparr>io_wanted = True, io_outputHash = zeroHash,
                    io_known = Some \<lparr>ios_path = StorePath ''oooo'' ''foo'', ios_status = Valid\<rparr>\<rparr>)]\<rparr>"

text \<open>The two floating outputs again, \<open>out\<close> now with the flat method, in a file
  system in which every path is an executable regular file.\<close>

definition exPartial :: Params where
  "exPartial =
     exTwoFloating\<lparr>drvOutputs :=
       [(''dev'', CAFloating camNixArchive SHA256), (''out'', CAFloating camFlat SHA256)]\<rparr>"

definition exExecWorld :: FsWorld where
  "exExecWorld = exRefWorld\<lparr>maybeLstat := (\<lambda>p. Some \<lparr>st_mode = 0x8164, st_uid = 0\<rparr>)\<rparr>"
section \<open>Theorems\<close>

subsection \<open>C6: transient or permanent failure\<close>

lemma diskFull_iff:
  "cleanupDecideWhetherDiskFull w realStore tmp =
     (HAVE_STATVFS w \<and> (belowRequired w realStore \<or> belowRequired w tmp))"
  by (auto simp: cleanupDecideWhetherDiskFull_def Let_def)

text \<open>
  C6, as the code has it. When the builder's exit status is not ok, the failure is
  \<^const>\<open>TransientFailure\<close> if the derivation is not sandboxed (fixed-output or
  impure), or if a successful \<^verbatim>\<open>statvfs\<close> of the real store directory or of
  the temporary directory reports \<^verbatim>\<open>f_bavail * f_bsize\<close> (in 64 bits) below
  8 MiB; it is \<^const>\<open>PermanentFailure\<close> otherwise.
\<close>

theorem C6_failure_kind:
  "\<not> statusOk status \<Longrightarrow>
   fst (builderFailed w realStore tmp sandboxed status) =
     (if \<not> sandboxed \<or>
         (HAVE_STATVFS w \<and>
          ((\<exists>st. statvfs w realStore = Some st \<and> unat (f_bavail st * f_bsize st) < 8 * 1024 * 1024) \<or>
           (\<exists>st. statvfs w tmp = Some st \<and> unat (f_bavail st * f_bsize st) < 8 * 1024 * 1024)))
      then TransientFailure else PermanentFailure)"
proof -
  assume nok: "\<not> statusOk status"
  have req: "unat required = 8 * 1024 * 1024"
    by (simp add: required_def)
  have below: "belowRequired w d =
      (\<exists>st. statvfs w d = Some st \<and> unat (f_bavail st * f_bsize st) < 8 * 1024 * 1024)" for d
    unfolding belowRequired_def word_less_nat_alt req
    by (cases "statvfs w d") simp_all
  show ?thesis
    using nok
    unfolding builderFailed_def failureStatus_def Let_def fst_conv diskFull_iff below
    by simp
qed

text \<open>Witness: a sandboxed derivation whose builder exits with code 1 while the
  temporary directory has 4 MiB free (1024 blocks of 4096 bytes).\<close>

theorem C6_failure_kind_witness:
  "\<not> statusOk (Exited 1) \<and>
   fst (builderFailed
          \<lparr>HAVE_STATVFS = True,
           statvfs = (\<lambda>d. if d = ''/tmp/nix-build-foo'' then Some \<lparr>f_bavail = 1024, f_bsize = 4096\<rparr>
                          else Some \<lparr>f_bavail = 1048576, f_bsize = 4096\<rparr>)\<rparr>
          ''/nix/store'' ''/tmp/nix-build-foo'' True (Exited 1)) = TransientFailure"
  using C6_failure_kind [of "Exited 1"
      "\<lparr>HAVE_STATVFS = True,
        statvfs = (\<lambda>d. if d = ''/tmp/nix-build-foo'' then Some \<lparr>f_bavail = 1024, f_bsize = 4096\<rparr>
                       else Some \<lparr>f_bavail = 1048576, f_bsize = 4096\<rparr>)\<rparr>"
      "''/nix/store''" "''/tmp/nix-build-foo''" True]
  by (simp add: statusOk_def)

text \<open>Counterexample to C6 as stated: a fixed-output derivation (not sandboxed) whose
  builder exits with code 1 while both file systems report 4 GiB free. No
  \<^verbatim>\<open>statvfs\<close> call reports less than 8 MiB, yet the failure is transient, not
  permanent.\<close>

theorem C6_counterexample:
  "\<not> (fst (builderFailed
            \<lparr>HAVE_STATVFS = True,
             statvfs = (\<lambda>d. Some \<lparr>f_bavail = 1048576, f_bsize = 4096\<rparr>)\<rparr>
            ''/nix/store'' ''/tmp/nix-build-foo'' False (Exited 1)) = PermanentFailure)"
  by (simp add: builderFailed_def failureStatus_def statusOk_def)

subsection \<open>C9: a duplicate request to \<^verbatim>\<open>addDependency\<close>\<close>

text \<open>
  C9, as the code has it. A call of \<^verbatim>\<open>addDependency\<close> with a store path that
  is already allowed (in \<^verbatim>\<open>inputPaths\<close> or \<^verbatim>\<open>addedPaths\<close>) returns
  without an error and leaves the builder as it was. The error
  \<^verbatim>\<open>store path ... already exists in the sandbox\<close> is thrown exactly when the
  path is not yet allowed, the build uses a chroot on Linux and the target already exists
  inside the chroot.
\<close>

theorem C9_duplicate_is_noop:
  "(isAllowed P b path \<longrightarrow> addDependency P w b path = (b, None)) \<and>
   ((\<exists>msg. snd (addDependency P w b path) = Some (AlreadyExistsInSandbox msg)) =
      (\<not> isAllowed P b path \<and> useChroot b \<and> platform P = Linux \<and>
       pathExists w (chrootRootDir b @ printStorePath (store P) path)))"
  by (auto simp: addDependency_def Let_def)

theorem C9_duplicate_is_noop_witness:
  "isAllowed exParams exBuilder (StorePath ''iiii'' ''dep'') \<and>
   addDependency exParams exMountWorld exBuilder (StorePath ''iiii'' ''dep'') = (exBuilder, None)"
  using C9_duplicate_is_noop [of exParams exBuilder "StorePath ''iiii'' ''dep''" exMountWorld]
  by (simp add: isAllowed_def exParams_def)

text \<open>Counterexample to C9 as stated: the path is an input of the build, so the request
  is a duplicate, and no error comes back.\<close>

theorem C9_counterexample:
  "StorePath ''iiii'' ''dep'' \<in> set (inputPaths exParams) \<and>
   snd (addDependency exParams exMountWorld exBuilder (StorePath ''iiii'' ''dep'')) = None"
  by (simp add: addDependency_def isAllowed_def exParams_def)

subsection \<open>C7: the results of \<^verbatim>\<open>prepareBuild\<close>\<close>

lemma prepareBuild_cases:
  "snd (prepareBuild P b) =
    (if sandboxMode P = smEnabled \<and> noChroot P then
       Inl (NoChrootNotAllowed (printStorePath (store P) (drvPath P)))
     else if sandboxMode P = smEnabled \<and> platform P = Darwin \<and> additionalSandboxProfile P \<noteq> '''' then
       Inl (SandboxProfileNotAllowed (printStorePath (store P) (drvPath P)))
     else if storeDir (store P) \<noteq> realStoreDir (store P) \<and> platform P \<noteq> Linux then
       Inl DivertedStoreUnsupported
     else if platform P = Linux \<and>
             (storeDir (store P) \<noteq> realStoreDir (store P) \<or> sandboxMode P = smEnabled \<or>
              (sandboxMode P = smRelaxed \<and> isSandboxed P \<and> \<not> noChroot P)) \<and>
             \<not> mountAndPidNamespacesSupported P \<and> \<not> sandboxFallback P then
       Inl NamespacesUnsupported
     else if useBuildUsers P \<and> buildUser b = None \<and>
             acquireUserLock P (if useUidRange P then 65536 else 1) (finalChroot P) = None then
       Inr False
     else Inr True)"
proof -
  define n :: nat where "n = (if useUidRange P then 65536 else 1)"
  define lock where "lock = acquireUserLock P n"
  have lk: "acquireUserLock P n = lock" by (simp add: lock_def)
  show ?thesis
    unfolding prepareBuild_def finalChroot_def Let_def n_def [symmetric] lk
    by (cases "sandboxMode P"; cases "platform P = Linux"; cases "storeDir (store P) = realStoreDir (store P)";
        cases "mountAndPidNamespacesSupported P"; cases "noChroot P"; cases "lock True"; cases "lock False"; cases "buildUser b";
        simp)
qed


lemma prepareBuild_chroot:
  "\<forall>e. snd (prepareBuild P b) \<noteq> Inl e \<Longrightarrow> useChroot (fst (prepareBuild P b)) = finalChroot P"
proof -
  define n :: nat where "n = (if useUidRange P then 65536 else 1)"
  define lock where "lock = acquireUserLock P n"
  have lk: "acquireUserLock P n = lock" by (simp add: lock_def)
  assume "\<forall>e. snd (prepareBuild P b) \<noteq> Inl e"
  then show ?thesis
    unfolding prepareBuild_def finalChroot_def Let_def n_def [symmetric] lk
    by (cases "sandboxMode P"; cases "platform P = Linux"; cases "storeDir (store P) = realStoreDir (store P)";
        cases "mountAndPidNamespacesSupported P"; cases "noChroot P"; cases "buildUser b";
        auto split: if_splits)
qed

text \<open>
  C7. \<^verbatim>\<open>prepareBuild\<close> returns \<open>false\<close> exactly when it reaches the build-user
  step (none of its configuration errors is thrown), build users are in use, the slot is
  empty and \<^verbatim>\<open>acquireUserLock\<close> returns no lock. Every other result is
  \<open>true\<close> or a thrown error: \<^verbatim>\<open>__noChroot\<close> (or, on macOS, a sandbox
  profile) under an enforced sandbox, a diverted store on a platform other than Linux,
  and missing kernel namespaces without the fallback are thrown, never returned.
\<close>

theorem C7_prepareBuild_results:
  "((snd (prepareBuild P b) = Inr False) =
      ((\<forall>e. snd (prepareBuild P b) \<noteq> Inl e) \<and> useBuildUsers P \<and> buildUser b = None \<and>
       acquireUserLock P (if useUidRange P then 65536 else 1)
         (useChroot (fst (prepareBuild P b))) = None)) \<and>
   ((\<exists>e. snd (prepareBuild P b) = Inl e) =
      ((sandboxMode P = smEnabled \<and> noChroot P) \<or>
       (sandboxMode P = smEnabled \<and> platform P = Darwin \<and> additionalSandboxProfile P \<noteq> '''') \<or>
       (storeDir (store P) \<noteq> realStoreDir (store P) \<and> platform P \<noteq> Linux) \<or>
       (platform P = Linux \<and>
        (storeDir (store P) \<noteq> realStoreDir (store P) \<or> sandboxMode P = smEnabled \<or>
         (sandboxMode P = smRelaxed \<and> isSandboxed P \<and> \<not> noChroot P)) \<and>
        \<not> mountAndPidNamespacesSupported P \<and> \<not> sandboxFallback P))) \<and>
   (sandboxMode P = smEnabled \<and> noChroot P \<longrightarrow>
      snd (prepareBuild P b) = Inl (NoChrootNotAllowed (printStorePath (store P) (drvPath P)))) \<and>
   (storeDir (store P) \<noteq> realStoreDir (store P) \<and> platform P \<noteq> Linux \<and>
    \<not> (sandboxMode P = smEnabled \<and> (noChroot P \<or> platform P = Darwin \<and> additionalSandboxProfile P \<noteq> '''')) \<longrightarrow>
      snd (prepareBuild P b) = Inl DivertedStoreUnsupported)"
proof -
  define r where "r = snd (prepareBuild P b)"
  define c where "c = useChroot (fst (prepareBuild P b))"
  have c: "\<forall>e. r \<noteq> Inl e \<Longrightarrow> c = finalChroot P"
    unfolding r_def c_def by (rule prepareBuild_chroot)
  note cs = prepareBuild_cases [of P b, folded r_def]
  have errs: "(\<exists>e. r = Inl e) =
      ((sandboxMode P = smEnabled \<and> noChroot P) \<or>
       (sandboxMode P = smEnabled \<and> platform P = Darwin \<and> additionalSandboxProfile P \<noteq> '''') \<or>
       (storeDir (store P) \<noteq> realStoreDir (store P) \<and> platform P \<noteq> Linux) \<or>
       (platform P = Linux \<and>
        (storeDir (store P) \<noteq> realStoreDir (store P) \<or> sandboxMode P = smEnabled \<or>
         (sandboxMode P = smRelaxed \<and> isSandboxed P \<and> \<not> noChroot P)) \<and>
        \<not> mountAndPidNamespacesSupported P \<and> \<not> sandboxFallback P))"
    by (subst cs) (simp split: if_splits)
  have retry: "(r = Inr False) =
      ((\<forall>e. r \<noteq> Inl e) \<and> useBuildUsers P \<and> buildUser b = None \<and>
       acquireUserLock P (if useUidRange P then 65536 else 1) c = None)"
  proof (cases "\<exists>e. r = Inl e")
    case True
    then show ?thesis by auto
  next
    case False
    then have fc: "c = finalChroot P" using c by simp
    from False have ne: "\<forall>e. r \<noteq> Inl e" by simp
    show ?thesis
      unfolding fc using ne False [unfolded errs]
      by (subst cs) (simp split: if_splits)
  qed
  have e1: "sandboxMode P = smEnabled \<and> noChroot P \<longrightarrow>
      r = Inl (NoChrootNotAllowed (printStorePath (store P) (drvPath P)))"
    by (subst cs) simp
  have e2: "storeDir (store P) \<noteq> realStoreDir (store P) \<and> platform P \<noteq> Linux \<and>
    \<not> (sandboxMode P = smEnabled \<and> (noChroot P \<or> platform P = Darwin \<and> additionalSandboxProfile P \<noteq> '''')) \<longrightarrow>
      r = Inl DivertedStoreUnsupported"
    by (subst cs) auto
  show ?thesis
    using retry errs e1 e2 unfolding r_def c_def by blast
qed

theorem C7_prepareBuild_results_witness:
  "snd (prepareBuild exParams exBuilder) = Inr False \<and>
   snd (prepareBuild (exParams\<lparr>sandboxMode := smEnabled, noChroot := True\<rparr>) exBuilder) =
     Inl (NoChrootNotAllowed ''/nix/store/dddd-foo.drv'')"
proof -
  have a: "snd (prepareBuild exParams exBuilder) = Inr False"
    using C7_prepareBuild_results [of exParams exBuilder]
    by (simp add: exParams_def exBuilder_def prepareBuild_def)
  have b: "snd (prepareBuild (exParams\<lparr>sandboxMode := smEnabled, noChroot := True\<rparr>) exBuilder) =
     Inl (NoChrootNotAllowed ''/nix/store/dddd-foo.drv'')"
    using C7_prepareBuild_results [of "exParams\<lparr>sandboxMode := smEnabled, noChroot := True\<rparr>" exBuilder]
    by (simp add: exParams_def exStore_def to_string_def)
  show ?thesis using a b by simp
qed

subsection \<open>C1: the scratch path of every output\<close>

lemma startBuilder_output_useChroot [simp]:
  "useChroot (startBuilder_output P b e) = useChroot b"
  by (cases e) (simp add: startBuilder_output_def Let_def split: option.splits)

lemma startBuilder_outputs_useChroot [simp]:
  "useChroot (startBuilder_outputs P b outs) = useChroot b"
  unfolding startBuilder_outputs_def by (induction outs arbitrary: b) simp_all

lemma scratchPathFor_cong:
  "useChroot b' = useChroot b \<Longrightarrow> scratchPathFor P b' n s = scratchPathFor P b n s"
  by (simp add: scratchPathFor_def needsHashRewrite_def split: option.splits)

lemma scratchPathFor_cases:
  "io_known s = Some k \<Longrightarrow>
   scratchPathFor P b n s = ios_path k \<or> scratchPathFor P b n s = makeFallbackPath_path P (ios_path k)"
  by (simp add: scratchPathFor_def)

lemma startBuilder_output_scratch_other:
  "n \<noteq> fst e \<Longrightarrow> map_of (scratchOutputs (startBuilder_output P b e)) n = map_of (scratchOutputs b) n"
  by (cases e) (simp add: startBuilder_output_def Let_def update_conv' split: option.splits)

lemma startBuilder_outputs_scratch_other:
  "n \<notin> fst ` set outs \<Longrightarrow>
   map_of (scratchOutputs (startBuilder_outputs P b outs)) n = map_of (scratchOutputs b) n"
  unfolding startBuilder_outputs_def
  by (induction outs arbitrary: b) (simp_all add: startBuilder_output_scratch_other)

lemma startBuilder_output_redirected:
  "map_of (redirectedOutputs b) p = Some (makeFallbackPath_path P p) \<Longrightarrow>
   map_of (redirectedOutputs (startBuilder_output P b e)) p = Some (makeFallbackPath_path P p)"
proof (cases e)
  case (Pair n s)
  assume a: "map_of (redirectedOutputs b) p = Some (makeFallbackPath_path P p)"
  show ?thesis
  proof (cases "io_known s")
    case None
    then show ?thesis using a by (simp add: Pair startBuilder_output_def Let_def)
  next
    case (Some k)
    from scratchPathFor_cases [OF Some, of P b n] show ?thesis
      using a Some by (auto simp: Pair startBuilder_output_def Let_def update_conv')
  qed
qed

lemma startBuilder_outputs_redirected:
  "map_of (redirectedOutputs b) p = Some (makeFallbackPath_path P p) \<Longrightarrow>
   map_of (redirectedOutputs (startBuilder_outputs P b outs)) p = Some (makeFallbackPath_path P p)"
  unfolding startBuilder_outputs_def
  by (induction outs arbitrary: b) (simp_all add: startBuilder_output_redirected)

lemma startBuilder_outputs_append:
  "startBuilder_outputs P b (xs @ e # ys) =
     startBuilder_outputs P (startBuilder_output P (startBuilder_outputs P b xs) e) ys"
  by (simp add: startBuilder_outputs_def)

lemma startBuilder_output_scratch:
  "map_of (scratchOutputs (startBuilder_output P b (n, s))) n = Some (scratchPathFor P b n s)"
  by (simp add: startBuilder_output_def Let_def update_conv' split: option.splits)

lemma startBuilder_output_rewrite:
  "io_known s = Some k \<Longrightarrow> scratchPathFor P b n s \<noteq> ios_path k \<Longrightarrow>
   map_of (inputRewrites (startBuilder_output P b (n, s))) (hashPart (ios_path k)) =
     Some (hashPart (scratchPathFor P b n s)) \<and>
   map_of (redirectedOutputs (startBuilder_output P b (n, s))) (ios_path k) =
     Some (scratchPathFor P b n s)"
  by (simp add: startBuilder_output_def Let_def update_conv')

lemma scratchPathFor_table:
  "(io_known s = None \<longrightarrow> scratchPathFor P b n s = makeFallbackPath_name P n) \<and>
   (\<forall>k. io_known s = Some k \<longrightarrow>
      (\<not> needsHashRewrite P b \<longrightarrow> scratchPathFor P b n s = ios_path k) \<and>
      (needsHashRewrite P b \<and> \<not> isPresent k \<longrightarrow> scratchPathFor P b n s = ios_path k) \<and>
      (needsHashRewrite P b \<and> isPresent k \<and> buildMode P \<noteq> bmRepair \<and> \<not> isValid k \<longrightarrow>
         scratchPathFor P b n s = ios_path k) \<and>
      (needsHashRewrite P b \<and> isPresent k \<and> \<not> (buildMode P \<noteq> bmRepair \<and> \<not> isValid k) \<longrightarrow>
         scratchPathFor P b n s = makeFallbackPath_path P (ios_path k)))"
  by (simp add: scratchPathFor_def)

text \<open>
  C1. For every entry \<open>(n, s)\<close> of \<^verbatim>\<open>initialOutputs\<close>, the scratch path
  recorded for \<open>n\<close> after the loop is chosen by the first matching row: the final
  path is unknown, a fallback path made from the output name; no hash rewriting is
  needed, the final path; the final path is not present, the final path; the build mode
  is not Repair and the present final path is not valid, the final path; otherwise the
  fallback path made from the final path. When the scratch path differs from a known
  final path, the iteration for \<open>n\<close> leaves the final path's hash part mapped to the
  scratch path's in \<^verbatim>\<open>inputRewrites\<close>, and after the loop
  \<^verbatim>\<open>redirectedOutputs\<close> maps the final path to the scratch path.
\<close>

theorem C1_scratch_path_table:
  assumes dist: "distinct (map fst (initialOutputs P))"
    and split: "initialOutputs P = pre @ (n, s) # post"
  shows
    "map_of (scratchOutputs (startBuilder_outputs P b (initialOutputs P))) n =
       Some (scratchPathFor P b n s) \<and>
     (io_known s = None \<longrightarrow> scratchPathFor P b n s = makeFallbackPath_name P n) \<and>
     (\<forall>k. io_known s = Some k \<longrightarrow>
        (\<not> needsHashRewrite P b \<longrightarrow> scratchPathFor P b n s = ios_path k) \<and>
        (needsHashRewrite P b \<and> \<not> isPresent k \<longrightarrow> scratchPathFor P b n s = ios_path k) \<and>
        (needsHashRewrite P b \<and> isPresent k \<and> buildMode P \<noteq> bmRepair \<and> \<not> isValid k \<longrightarrow>
           scratchPathFor P b n s = ios_path k) \<and>
        (needsHashRewrite P b \<and> isPresent k \<and> \<not> (buildMode P \<noteq> bmRepair \<and> \<not> isValid k) \<longrightarrow>
           scratchPathFor P b n s = makeFallbackPath_path P (ios_path k)) \<and>
        (scratchPathFor P b n s \<noteq> ios_path k \<longrightarrow>
           map_of (inputRewrites (startBuilder_output P (startBuilder_outputs P b pre) (n, s)))
             (hashPart (ios_path k)) = Some (hashPart (scratchPathFor P b n s)) \<and>
           map_of (redirectedOutputs (startBuilder_outputs P b (initialOutputs P))) (ios_path k) =
             Some (scratchPathFor P b n s)))"
proof -
  define b1 where "b1 = startBuilder_outputs P b pre"
  define b2 where "b2 = startBuilder_output P b1 (n, s)"
  define sp where "sp = scratchPathFor P b n s"
  have fin: "startBuilder_outputs P b (initialOutputs P) = startBuilder_outputs P b2 post"
    unfolding split b2_def b1_def by (rule startBuilder_outputs_append)
  have sp1: "scratchPathFor P b1 n s = sp"
    unfolding b1_def sp_def by (rule scratchPathFor_cong) simp
  from dist have "n \<notin> fst ` set post"
    unfolding split by auto
  then have keep: "map_of (scratchOutputs (startBuilder_outputs P b2 post)) n = map_of (scratchOutputs b2) n"
    by (rule startBuilder_outputs_scratch_other)
  have A: "map_of (scratchOutputs (startBuilder_outputs P b (initialOutputs P))) n = Some sp"
  proof -
    have "map_of (scratchOutputs (startBuilder_outputs P b (initialOutputs P))) n =
        map_of (scratchOutputs b2) n"
      by (simp only: fin keep)
    also have "\<dots> = Some sp"
      unfolding b2_def using startBuilder_output_scratch [of P b1 n s] sp1 by simp
    finally show ?thesis .
  qed
  have B: "map_of (inputRewrites b2) (hashPart (ios_path k)) = Some (hashPart sp) \<and>
           map_of (redirectedOutputs (startBuilder_outputs P b (initialOutputs P))) (ios_path k) = Some sp"
    if k: "io_known s = Some k" and ne: "sp \<noteq> ios_path k" for k
  proof -
    from ne have ne1: "scratchPathFor P b1 n s \<noteq> ios_path k" using sp1 by simp
    from startBuilder_output_rewrite [OF k ne1, folded b2_def, unfolded sp1]
    have r1: "map_of (inputRewrites b2) (hashPart (ios_path k)) = Some (hashPart sp)"
      and r2: "map_of (redirectedOutputs b2) (ios_path k) = Some sp" by simp_all
    from scratchPathFor_cases [OF k, of P b n] ne
    have eq: "sp = makeFallbackPath_path P (ios_path k)" by (simp add: sp_def)
    have "map_of (redirectedOutputs (startBuilder_outputs P b2 post)) (ios_path k) = Some sp"
      using startBuilder_outputs_redirected [of b2 "ios_path k" P post] r2 unfolding eq by simp
    then show ?thesis using r1 by (simp add: fin)
  qed
  note T = scratchPathFor_table [of s P b n, folded sp_def]
  show ?thesis
    unfolding sp_def [symmetric] b1_def [symmetric] b2_def [symmetric]
    using A B T by simp
qed

text \<open>Witness: output \<open>out\<close> of the example, whose final path is valid, in a build
  without chroot.\<close>

theorem C1_scratch_path_table_witness:
  "distinct (map fst (initialOutputs exParams)) \<and>
   map_of (scratchOutputs (startBuilder_outputs exParams exBuilder (initialOutputs exParams))) ''out'' =
     Some (StorePath ''rewrite:dddd-foo.drv:oooo-foo'' ''foo'') \<and>
   map_of (redirectedOutputs (startBuilder_outputs exParams exBuilder (initialOutputs exParams)))
     (StorePath ''oooo'' ''foo'') = Some (StorePath ''rewrite:dddd-foo.drv:oooo-foo'' ''foo'')"
proof -
  define dev :: InitialOutput where
    "dev = \<lparr>io_wanted = True, io_outputHash = zeroHash, io_known = None\<rparr>"
  define out :: InitialOutput where
    "out = \<lparr>io_wanted = True, io_outputHash = zeroHash,
             io_known = Some \<lparr>ios_path = StorePath ''oooo'' ''foo'', ios_status = Valid\<rparr>\<rparr>"
  have io: "initialOutputs exParams = [(''dev'', dev)] @ (''out'', out) # []"
    by (simp add: exParams_def dev_def out_def)
  have d: "distinct (map fst (initialOutputs exParams))"
    by (simp add: exParams_def)
  have sp: "scratchPathFor exParams exBuilder ''out'' out =
      StorePath ''rewrite:dddd-foo.drv:oooo-foo'' ''foo''"
    by (simp add: scratchPathFor_def out_def needsHashRewrite_def exParams_def exBuilder_def
        isPresent_def isValid_def makeFallbackPath_path_def exStore_def to_string_def)
  have k: "io_known out = Some \<lparr>ios_path = StorePath ''oooo'' ''foo'', ios_status = Valid\<rparr>"
    by (simp add: out_def)
  from C1_scratch_path_table [OF d io, of exBuilder, unfolded sp] k
  show ?thesis using d by simp
qed

subsection \<open>Topological sorting\<close>

lemma dfsExt_refl: "dfsExt parents ds st st"
  by (simp add: dfsExt_def)

lemma dfsExt_trans:
  "dfsExt parents ds st st1 \<Longrightarrow> dfsExt parents ds st1 st2 \<Longrightarrow> dfsExt parents ds st st2"
  unfolding dfsExt_def
  apply (elim exE conjE)
  subgoal for new new'
    by (rule exI [of _ "new @ new'"]) auto
  done

lemma dfsExt_mono: "dfsExt parents ds st st' \<Longrightarrow> ds \<subseteq> ds' \<Longrightarrow> dfsExt parents ds' st st'"
  unfolding dfsExt_def by blast

lemma dfsExt_sorted_mono: "dfsExt parents ds st st' \<Longrightarrow> x \<in> set (sorted_nodes st) \<Longrightarrow> x \<in> set (sorted_nodes st')"
  unfolding dfsExt_def by auto

lemma comesBefore_append: "comesBefore xs y x \<Longrightarrow> comesBefore (xs @ zs) y x"
  unfolding comesBefore_def by (metis append.assoc append_Cons)

lemma comesBefore_last: "y \<in> set xs \<Longrightarrow> comesBefore (xs @ [x]) y x"
  unfolding comesBefore_def by blast

lemma dfs_success:
  "(\<forall>st'. dfsVisit items gc mk parents path parent st = Inr st' \<longrightarrow> dfsInv items gc parents st \<longrightarrow>
      dfsExt parents (insert path (set items)) st st' \<and> path \<in> set (sorted_nodes st') \<and>
      dfsInv items gc parents st')"
  "(\<forall>st'. visitChildren items gc mk parents path cs st = Inr st' \<longrightarrow> dfsInv items gc parents st \<longrightarrow>
      dfsExt parents (set items) st st' \<and>
      (\<forall>c \<in> set cs. c \<noteq> path \<and> c \<in> set items \<longrightarrow> c \<in> set (sorted_nodes st')) \<and>
      dfsInv items gc parents st')"
proof (induction items gc mk parents path parent st and items gc mk parents path cs st
    rule: dfsVisit_visitChildren.induct)
  case (1 items gc mk parents path parent st)
  show ?case
  proof (intro allI impI)
    fix st'
    assume res: "dfsVisit items gc mk parents path parent st = Inr st'"
      and inv: "dfsInv items gc parents st"
    have np: "path \<notin> parents"
      using res by (auto split: option.splits)
    show "dfsExt parents (insert path (set items)) st st' \<and> path \<in> set (sorted_nodes st') \<and>
      dfsInv items gc parents st'"
    proof (cases "path \<in> set (visited st)")
      case True
      with res np have "st' = st" by simp
      moreover from True np inv have "path \<in> set (sorted_nodes st)"
        unfolding dfsInv_def by blast
      ultimately show ?thesis using inv by (simp add: dfsExt_refl)
    next
      case False
      define st1 where "st1 = st\<lparr>visited := visited st @ [path]\<rparr>"
      from res np False obtain refs st2 where
        gc: "gc path = Inr refs"
        and vc: "visitChildren items gc mk (insert path parents) path refs st1 = Inr st2"
        and st': "st' = st2\<lparr>sorted_nodes := sorted_nodes st2 @ [path]\<rparr>"
        by (auto simp: Let_def st1_def split: sum.splits)
      from inv False have pns: "path \<notin> set (sorted_nodes st)"
        unfolding dfsInv_def by blast
      have inv1: "dfsInv items gc (insert path parents) st1"
        using inv pns unfolding dfsInv_def st1_def by auto
      from "1.IH" [OF np False st1_def gc] vc inv1
      have ext: "dfsExt (insert path parents) (set items) st1 st2"
        and ch: "\<forall>c \<in> set refs. c \<noteq> path \<and> c \<in> set items \<longrightarrow> c \<in> set (sorted_nodes st2)"
        and inv2: "dfsInv items gc (insert path parents) st2"
        by blast+
      from ext obtain new where
        s2: "sorted_nodes st2 = sorted_nodes st1 @ new"
        and v2: "set (visited st2) = set (visited st1) \<union> set new"
        and n2: "set new \<inter> insert path parents = {}"
        and d2: "set new \<subseteq> set items"
        unfolding dfsExt_def by blast
      have s1: "sorted_nodes st1 = sorted_nodes st" and v1: "visited st1 = visited st @ [path]"
        by (simp_all add: st1_def)
      have pn2: "path \<notin> set (sorted_nodes st2)"
        using pns n2 by (auto simp: s2 s1)
      have e: "dfsExt parents (insert path (set items)) st st'"
        unfolding dfsExt_def
        apply (rule exI [of _ "new @ [path]"])
        using n2 d2 np by (auto simp: st' s2 s1 v2 v1)
      have closed: "comesBefore (sorted_nodes st') y x"
        if "x \<in> set (sorted_nodes st')" "(x, y) \<in> edges items gc" for x y
      proof (cases "x = path")
        case True
        from that(2) gc have "y \<in> set refs" "y \<noteq> path" "y \<in> set items"
          unfolding edges_def True by auto
        with ch have "y \<in> set (sorted_nodes st2)" by blast
        then show ?thesis unfolding st' True by (simp add: comesBefore_last)
      next
        case False
        with that(1) have "x \<in> set (sorted_nodes st2)" by (simp add: st')
        with inv2 that(2) have "comesBefore (sorted_nodes st2) y x"
          unfolding dfsInv_def by blast
        then show ?thesis unfolding st' by (simp add: comesBefore_append)
      qed
      have i: "dfsInv items gc parents st'"
        unfolding dfsInv_def
      proof (intro conjI allI impI)
        show "distinct (sorted_nodes st')"
          using inv2 pn2 unfolding dfsInv_def st' by simp
        show "set (sorted_nodes st') \<subseteq> set (visited st')"
          using inv2 unfolding dfsInv_def st' by (auto simp: v2 v1)
        show "set (visited st') \<subseteq> set (sorted_nodes st') \<union> parents"
          using inv2 unfolding dfsInv_def st' by auto
        show "set (sorted_nodes st') \<inter> parents = {}"
          using inv2 np unfolding dfsInv_def st' by auto
        show "comesBefore (sorted_nodes st') y x"
          if "x \<in> set (sorted_nodes st') \<and> (x, y) \<in> edges items gc" for x y
          using closed that by blast
      qed
      show ?thesis using e i by (simp add: st')
    qed
  qed
next
  case (2 items gc mk parents path st)
  show ?case by (simp add: dfsExt_refl)
next
  case (3 items gc mk parents path i rest st)
  show ?case
  proof (intro allI impI)
    fix st'
    assume res: "visitChildren items gc mk parents path (i # rest) st = Inr st'"
      and inv: "dfsInv items gc parents st"
    show "dfsExt parents (set items) st st' \<and>
      (\<forall>c \<in> set (i # rest). c \<noteq> path \<and> c \<in> set items \<longrightarrow> c \<in> set (sorted_nodes st')) \<and>
      dfsInv items gc parents st'"
    proof (cases "i \<noteq> path \<and> i \<in> set items")
      case True
      from res True obtain st1 where
        d: "dfsVisit items gc mk parents i (Some path) st = Inr st1"
        and r: "visitChildren items gc mk parents path rest st1 = Inr st'"
        by (auto split: sum.splits)
      from "3.IH"(1) [OF True] d inv
      have e1: "dfsExt parents (insert i (set items)) st st1"
        and i1: "i \<in> set (sorted_nodes st1)" and inv1: "dfsInv items gc parents st1"
        by blast+
      from True have "insert i (set items) = set items" by auto
      with e1 have e1': "dfsExt parents (set items) st st1" by simp
      from "3.IH"(2) [OF True d] r inv1
      have e2: "dfsExt parents (set items) st1 st'"
        and c2: "\<forall>c \<in> set rest. c \<noteq> path \<and> c \<in> set items \<longrightarrow> c \<in> set (sorted_nodes st')"
        and inv2: "dfsInv items gc parents st'"
        by blast+
      from dfsExt_sorted_mono [OF e2 i1] have "i \<in> set (sorted_nodes st')" .
      with c2 dfsExt_trans [OF e1' e2] inv2 show ?thesis by auto
    next
      case False
      with res have r: "visitChildren items gc mk parents path rest st = Inr st'" by auto
      from "3.IH"(3) [OF False] r inv False show ?thesis by auto
    qed
  qed
qed


lemma visitItems_success:
  "visitItems items gc mk rest st = Inr st' \<Longrightarrow> dfsInv items gc {} st \<Longrightarrow> set rest \<subseteq> set items \<Longrightarrow>
   dfsExt {} (set items) st st' \<and> set rest \<subseteq> set (sorted_nodes st') \<and> dfsInv items gc {} st'"
proof (induction rest arbitrary: st)
  case Nil
  then show ?case by (simp add: dfsExt_refl)
next
  case (Cons i rest)
  from Cons.prems(1) obtain st1 where
    d: "dfsVisit items gc mk {} i None st = Inr st1"
    and r: "visitItems items gc mk rest st1 = Inr st'"
    by (auto split: sum.splits)
  from Cons.prems(3) have ii: "insert i (set items) = set items" by auto
  from dfs_success(1) [of items gc mk "{}" i None st] d Cons.prems(2)
  have e1: "dfsExt {} (set items) st st1" and i1: "i \<in> set (sorted_nodes st1)"
    and inv1: "dfsInv items gc {} st1"
    unfolding ii by blast+
  from Cons.IH [OF r inv1] Cons.prems(3)
  have e2: "dfsExt {} (set items) st1 st'" and r2: "set rest \<subseteq> set (sorted_nodes st')"
    and inv2: "dfsInv items gc {} st'"
    by auto
  from dfsExt_sorted_mono [OF e2 i1] r2 dfsExt_trans [OF e1 e2] inv2
  show ?case by simp
qed

lemma comesBefore_rev:
  "distinct xs \<Longrightarrow> comesBefore xs y x \<Longrightarrow> comesBefore (rev xs) x y"
proof -
  assume d: "distinct xs" and c: "comesBefore xs y x"
  from c obtain ys zs where xs: "xs = ys @ x # zs" and y: "y \<in> set ys"
    unfolding comesBefore_def by blast
  from y obtain ys1 ys2 where ys: "ys = ys1 @ y # ys2"
    by (meson split_list)
  have "rev xs = (rev zs @ x # rev ys2) @ y # rev ys1"
    by (simp add: xs ys)
  moreover have "x \<in> set (rev zs @ x # rev ys2)" by simp
  ultimately show ?thesis unfolding comesBefore_def by blast
qed

lemma topoSort_success:
  assumes "topoSort items gc mk = Inr order"
  shows "set order = set items \<and> distinct order \<and>
         (\<forall>x y. (x, y) \<in> edges items gc \<and> x \<in> set items \<longrightarrow> comesBefore order x y)"
proof -
  define st0 where "st0 = \<lparr>visited = [], sorted_nodes = []\<rparr>"
  from assms obtain st where v: "visitItems items gc mk items st0 = Inr st"
    and o: "order = rev (sorted_nodes st)"
    unfolding topoSort_def st0_def by (auto split: sum.splits)
  have inv0: "dfsInv items gc {} st0"
    by (simp add: dfsInv_def st0_def)
  from visitItems_success [OF v inv0]
  have e: "dfsExt {} (set items) st0 st" and sub: "set items \<subseteq> set (sorted_nodes st)"
    and inv: "dfsInv items gc {} st"
    by simp_all
  from e have "set (sorted_nodes st) \<subseteq> set items"
    unfolding dfsExt_def st0_def by auto
  with sub have s: "set (sorted_nodes st) = set items" by blast
  from inv have d: "distinct (sorted_nodes st)"
    and c: "\<And>x y. x \<in> set (sorted_nodes st) \<Longrightarrow> (x, y) \<in> edges items gc \<Longrightarrow>
            comesBefore (sorted_nodes st) y x"
    unfolding dfsInv_def by blast+
  show ?thesis
    unfolding o using s d c comesBefore_rev [OF d] by auto
qed

lemma dfs_error:
  "(\<forall>e. dfsVisit items gc mk parents path parent st = Inl e \<longrightarrow>
      (case parent of None \<Rightarrow> parents = {}
       | Some p \<Rightarrow> (p, path) \<in> edges items gc \<and> (\<forall>q \<in> parents. (q, p) \<in> (edges items gc)\<^sup>*)) \<longrightarrow>
      cycleError (insert path (set items)) items gc mk e)"
  "(\<forall>e. visitChildren items gc mk parents path cs st = Inl e \<longrightarrow>
      (\<forall>q \<in> parents. (q, path) \<in> (edges items gc)\<^sup>*) \<longrightarrow>
      (\<forall>c \<in> set cs. c \<noteq> path \<and> c \<in> set items \<longrightarrow> (path, c) \<in> edges items gc) \<longrightarrow>
      cycleError (set items) items gc mk e)"
proof (induction items gc mk parents path parent st and items gc mk parents path cs st
    rule: dfsVisit_visitChildren.induct)
  case (1 items gc mk parents path parent st)
  show ?case
  proof (intro allI impI)
    fix e
    assume res: "dfsVisit items gc mk parents path parent st = Inl e"
      and pre: "case parent of None \<Rightarrow> parents = {}
       | Some p \<Rightarrow> (p, path) \<in> edges items gc \<and> (\<forall>q \<in> parents. (q, p) \<in> (edges items gc)\<^sup>*)"
    show "cycleError (insert path (set items)) items gc mk e"
    proof (cases "path \<in> parents")
      case True
      with pre obtain p where p: "parent = Some p" by (cases parent) auto
      with pre True have "(p, path) \<in> edges items gc" "(path, p) \<in> (edges items gc)\<^sup>*"
        by auto
      moreover from res True p have "e = mk path p" by simp
      ultimately show ?thesis unfolding cycleError_def by blast
    next
      case np: False
      show ?thesis
      proof (cases "path \<in> set (visited st)")
        case True
        with res np show ?thesis by simp
      next
        case False
        define st1 where "st1 = st\<lparr>visited := visited st @ [path]\<rparr>"
        show ?thesis
        proof (cases "gc path")
          case (Inl e')
          with res np False have "e = e'" by (simp add: Let_def)
          with Inl show ?thesis unfolding cycleError_def by blast
        next
          case (Inr refs)
          with res np False have
            vc: "visitChildren items gc mk (insert path parents) path refs st1 = Inl e"
            by (auto simp: Let_def st1_def split: sum.splits)
          have reach: "\<forall>q \<in> insert path parents. (q, path) \<in> (edges items gc)\<^sup>*"
          proof
            fix q assume q: "q \<in> insert path parents"
            show "(q, path) \<in> (edges items gc)\<^sup>*"
            proof (cases "q = path")
              case True
              then show ?thesis by simp
            next
              case False
              with q have qp: "q \<in> parents" by simp
              with pre obtain p where "parent = Some p" by (cases parent) auto
              with pre qp have "(q, p) \<in> (edges items gc)\<^sup>*" "(p, path) \<in> edges items gc"
                by auto
              then show ?thesis by (rule rtrancl_into_rtrancl)
            qed
          qed
          have ed: "\<forall>c \<in> set refs. c \<noteq> path \<and> c \<in> set items \<longrightarrow> (path, c) \<in> edges items gc"
            using Inr unfolding edges_def by auto
          from "1.IH" [OF np False st1_def Inr] vc reach ed
          have "cycleError (set items) items gc mk e" by blast
          then show ?thesis unfolding cycleError_def by blast
        qed
      qed
    qed
  qed
next
  case (2 items gc mk parents path st)
  show ?case by simp
next
  case (3 items gc mk parents path i rest st)
  show ?case
  proof (intro allI impI)
    fix e
    assume res: "visitChildren items gc mk parents path (i # rest) st = Inl e"
      and reach: "\<forall>q \<in> parents. (q, path) \<in> (edges items gc)\<^sup>*"
      and ed: "\<forall>c \<in> set (i # rest). c \<noteq> path \<and> c \<in> set items \<longrightarrow> (path, c) \<in> edges items gc"
    show "cycleError (set items) items gc mk e"
    proof (cases "i \<noteq> path \<and> i \<in> set items")
      case True
      with ed have pi: "(path, i) \<in> edges items gc" by simp
      show ?thesis
      proof (cases "dfsVisit items gc mk parents i (Some path) st")
        case (Inl e')
        with res True have "e = e'" by simp
        with "3.IH"(1) [OF True] Inl pi reach
        have "cycleError (insert i (set items)) items gc mk e" by simp
        moreover from True have "insert i (set items) = set items" by auto
        ultimately show ?thesis by simp
      next
        case (Inr st1)
        with res True have "visitChildren items gc mk parents path rest st1 = Inl e" by simp
        with "3.IH"(2) [OF True Inr] reach ed show ?thesis by simp
      qed
    next
      case False
      with res have "visitChildren items gc mk parents path rest st = Inl e" by auto
      with "3.IH"(3) [OF False] reach ed show ?thesis by simp
    qed
  qed
qed

lemma visitItems_error:
  "visitItems items gc mk rest st = Inl e \<Longrightarrow> set rest \<subseteq> set items \<Longrightarrow>
   cycleError (set items) items gc mk e"
proof (induction rest arbitrary: st)
  case Nil
  then show ?case by simp
next
  case (Cons i rest)
  show ?case
  proof (cases "dfsVisit items gc mk {} i None st")
    case (Inl e')
    with Cons.prems have "e = e'" by simp
    with dfs_error(1) [of items gc mk "{}" i None st] Inl
    have "cycleError (insert i (set items)) items gc mk e" by simp
    moreover from Cons.prems(2) have "insert i (set items) = set items" by auto
    ultimately show ?thesis by simp
  next
    case (Inr st1)
    with Cons.prems have "visitItems items gc mk rest st1 = Inl e" by simp
    then show ?thesis using Cons.prems(2) by (intro Cons.IH) auto
  qed
qed

lemma topoSort_error:
  "topoSort items gc mk = Inl e \<Longrightarrow> cycleError (set items) items gc mk e"
  unfolding topoSort_def by (auto split: sum.splits dest: visitItems_error)

lemma comesBefore_irrefl: "distinct xs \<Longrightarrow> \<not> comesBefore xs x x"
  unfolding comesBefore_def by auto

lemma split_unique:
  "y \<notin> set xs \<Longrightarrow> y \<notin> set us \<Longrightarrow> xs @ y # zs = us @ y # ws \<Longrightarrow> xs = us"
proof (induction xs arbitrary: us)
  case Nil
  then show ?case by (cases us) auto
next
  case (Cons a xs)
  then show ?case by (cases us) auto
qed

lemma comesBefore_trans:
  "distinct xs \<Longrightarrow> comesBefore xs x y \<Longrightarrow> comesBefore xs y z \<Longrightarrow> comesBefore xs x z"
proof -
  assume d: "distinct xs" and a: "comesBefore xs x y" and b: "comesBefore xs y z"
  from a obtain ys zs where 1: "xs = ys @ y # zs" and x: "x \<in> set ys"
    unfolding comesBefore_def by blast
  from b obtain ys' zs' where 2: "xs = ys' @ z # zs'" and y: "y \<in> set ys'"
    unfolding comesBefore_def by blast
  from y obtain u v where ys': "ys' = u @ y # v" by (meson split_list)
  from 1 2 ys' have "ys @ y # zs = u @ y # (v @ z # zs')" by simp
  moreover from d 1 have "y \<notin> set ys" by auto
  moreover from d 2 ys' have "y \<notin> set u" by auto
  ultimately have "ys = u"
    using split_unique [of y ys u zs "v @ z # zs'"] by simp
  with x ys' have "x \<in> set ys'" by simp
  with 2 show ?thesis unfolding comesBefore_def by blast
qed

lemma topoSort_acyclic:
  assumes "topoSort items gc mk = Inr order"
  shows "(x, x) \<notin> (edges items gc \<inter> (set items \<times> UNIV))\<^sup>+"
proof
  let ?E = "edges items gc \<inter> (set items \<times> UNIV)"
  from topoSort_success [OF assms]
  have d: "distinct order"
    and c: "\<And>x y. (x, y) \<in> ?E \<Longrightarrow> comesBefore order x y"
    by auto
  have "comesBefore order a b" if "(a, b) \<in> ?E\<^sup>+" for a b
    using that
  proof (induction rule: trancl_induct)
    case (base y)
    then show ?case by (rule c)
  next
    case (step y z)
    from comesBefore_trans [OF d step.IH c [OF step.hyps(2)]] show ?case .
  qed
  moreover assume "(x, x) \<in> ?E\<^sup>+"
  ultimately have "comesBefore order x x" by blast
  with comesBefore_irrefl [OF d] show False by blast
qed

subsection \<open>The first loop of \<^verbatim>\<open>registerOutputs\<close>\<close>

lemmas scan_defs = scanOutput_def Let_def emit_def

text \<open>The definitions to unfold when a closed instance is evaluated.\<close>

lemmas example_defs = exParams_def exBuilder_def exStore_def exScratchBuilder_def exRegState_def
  exScanAcc_def exFsWorld_def exValidOut_def exNoFiles_def to_string_def zeroHash_def

lemmas register_defs = registerOutputs_def scanOutput_def Let_def toRealPathChroot_def
  needsHashRewrite_def wantedOutput_def isValid_def isPresent_def suspiciousOwnership_def
  S_ISLNK_def S_IFMT_def S_IFLNK_def S_IWGRP_def S_IWOTH_def S_ISREG_def S_IFREG_def S_IXUSR_def
  emit_def outputReferences_def discardReferences_def scanForReferences_def referenceablePaths_def set_insert_def sortedOutputNames_def
  topoSort_def referencedOutputs_def finalizeOutput_def computeNewInfo_def newInfoFromCA_def
  getFileIngestionMethod_def rewriteOutput_def validPathInfoFromCA_def rewriteRefs_def
  rewriteRef_def dummyHash_def placeOutput_def outputPath_def isValidPath_def recordOutput_def
  checkOutput_def finish_def registerValidPaths_def emplace_def infos2Of_def

lemma mode_bits:
  "(and (m :: 32 word) (or S_IWGRP S_IWOTH) \<noteq> 0) = (bit m 4 \<or> bit m 1)"
proof -
  have c: "or S_IWGRP S_IWOTH = or (2 ^ 4) (2 ^ 1 :: 32 word)"
    by (simp add: S_IWGRP_def S_IWOTH_def)
  have "and m (or (2 ^ 4) (2 ^ 1)) = or (and m (2 ^ 4)) (and m (2 ^ 1))"
    by (simp only: bit.conj_disj_distrib)
  moreover have "(or (and m (2 ^ 4)) (and m (2 ^ 1)) = 0) = (and m (2 ^ 4) = 0 \<and> and m (2 ^ 1) = 0)"
    by (simp only: or_eq_0_iff)
  moreover have "(and m (2 ^ 4) = 0) = (\<not> bit m 4)" "(and m (2 ^ 1) = 0) = (\<not> bit m 1)"
    by (simp_all only: and_exp_eq_0_iff_not_bit)
  ultimately show ?thesis unfolding c by auto
qed

text \<open>Whether \<open>scanOutput\<close> throws does not depend on the accumulator or the state.\<close>

lemma scanOutput_error_indep:
  "snd (scanOutput P W b n acc st) = Inl e \<Longrightarrow> snd (scanOutput P W b n acc' st') = Inl e"
  by (auto simp: scan_defs split: option.splits if_splits)

lemma scanOutputs_error:
  "n \<in> set names \<Longrightarrow> snd (scanOutput P W b n acc0 st0) = Inl e \<Longrightarrow>
   \<exists>e'. snd (scanOutputs P W b names acc st) = Inl e'"
proof (induction names arbitrary: acc st)
  case Nil
  then show ?case by simp
next
  case (Cons m names)
  obtain st1 r where s: "scanOutput P W b m acc st = (st1, r)" by (cases "scanOutput P W b m acc st")
  show ?case
  proof (cases r)
    case (Inl e1)
    with s show ?thesis by simp
  next
    case (Inr acc1)
    have "m \<noteq> n"
    proof
      assume "m = n"
      with scanOutput_error_indep [OF Cons.prems(2), of acc st] s Inr show False by simp
    qed
    with Cons.prems have "n \<in> set names" by simp
    from Cons.IH [OF this Cons.prems(2), of acc1 st1] s Inr show ?thesis by simp
  qed
qed

lemma registerOutputs_scan_error:
  "(n, out) \<in> set (drvOutputs P) \<Longrightarrow> snd (scanOutput P W b n acc0 st0) = Inl e \<Longrightarrow>
   \<exists>e'. snd (registerOutputs P W b st) = Inl e'"
proof -
  assume a: "(n, out) \<in> set (drvOutputs P)" and f: "snd (scanOutput P W b n acc0 st0) = Inl e"
  from a have "n \<in> set (map fst (drvOutputs P))" by force
  from scanOutputs_error [OF this f] obtain e' where
    "snd (scanOutputs P W b (map fst (drvOutputs P))
       \<lparr>outputsToSort = [], outputReferencesIfUnregistered = [], outputStats = []\<rparr>
       (st\<lparr>finalOutputs := [], infos := [], delayedException := None\<rparr>)) = Inl e'"
    by blast
  then show ?thesis
    by (auto simp: registerOutputs_def Let_def split: prod.splits)
qed


text \<open>The characters of the hashes of the examples.\<close>

lemma example_chars:
  "char_of (119 :: nat) = CHR ''w''" "char_of (97 :: nat) = CHR ''a''"
  "char_of (98 :: nat) = CHR ''b''"
  by code_simp+

subsection \<open>Frames of the steps of \<^verbatim>\<open>registerOutputs\<close>\<close>

lemma batchesOf_append [simp]: "batchesOf (xs @ ys) = batchesOf xs @ batchesOf ys"
  by (induction xs rule: batchesOf.induct) simp_all

lemma emit_fields [simp]:
  "ops (emit os st) = ops st @ os"
  "validPaths (emit os st) = validPaths st"
  "outputRewrites (emit os st) = outputRewrites st"
  "finalOutputs (emit os st) = finalOutputs st"
  "infos (emit os st) = infos st"
  "delayedException (emit os st) = delayedException st"
  by (simp_all add: emit_def)

lemma registerValidPaths_fields [simp]:
  "ops (registerValidPaths batch st) = ops st @ [RegisterValidPaths batch]"
  "outputRewrites (registerValidPaths batch st) = outputRewrites st"
  "finalOutputs (registerValidPaths batch st) = finalOutputs st"
  "infos (registerValidPaths batch st) = infos st"
  "delayedException (registerValidPaths batch st) = delayedException st"
  by (simp_all add: registerValidPaths_def)

lemma fold_update_dom:
  "fst ` set (fold (\<lambda>e db. AList.update (fst e) (snd e) db) batch db0) = fst ` set db0 \<union> fst ` set batch"
  by (induction batch arbitrary: db0) (auto simp: dom_update)

lemma registerValidPaths_dom [simp]:
  "fst ` set (validPaths (registerValidPaths batch st)) = fst ` set (validPaths st) \<union> fst ` set batch"
  by (simp add: registerValidPaths_def fold_update_dom)

lemma isValidPath_iff: "isValidPath st p = (p \<in> fst ` set (validPaths st))"
  by (simp add: isValidPath_def map_of_eq_None_iff)

lemma rewriteOutput_fields [simp]:
  "batchesOf (ops (rewriteOutput ap rw st)) = batchesOf (ops st)"
  "validPaths (rewriteOutput ap rw st) = validPaths st"
  "outputRewrites (rewriteOutput ap rw st) = outputRewrites st"
  "finalOutputs (rewriteOutput ap rw st) = finalOutputs st"
  "infos (rewriteOutput ap rw st) = infos st"
  "delayedException (rewriteOutput ap rw st) = delayedException st"
  by (simp_all add: rewriteOutput_def)

lemma finish_fields [simp]:
  "ops (finish n sp fp st) = ops st"
  "validPaths (finish n sp fp st) = validPaths st"
  "finalOutputs (finish n sp fp st) = AList.update n fp (finalOutputs st)"
  "infos (finish n sp fp st) = infos st"
  "delayedException (finish n sp fp st) = delayedException st"
  by (simp_all add: finish_def Let_def)

lemma sameStore_refl [simp]: "sameStore st st"
  by (simp add: sameStore_def)

lemma sameStore_trans: "sameStore st st1 \<Longrightarrow> sameStore st1 st2 \<Longrightarrow> sameStore st st2"
  by (simp add: sameStore_def)

lemma sameStore_emit [simp]: "batchesOf os = [] \<Longrightarrow> sameStore st (emit os st)"
  by (simp add: sameStore_def)

lemma sameStore_rewriteOutput [simp]: "sameStore st (rewriteOutput ap rw st)"
  by (simp add: sameStore_def)

text \<open>\<^verbatim>\<open>newInfoFromCA\<close> registers nothing and leaves the rewrites and the delayed
  exception alone.\<close>

lemma newInfoFromCA_frame:
  "newInfoFromCA P W acc n sp ap refs m a st = (st1, r) \<Longrightarrow>
   sameStore st st1 \<and> outputRewrites st1 = outputRewrites st \<and>
   delayedException st1 = delayedException st"
  by (auto simp: newInfoFromCA_def Let_def sameStore_def split: option.splits if_splits)

lemma newInfoFromCA_info:
  "newInfoFromCA P W acc n sp ap refs m a st = (st1, Inr info) \<Longrightarrow>
   vpi_ca info = Some \<lparr>ca_method = m, ca_hash = caHashOf W ap (getFileIngestionMethod m) a (hashPart sp)\<rparr> \<and>
   vpi_references info =
     map (rewriteRef (outputRewrites st)) (filter (\<lambda>r. r \<noteq> sp) refs) @
     (if sp \<in> set refs then [vpi_path info] else [])"
  by (auto simp: newInfoFromCA_def Let_def validPathInfoFromCA_def rewriteRefs_def
      split: option.splits if_splits)

lemma computeNewInfo_frame:
  "computeNewInfo P W acc n out sp ap refs st = (st1, r) \<Longrightarrow> sameStore st st1"
proof (cases out)
  case (InputAddressed p)
  assume "computeNewInfo P W acc n out sp ap refs st = (st1, r)"
  then show ?thesis
    using InputAddressed by (auto simp: computeNewInfo_def Let_def sameStore_def)
next
  case (CAFixed ca)
  assume a: "computeNewInfo P W acc n out sp ap refs st = (st1, r)"
  obtain s2 r2 where n2: "newInfoFromCA P W acc n sp ap refs (ca_method ca) (hashAlgo (ca_hash ca))
      (emit [CopyFresh ap] st) = (s2, r2)"
    by (cases "newInfoFromCA P W acc n sp ap refs (ca_method ca) (hashAlgo (ca_hash ca)) (emit [CopyFresh ap] st)")
  from newInfoFromCA_frame [OF n2] have "sameStore st s2"
    by (simp add: sameStore_def)
  with a CAFixed n2 show ?thesis
    by (auto simp: computeNewInfo_def Let_def sameStore_def
        split: sum.splits option.splits if_splits prod.splits)
next
  case (CAFloating m a)
  assume "computeNewInfo P W acc n out sp ap refs st = (st1, r)"
  with CAFloating newInfoFromCA_frame show ?thesis by (simp add: computeNewInfo_def)
next
  case Deferred
  assume "computeNewInfo P W acc n out sp ap refs st = (st1, r)"
  with Deferred show ?thesis by (simp add: computeNewInfo_def)
next
  case (Impure m a)
  assume "computeNewInfo P W acc n out sp ap refs st = (st1, r)"
  with Impure newInfoFromCA_frame show ?thesis by (simp add: computeNewInfo_def)
qed

text \<open>The references of the new info: the scanned references other than the scratch
  path, rewritten, and the final path when the scratch path was among them.\<close>

lemma computeNewInfo_references:
  "computeNewInfo P W acc n out sp ap refs st = (st1, Inr info) \<Longrightarrow>
   vpi_references info =
     map (rewriteRef (outputRewrites st1)) (filter (\<lambda>r. r \<noteq> sp) refs) @
     (if sp \<in> set refs then [vpi_path info] else [])"
proof (cases out)
  case (InputAddressed p)
  assume "computeNewInfo P W acc n out sp ap refs st = (st1, Inr info)"
  then show ?thesis
    using InputAddressed by (auto simp: computeNewInfo_def Let_def rewriteRefs_def)
next
  case (CAFixed ca)
  assume a: "computeNewInfo P W acc n out sp ap refs st = (st1, Inr info)"
  obtain s2 r2 where n2: "newInfoFromCA P W acc n sp ap refs (ca_method ca) (hashAlgo (ca_hash ca))
      (emit [CopyFresh ap] st) = (s2, r2)"
    by (cases "newInfoFromCA P W acc n sp ap refs (ca_method ca) (hashAlgo (ca_hash ca)) (emit [CopyFresh ap] st)")
  from a CAFixed n2 have r2: "r2 = Inr info" and o: "outputRewrites st1 = outputRewrites s2"
    by (auto simp: computeNewInfo_def Let_def split: sum.splits option.splits if_splits prod.splits)
  from newInfoFromCA_frame [OF n2] have "outputRewrites s2 = outputRewrites st" by simp
  with newInfoFromCA_info [OF n2 [unfolded r2]] o show ?thesis by simp
next
  case (CAFloating m a)
  assume a: "computeNewInfo P W acc n out sp ap refs st = (st1, Inr info)"
  with CAFloating have n2: "newInfoFromCA P W acc n sp ap refs m a st = (st1, Inr info)"
    by (simp add: computeNewInfo_def)
  from newInfoFromCA_frame [OF n2] newInfoFromCA_info [OF n2] show ?thesis by simp
next
  case Deferred
  assume "computeNewInfo P W acc n out sp ap refs st = (st1, Inr info)"
  with Deferred show ?thesis by (simp add: computeNewInfo_def)
next
  case (Impure m a)
  assume a: "computeNewInfo P W acc n out sp ap refs st = (st1, Inr info)"
  with Impure have n2: "newInfoFromCA P W acc n sp ap refs m a st = (st1, Inr info)"
    by (simp add: computeNewInfo_def)
  from newInfoFromCA_frame [OF n2] newInfoFromCA_info [OF n2] show ?thesis by simp
qed

subsection \<open>The steps of the second loop\<close>

text \<open>What \<^verbatim>\<open>computeNewInfo\<close> does to the delayed exception.\<close>

lemma computeNewInfo_delayed_other:
  "computeNewInfo P W acc n out sp ap refs st = (st1, r) \<Longrightarrow> \<forall>ca. out \<noteq> CAFixed ca \<Longrightarrow>
   delayedException st1 = delayedException st"
proof (cases out)
  case (InputAddressed p)
  assume "computeNewInfo P W acc n out sp ap refs st = (st1, r)"
  then show ?thesis
    using InputAddressed by (auto simp: computeNewInfo_def Let_def)
next
  case (CAFixed ca)
  assume "\<forall>ca. out \<noteq> CAFixed ca"
  with CAFixed show ?thesis by simp
next
  case (CAFloating m a)
  assume "computeNewInfo P W acc n out sp ap refs st = (st1, r)"
  with CAFloating newInfoFromCA_frame show ?thesis by (simp add: computeNewInfo_def)
next
  case Deferred
  assume "computeNewInfo P W acc n out sp ap refs st = (st1, r)"
  with Deferred show ?thesis by (simp add: computeNewInfo_def)
next
  case (Impure m a)
  assume "computeNewInfo P W acc n out sp ap refs st = (st1, r)"
  with Impure newInfoFromCA_frame show ?thesis by (simp add: computeNewInfo_def)
qed

lemma computeNewInfo_fixed:
  assumes "computeNewInfo P W acc n (CAFixed ca) sp ap refs st = (st1, r)"
  shows
    "(\<forall>info. r = Inr info \<longrightarrow>
        vpi_ca info =
          Some \<lparr>ca_method = ca_method ca,
                ca_hash = caHashOf W ap (getFileIngestionMethod (ca_method ca))
                            (hashAlgo (ca_hash ca)) (hashPart sp)\<rparr> \<and>
        (vpi_references info = [] \<longrightarrow>
           delayedException st1 =
             (if ca_hash ca \<noteq> caHashOf W ap (getFileIngestionMethod (ca_method ca))
                                  (hashAlgo (ca_hash ca)) (hashPart sp) then
                Some (HashMismatch (printStorePath (store P) (drvPath P))
                        (hashToString P SRI True (ca_hash ca))
                        (hashToString P SRI True
                           (caHashOf W ap (getFileIngestionMethod (ca_method ca))
                              (hashAlgo (ca_hash ca)) (hashPart sp))))
              else delayedException st))) \<and>
     (\<forall>d w g. delayedException st1 = Some (HashMismatch d w g) \<longrightarrow>
        delayedException st = Some (HashMismatch d w g) \<or>
        (ca_hash ca \<noteq> caHashOf W ap (getFileIngestionMethod (ca_method ca))
                            (hashAlgo (ca_hash ca)) (hashPart sp) \<and>
         d = printStorePath (store P) (drvPath P) \<and>
         w = hashToString P SRI True (ca_hash ca) \<and>
         g = hashToString P SRI True
               (caHashOf W ap (getFileIngestionMethod (ca_method ca))
                  (hashAlgo (ca_hash ca)) (hashPart sp))))"
proof -
  obtain s2 r2 where n2: "newInfoFromCA P W acc n sp ap refs (ca_method ca) (hashAlgo (ca_hash ca))
      (emit [CopyFresh ap] st) = (s2, r2)"
    by (cases "newInfoFromCA P W acc n sp ap refs (ca_method ca) (hashAlgo (ca_hash ca)) (emit [CopyFresh ap] st)")
  from newInfoFromCA_frame [OF n2] have d2: "delayedException s2 = delayedException st" by simp
  show ?thesis
  proof (cases r2)
    case (Inl e)
    with assms n2 d2 show ?thesis by (auto simp: computeNewInfo_def Let_def)
  next
    case (Inr info0)
    from newInfoFromCA_info [OF n2 [unfolded Inr]]
    have ca0: "vpi_ca info0 =
        Some \<lparr>ca_method = ca_method ca,
              ca_hash = caHashOf W ap (getFileIngestionMethod (ca_method ca))
                          (hashAlgo (ca_hash ca)) (hashPart sp)\<rparr>"
      by simp
    from assms n2 Inr ca0 d2 show ?thesis
      by (auto simp: computeNewInfo_def Let_def split: if_splits option.splits prod.splits)
  qed
qed

text \<open>The errors thrown inside the loops are never of the delayed kind.\<close>

lemma newInfoFromCA_error:
  "newInfoFromCA P W acc n sp ap refs m a st = (st1, Inl e) \<Longrightarrow> \<not> isDelayedKind e"
  by (auto simp: newInfoFromCA_def Let_def isDelayedKind_def split: option.splits if_splits)

lemma computeNewInfo_error:
  "computeNewInfo P W acc n out sp ap refs st = (st1, Inl e) \<Longrightarrow> \<not> isDelayedKind e"
proof (cases out)
  case (CAFixed ca)
  assume a: "computeNewInfo P W acc n out sp ap refs st = (st1, Inl e)"
  obtain s2 r2 where n2: "newInfoFromCA P W acc n sp ap refs (ca_method ca) (hashAlgo (ca_hash ca))
      (emit [CopyFresh ap] st) = (s2, r2)"
    by (cases "newInfoFromCA P W acc n sp ap refs (ca_method ca) (hashAlgo (ca_hash ca)) (emit [CopyFresh ap] st)")
  show ?thesis
  proof (cases r2)
    case (Inl e2)
    with a CAFixed n2 have "e = e2" by (auto simp: computeNewInfo_def Let_def)
    with newInfoFromCA_error [OF n2 [unfolded Inl]] show ?thesis by simp
  next
    case (Inr info0)
    with a CAFixed n2 show ?thesis
      by (auto simp: computeNewInfo_def Let_def isDelayedKind_def
          split: option.splits if_splits prod.splits)
  qed
qed (auto simp: computeNewInfo_def Let_def isDelayedKind_def dest: newInfoFromCA_error)

text \<open>The path and the content address of the new info.\<close>

lemma computeNewInfo_inputAddressed:
  "computeNewInfo P W acc n (InputAddressed p) sp ap refs st = (st1, r) \<Longrightarrow>
   \<exists>info. r = Inr info \<and> vpi_path info = p \<and> vpi_ca info = None"
  by (auto simp: computeNewInfo_def Let_def)

lemma computeNewInfo_ca:
  "computeNewInfo P W acc n out sp ap refs st = (st1, Inr info) \<Longrightarrow> \<forall>p. out \<noteq> InputAddressed p \<Longrightarrow>
   vpi_ca info \<noteq> None"
proof (cases out)
  case (CAFixed ca)
  assume "computeNewInfo P W acc n out sp ap refs st = (st1, Inr info)"
  with CAFixed computeNewInfo_fixed [of P W acc n ca sp ap refs st st1 "Inr info"]
  show ?thesis by simp
qed (auto simp: computeNewInfo_def dest: newInfoFromCA_info)

text \<open>Placing an output registers nothing.\<close>

lemma placeOutput_frame:
  "placeOutput P n out info ap st = (st1, r) \<Longrightarrow>
   sameStore st st1 \<and> outputRewrites st1 = outputRewrites st \<and>
   delayedException st1 = delayedException st \<and> (\<forall>e. r = Inl e \<longrightarrow> e = AssertionFailed)"
  by (auto simp: placeOutput_def Let_def sameStore_def split: if_splits)

lemma placeOutput_inputAddressed:
  "placeOutput P n (InputAddressed p) info ap st = (st1, r) \<Longrightarrow> vpi_path info = p \<Longrightarrow>
   vpi_ca info = None \<Longrightarrow> buildMode P \<noteq> bmCheck \<Longrightarrow>
   (\<exists>ap1. r = Inr ap1) \<or> (isValidPath st p \<and> r = Inl AssertionFailed)"
  by (auto simp: placeOutput_def Let_def outputPath_def isValidPath_def split: if_splits)

lemma recordedInfo_fields [simp]:
  "vpi_path (recordedInfo P i) = vpi_path i"
  "vpi_references (recordedInfo P i) = vpi_references i"
  "vpi_ca (recordedInfo P i) = vpi_ca i"
  "vpi_narHash (recordedInfo P i) = vpi_narHash i"
  by (simp_all add: recordedInfo_def Let_def)

lemma recordOutput_fields:
  "batchesOf (ops (recordOutput P n sp info ap st)) =
     batchesOf (ops st) @ (if vpi_ca info \<noteq> None then [[(vpi_path info, recordedInfo P info)]] else [])"
  "fst ` set (validPaths (recordOutput P n sp info ap st)) =
     fst ` set (validPaths st) \<union> (if vpi_ca info \<noteq> None then {vpi_path info} else {})"
  "vpi_ca info = None \<Longrightarrow> validPaths (recordOutput P n sp info ap st) = validPaths st"
  "infos (recordOutput P n sp info ap st) = emplace n (recordedInfo P info) (infos st)"
  "delayedException (recordOutput P n sp info ap st) = delayedException st"
  "finalOutputs (recordOutput P n sp info ap st) = AList.update n (vpi_path info) (finalOutputs st)"
  by (simp_all add: recordOutput_def Let_def recordedInfo_def)

lemma checkOutput_frame:
  "checkOutput P b info ap st = (st1, r) \<Longrightarrow>
   infos st1 = infos st \<and> delayedException st1 = delayedException st \<and>
   finalOutputs st1 = finalOutputs st \<and> outputRewrites st1 = outputRewrites st \<and>
   (\<forall>e. r = Inl e \<longrightarrow> \<not> isDelayedKind e)"
  by (auto simp: checkOutput_def Let_def isDelayedKind_def split: option.splits if_splits)

subsection \<open>The accumulator of the first loop\<close>

lemma scanInv_empty:
  "scanInv P W b \<lparr>outputsToSort = [], outputReferencesIfUnregistered = [], outputStats = []\<rparr>"
  by (simp add: scanInv_def)

lemma entryOK_stats:
  "entryOK P W b stats n r \<Longrightarrow> entryOK P W b (AList.update m stt stats) n r"
  by (auto simp: entryOK_def update_conv' split: OutputRefs.splits)

lemma scanOutput_inv:
  assumes inv: "scanInv P W b acc" and res: "scanOutput P W b n acc st = (st1, Inr acc1)"
  shows "scanInv P W b acc1 \<and> set (outputsToSort acc1) = insert n (set (outputsToSort acc))"
proof -
  from res obtain sp info where sc: "map_of (scratchOutputs b) n = Some sp"
    and ini: "map_of (initialOutputs P) n = Some info"
    by (auto simp: scan_defs split: option.splits if_splits)
  define ap where "ap = toRealPathChroot P b (printStorePath (store P) sp)"
  from inv have mem: "\<And>m. (m \<in> set (outputsToSort acc)) = (map_of (outputReferencesIfUnregistered acc) m \<noteq> None)"
    and ent: "\<And>m r. map_of (outputReferencesIfUnregistered acc) m = Some r \<Longrightarrow>
        entryOK P W b (outputStats acc) m r"
    unfolding scanInv_def by blast+
  obtain r stats1 where
    acc1: "acc1 = acc\<lparr>outputsToSort := set_insert n (outputsToSort acc),
          outputReferencesIfUnregistered := AList.update n r (outputReferencesIfUnregistered acc),
          outputStats := stats1\<rparr>"
    and ok: "entryOK P W b stats1 n r"
    and st: "stats1 = outputStats acc \<or> (\<exists>stt. stats1 = AList.update n stt (outputStats acc))"
  proof (cases "wantedOutput P info")
    case False
    with res sc ini obtain k where k: "io_known info = Some k"
      and a: "acc1 = acc\<lparr>outputsToSort := set_insert n (outputsToSort acc),
          outputReferencesIfUnregistered :=
            AList.update n (AlreadyRegistered (ios_path k)) (outputReferencesIfUnregistered acc)\<rparr>"
      by (auto simp: scan_defs split: option.splits)
    have "entryOK P W b (outputStats acc) n (AlreadyRegistered (ios_path k))"
      using sc ini False k by (simp add: entryOK_def)
    with a that [where r = "AlreadyRegistered (ios_path k)" and ?stats1.0 = "outputStats acc"]
    show ?thesis by simp
  next
    case True
    with res sc ini obtain stt where
      a: "acc1 = acc\<lparr>outputsToSort := set_insert n (outputsToSort acc),
          outputReferencesIfUnregistered :=
            AList.update n (PerhapsNeedToRegister (outputReferences P W b n ap))
              (outputReferencesIfUnregistered acc),
          outputStats := AList.update n stt (outputStats acc)\<rparr>"
      by (auto simp: scan_defs ap_def split: option.splits if_splits)
    have "entryOK P W b (AList.update n stt (outputStats acc)) n
        (PerhapsNeedToRegister (outputReferences P W b n ap))"
      using sc ini True by (simp add: entryOK_def ap_def update_conv')
    with a that [where r = "PerhapsNeedToRegister (outputReferences P W b n ap)"
        and ?stats1.0 = "AList.update n stt (outputStats acc)"] show ?thesis by blast
  qed
  have e1: "entryOK P W b stats1 m r'"
    if "map_of (outputReferencesIfUnregistered acc1) m = Some r'" for m r'
  proof (cases "m = n")
    case True
    with that have "r' = r" by (simp add: acc1 update_conv')
    with ok True show ?thesis by simp
  next
    case False
    with that have "map_of (outputReferencesIfUnregistered acc) m = Some r'"
      by (simp add: acc1 update_conv')
    from ent [OF this] st show ?thesis by (auto intro: entryOK_stats)
  qed
  have m1: "(m \<in> set (outputsToSort acc1)) = (map_of (outputReferencesIfUnregistered acc1) m \<noteq> None)" for m
    using mem [of m] by (auto simp: acc1 update_conv' set_insert_def)
  have o1: "set (outputsToSort acc1) = insert n (set (outputsToSort acc))"
    by (auto simp: acc1 set_insert_def)
  have s1: "outputStats acc1 = stats1" by (simp add: acc1)
  show ?thesis
    unfolding scanInv_def s1 using e1 m1 o1 by blast
qed

lemma scanOutputs_inv:
  "scanInv P W b acc \<Longrightarrow> scanOutputs P W b names acc st = (st1, Inr acc1) \<Longrightarrow>
   scanInv P W b acc1 \<and> set (outputsToSort acc1) = set names \<union> set (outputsToSort acc)"
proof (induction names arbitrary: acc st)
  case Nil
  then show ?case by simp
next
  case (Cons n names)
  obtain s2 r2 where s: "scanOutput P W b n acc st = (s2, r2)" by (cases "scanOutput P W b n acc st")
  with Cons.prems(2) obtain acc2 where r2: "r2 = Inr acc2"
    and rest: "scanOutputs P W b names acc2 s2 = (st1, Inr acc1)"
    by (cases r2) auto
  from scanOutput_inv [OF Cons.prems(1) s [unfolded r2]]
  have i2: "scanInv P W b acc2" and o2: "set (outputsToSort acc2) = insert n (set (outputsToSort acc))"
    by simp_all
  from Cons.IH [OF i2 rest] o2 show ?case by auto
qed

text \<open>The first loop registers nothing.\<close>

lemma scanOutput_frame:
  "scanOutput P W b n acc st = (st1, r) \<Longrightarrow>
   sameStore st st1 \<and> outputRewrites st1 = outputRewrites st \<and>
   delayedException st1 = delayedException st \<and> (\<forall>e. r = Inl e \<longrightarrow> \<not> isDelayedKind e)"
  by (auto simp: scan_defs sameStore_def isDelayedKind_def split: option.splits if_splits)

lemma scanOutputs_frame:
  "scanOutputs P W b names acc st = (st1, r) \<Longrightarrow>
   sameStore st st1 \<and> outputRewrites st1 = outputRewrites st \<and>
   delayedException st1 = delayedException st \<and> (\<forall>e. r = Inl e \<longrightarrow> \<not> isDelayedKind e)"
proof (induction names arbitrary: acc st)
  case Nil
  then show ?case by auto
next
  case (Cons n names)
  obtain s2 r2 where s: "scanOutput P W b n acc st = (s2, r2)" by (cases "scanOutput P W b n acc st")
  note f = scanOutput_frame [OF s]
  show ?case
  proof (cases r2)
    case (Inl e)
    with Cons.prems s f show ?thesis by auto
  next
    case (Inr acc2)
    with Cons.prems s have "scanOutputs P W b names acc2 s2 = (st1, r)" by simp
    from Cons.IH [OF this] f show ?thesis by (auto intro: sameStore_trans)
  qed
qed

subsection \<open>The graph of the outputs\<close>

lemma edges_referenced:
  "((A, B) \<in> edges (outputsToSort acc) (referencedOutputs P b acc)) =
   (refersTo P b acc A B \<and> B \<noteq> A \<and> B \<in> set (outputsToSort acc))"
proof (cases "map_of (outputReferencesIfUnregistered acc) A")
  case None
  then show ?thesis by (simp add: edges_def referencedOutputs_def refersTo_def)
next
  case (Some r)
  show ?thesis
  proof (cases r)
    case (AlreadyRegistered p)
    with Some show ?thesis by (simp add: edges_def referencedOutputs_def refersTo_def)
  next
    case (PerhapsNeedToRegister refs)
    have "(B \<in> fst ` {x \<in> set (scratchOutputs b). snd x \<in> set refs}) =
          (\<exists>p. (B, p) \<in> set (scratchOutputs b) \<and> p \<in> set refs)"
      by force
    with Some PerhapsNeedToRegister show ?thesis
      by (auto simp: edges_def referencedOutputs_def refersTo_def)
  qed
qed

lemma edges_outputGraph:
  "set (outputsToSort acc) = fst ` set (drvOutputs P) \<Longrightarrow>
   edges (outputsToSort acc) (referencedOutputs P b acc) \<inter> (set (outputsToSort acc) \<times> UNIV) =
   outputGraph P b acc"
  using edges_referenced [of _ _ acc P b] unfolding outputGraph_def by auto

lemma trancl_restrict_start:
  "(x, y) \<in> (E \<inter> (D \<times> UNIV))\<^sup>* \<Longrightarrow> (x, y) \<in> E\<^sup>*"
  by (rule rtrancl_mono [THEN subsetD]) auto

lemma rtrancl_closed_domain:
  assumes "(x, y) \<in> E\<^sup>*" and "x \<in> D" and "\<And>a c. (a, c) \<in> E \<Longrightarrow> c \<in> D"
  shows "(x, y) \<in> (E \<inter> (D \<times> UNIV))\<^sup>*"
  using assms(1)
proof (induction rule: rtrancl_induct)
  case base
  show ?case by simp
next
  case (step y z)
  have "y \<in> D"
  proof (cases "x = y")
    case True
    with assms(2) show ?thesis by simp
  next
    case False
    with step.hyps(1) obtain w where "(w, y) \<in> E"
      by (meson rtranclE)
    then show ?thesis by (rule assms(3))
  qed
  with step.hyps(2) have "(y, z) \<in> E \<inter> (D \<times> UNIV)" by simp
  with step.IH show ?case by (rule rtrancl_into_rtrancl)
qed

subsection \<open>The second loop as a whole\<close>

lemma finalizeOutputs_invariant:
  assumes "finalizeOutputs P W b acc names st = (st', r)"
    and "I st"
    and "\<And>n s s1 r1. n \<in> set names \<Longrightarrow> I s \<Longrightarrow> finalizeOutput P W b acc n s = (s1, r1) \<Longrightarrow> I s1"
  shows "I st'"
  using assms
proof (induction names arbitrary: st)
  case Nil
  then show ?case by simp
next
  case (Cons n rest)
  obtain s1 r1 where f: "finalizeOutput P W b acc n st = (s1, r1)"
    by (cases "finalizeOutput P W b acc n st")
  have i1: "I s1" using Cons.prems(3) [OF _ Cons.prems(2) f] by simp
  show ?case
  proof (cases r1)
    case (Inl e)
    with Cons.prems(1) f have "st' = s1" by simp
    with i1 show ?thesis by simp
  next
    case (Inr u)
    with Cons.prems(1) f have rest: "finalizeOutputs P W b acc rest s1 = (st', r)" by simp
    show ?thesis
    proof (rule Cons.IH [OF rest i1])
      fix m s s2 r2
      assume "m \<in> set rest" "I s" "finalizeOutput P W b acc m s = (s2, r2)"
      with Cons.prems(3) [of m s s2 r2] show "I s2" by simp
    qed
  qed
qed

lemma finalizeOutputs_success_invariant:
  assumes "finalizeOutputs P W b acc names st = (st', Inr u)"
    and "I ds st"
    and "\<And>pre n s s1. n \<in> set names \<Longrightarrow> I pre s \<Longrightarrow>
           finalizeOutput P W b acc n s = (s1, Inr ()) \<Longrightarrow> I (pre @ [n]) s1"
  shows "I (ds @ names) st'"
  using assms
proof (induction names arbitrary: st ds)
  case Nil
  then show ?case by simp
next
  case (Cons n rest)
  obtain s1 r1 where f: "finalizeOutput P W b acc n st = (s1, r1)"
    by (cases "finalizeOutput P W b acc n st")
  with Cons.prems(1) have r1: "r1 = Inr ()"
    and rest: "finalizeOutputs P W b acc rest s1 = (st', Inr u)"
    by (auto split: sum.splits)
  have i1: "I (ds @ [n]) s1" using Cons.prems(3) [OF _ Cons.prems(2) f [unfolded r1]] by simp
  have "I ((ds @ [n]) @ rest) st'"
  proof (rule Cons.IH [OF rest i1])
    fix pre m s s2
    assume "m \<in> set rest" "I pre s" "finalizeOutput P W b acc m s = (s2, Inr ())"
    with Cons.prems(3) [of m pre s s2] show "I (pre @ [m]) s2" by simp
  qed
  then show ?case by simp
qed

lemma finalizeOutputs_error_step:
  "finalizeOutputs P W b acc names st = (st', Inl e) \<Longrightarrow>
   \<exists>n \<in> set names. \<exists>s. finalizeOutput P W b acc n s = (st', Inl e)"
proof (induction names arbitrary: st)
  case Nil
  then show ?case by simp
next
  case (Cons n rest)
  obtain s1 r1 where f: "finalizeOutput P W b acc n st = (s1, r1)"
    by (cases "finalizeOutput P W b acc n st")
  show ?case
  proof (cases r1)
    case (Inl e1)
    with Cons.prems f have "finalizeOutput P W b acc n st = (st', Inl e)" by simp
    then show ?thesis by auto
  next
    case (Inr u)
    with Cons.prems f have "finalizeOutputs P W b acc rest s1 = (st', Inl e)" by simp
    from Cons.IH [OF this] show ?thesis by auto
  qed
qed

lemma references_empty_iff:
  "(map f (filter (\<lambda>r. r \<noteq> sp) refs) @ (if sp \<in> set refs then [p] else []) = []) = (refs = [])"
  by (cases refs) (auto simp: filter_empty_conv)

lemma finalizeOutput_cases:
  assumes f: "finalizeOutput P W b acc n s = (s1, r)"
  obtains
    (assert) "s1 = s" "r = Inl AssertionFailed"
  | (skipped) out sp p where
      "map_of (drvOutputs P) n = Some out" "map_of (scratchOutputs b) n = Some sp"
      "map_of (outputReferencesIfUnregistered acc) n = Some (AlreadyRegistered p)"
      "s1 = finish n sp p s" "r = Inr ()"
  | (newInfoErr) out sp refs e where
      "map_of (drvOutputs P) n = Some out" "map_of (scratchOutputs b) n = Some sp"
      "map_of (outputReferencesIfUnregistered acc) n = Some (PerhapsNeedToRegister refs)"
      "computeNewInfo P W acc n out sp (actualPathOf P b sp) refs s = (s1, Inl e)" "r = Inl e"
  | (placeErr) out sp refs s' info e where
      "map_of (drvOutputs P) n = Some out" "map_of (scratchOutputs b) n = Some sp"
      "map_of (outputReferencesIfUnregistered acc) n = Some (PerhapsNeedToRegister refs)"
      "computeNewInfo P W acc n out sp (actualPathOf P b sp) refs s = (s', Inr info)"
      "placeOutput P n out info (actualPathOf P b sp)
         (emit [Canonicalise (actualPathOf P b sp) None] s') = (s1, Inl e)" "r = Inl e"
  | (checked) out sp refs s' info s3 ap1 where
      "map_of (drvOutputs P) n = Some out" "map_of (scratchOutputs b) n = Some sp"
      "map_of (outputReferencesIfUnregistered acc) n = Some (PerhapsNeedToRegister refs)"
      "computeNewInfo P W acc n out sp (actualPathOf P b sp) refs s = (s', Inr info)"
      "placeOutput P n out info (actualPathOf P b sp)
         (emit [Canonicalise (actualPathOf P b sp) None] s') = (s3, Inr ap1)"
      "buildMode P = bmCheck" "checkOutput P b info ap1 s3 = (s1, r)"
  | (recorded) out sp refs s' info s3 ap1 where
      "map_of (drvOutputs P) n = Some out" "map_of (scratchOutputs b) n = Some sp"
      "map_of (outputReferencesIfUnregistered acc) n = Some (PerhapsNeedToRegister refs)"
      "computeNewInfo P W acc n out sp (actualPathOf P b sp) refs s = (s', Inr info)"
      "placeOutput P n out info (actualPathOf P b sp)
         (emit [Canonicalise (actualPathOf P b sp) None] s') = (s3, Inr ap1)"
      "buildMode P \<noteq> bmCheck" "s1 = recordOutput P n sp info ap1 s3" "r = Inr ()"
proof (cases "map_of (drvOutputs P) n")
  case None
  with f assert show ?thesis by (simp add: finalizeOutput_def)
next
  case out: (Some out)
  show ?thesis
  proof (cases "map_of (scratchOutputs b) n")
    case None
    with f out assert show ?thesis by (simp add: finalizeOutput_def)
  next
    case sp: (Some sp)
    show ?thesis
    proof (cases "map_of (outputReferencesIfUnregistered acc) n")
      case None
      with f out sp assert show ?thesis by (simp add: finalizeOutput_def)
    next
      case (Some x)
      show ?thesis
      proof (cases x)
        case (AlreadyRegistered p)
        with f out sp Some skipped show ?thesis by (simp add: finalizeOutput_def)
      next
        case (PerhapsNeedToRegister refs)
        note o = Some [unfolded PerhapsNeedToRegister]
        obtain s' rc where c: "computeNewInfo P W acc n out sp (actualPathOf P b sp) refs s = (s', rc)"
          by (cases "computeNewInfo P W acc n out sp (actualPathOf P b sp) refs s")
        show ?thesis
        proof (cases rc)
          case (Inl e)
          with f out sp o c have "s1 = s'" "r = Inl e"
            by (simp_all add: finalizeOutput_def actualPathOf_def)
          with newInfoErr [OF out sp o] c Inl show ?thesis by simp
        next
          case (Inr info)
          note c = c [unfolded Inr]
          obtain s3 rp where p: "placeOutput P n out info (actualPathOf P b sp)
              (emit [Canonicalise (actualPathOf P b sp) None] s') = (s3, rp)"
            by (cases "placeOutput P n out info (actualPathOf P b sp)
              (emit [Canonicalise (actualPathOf P b sp) None] s')")
          show ?thesis
          proof (cases rp)
            case (Inl e)
            with f out sp o c p have "s1 = s3" "r = Inl e"
              by (simp_all add: finalizeOutput_def actualPathOf_def)
            with placeErr [OF out sp o c] p Inl show ?thesis by simp
          next
            case (Inr ap1)
            note p = p [unfolded Inr]
            show ?thesis
            proof (cases "buildMode P = bmCheck")
              case True
              with f out sp o c p have "checkOutput P b info ap1 s3 = (s1, r)"
                by (simp add: finalizeOutput_def actualPathOf_def)
              with checked [OF out sp o c p True] show ?thesis by simp
            next
              case False
              with f out sp o c p have "s1 = recordOutput P n sp info ap1 s3" "r = Inr ()"
                by (simp_all add: finalizeOutput_def actualPathOf_def)
              with recorded [OF out sp o c p False] show ?thesis by simp
            qed
          qed
        qed
      qed
    qed
  qed
qed

lemma checkOutput_error_same:
  "checkOutput P b info ap st = (st1, Inl e) \<Longrightarrow> sameStore st st1"
  by (auto simp: checkOutput_def Let_def sameStore_def split: option.splits if_splits)

text \<open>From the new info to the placed output nothing is registered.\<close>

lemma placed_frame:
  assumes c: "computeNewInfo P W acc n out sp ap refs s = (s', rc)"
    and p: "placeOutput P n out info ap (emit [Canonicalise ap None] s') = (s3, rp)"
  shows "sameStore s s3 \<and> delayedException s3 = delayedException s' \<and>
         outputRewrites s3 = outputRewrites s' \<and> (\<forall>e. rp = Inl e \<longrightarrow> e = AssertionFailed)"
  using computeNewInfo_frame [OF c] placeOutput_frame [OF p]
  by (auto simp: sameStore_def)

lemma computeNewInfo_fixed_info:
  assumes c: "computeNewInfo P W acc n (CAFixed ca) sp (actualPathOf P b sp) refs s = (s', Inr info)"
  shows "vpi_ca info = Some \<lparr>ca_method = ca_method ca, ca_hash = gotHash P W b ca sp\<rparr> \<and>
         (refs = [] \<longrightarrow>
            delayedException s' =
              (if ca_hash ca \<noteq> gotHash P W b ca sp then Some (mismatchOf P W b ca sp)
               else delayedException s))"
proof -
  from computeNewInfo_references [OF c] have "(vpi_references info = []) = (refs = [])"
    by (simp only: references_empty_iff)
  with computeNewInfo_fixed [OF c] show ?thesis
    by (simp add: gotHash_def mismatchOf_def)
qed

lemma computeNewInfo_delayed:
  assumes c: "computeNewInfo P W acc n out sp (actualPathOf P b sp) refs s = (s', rc)"
  shows "delayedException s' = delayedException s \<or>
     (\<exists>ca. out = CAFixed ca \<and>
        (\<forall>d w g. delayedException s' = Some (HashMismatch d w g) \<longrightarrow>
           delayedException s = Some (HashMismatch d w g) \<or>
           (ca_hash ca \<noteq> gotHash P W b ca sp \<and>
            HashMismatch d w g = mismatchOf P W b ca sp)))"
proof (cases "\<exists>ca. out = CAFixed ca")
  case False
  with computeNewInfo_delayed_other [OF c] show ?thesis by simp
next
  case True
  then obtain ca where o: "out = CAFixed ca" by blast
  from computeNewInfo_fixed [OF c [unfolded o]] o show ?thesis
    by (simp add: gotHash_def mismatchOf_def)
qed

lemma finalizeOutput_error:
  assumes "finalizeOutput P W b acc n s = (s1, Inl e)"
  shows "\<not> isDelayedKind e \<and> sameStore s s1"
  using assms
proof (cases rule: finalizeOutput_cases)
  case assert
  then show ?thesis by (simp add: isDelayedKind_def)
next
  case (newInfoErr out sp refs e1)
  with computeNewInfo_error [OF newInfoErr(4)] computeNewInfo_frame [OF newInfoErr(4)]
  show ?thesis by simp
next
  case (placeErr out sp refs s' info e1)
  from placed_frame [OF placeErr(4,5)] placeErr(6) show ?thesis by (simp add: isDelayedKind_def)
next
  case (checked out sp refs s' info s3 ap1)
  from placed_frame [OF checked(4,5)] checkOutput_error_same [OF checked(7)]
  have "sameStore s s1" by (blast intro: sameStore_trans)
  with checkOutput_frame [OF checked(7)] show ?thesis by simp
qed simp_all

lemma finalizeOutputs_error:
  "finalizeOutputs P W b acc names st = (st', Inl e) \<Longrightarrow> \<not> isDelayedKind e"
  using finalizeOutputs_error_step finalizeOutput_error by blast

text \<open>What a step of the second loop does to the delayed exception.\<close>

lemma finalizeOutput_delayed:
  assumes "finalizeOutput P W b acc n s = (s1, r)"
  shows "delayedException s1 = delayedException s \<or>
     (\<exists>ca sp refs. map_of (drvOutputs P) n = Some (CAFixed ca) \<and>
        map_of (scratchOutputs b) n = Some sp \<and>
        map_of (outputReferencesIfUnregistered acc) n = Some (PerhapsNeedToRegister refs) \<and>
        (\<forall>d w g. delayedException s1 = Some (HashMismatch d w g) \<longrightarrow>
           delayedException s = Some (HashMismatch d w g) \<or>
           (ca_hash ca \<noteq> gotHash P W b ca sp \<and>
            HashMismatch d w g = mismatchOf P W b ca sp)))"
  using assms
proof (cases rule: finalizeOutput_cases)
  case assert
  then show ?thesis by simp
next
  case (skipped out sp p)
  then show ?thesis by simp
next
  case (newInfoErr out sp refs e1)
  with computeNewInfo_delayed [OF newInfoErr(4)] show ?thesis by auto
next
  case (placeErr out sp refs s' info e1)
  from placed_frame [OF placeErr(4,5)] have "delayedException s1 = delayedException s'" by simp
  with placeErr(1,2,3) computeNewInfo_delayed [OF placeErr(4)] show ?thesis by auto
next
  case (checked out sp refs s' info s3 ap1)
  from placed_frame [OF checked(4,5)] checkOutput_frame [OF checked(7)]
  have "delayedException s1 = delayedException s'" by simp
  with checked(1,2,3) computeNewInfo_delayed [OF checked(4)] show ?thesis by auto
next
  case (recorded out sp refs s' info s3 ap1)
  from placed_frame [OF recorded(4,5)] recorded(7)
  have "delayedException s1 = delayedException s'" by (simp add: recordOutput_fields)
  with recorded(1,2,3) computeNewInfo_delayed [OF recorded(4)] show ?thesis by auto
qed

text \<open>A fixed output without references that has been finalised has noted its hash
  mismatch, if it has one, in the delayed exception.\<close>

lemma finalizeOutput_delayed_fixed:
  assumes f: "finalizeOutput P W b acc n s = (s1, Inr u)"
    and out: "map_of (drvOutputs P) n = Some (CAFixed ca)"
    and sp: "map_of (scratchOutputs b) n = Some sp"
    and o: "map_of (outputReferencesIfUnregistered acc) n = Some (PerhapsNeedToRegister [])"
  shows "delayedException s1 =
     (if ca_hash ca \<noteq> gotHash P W b ca sp then Some (mismatchOf P W b ca sp)
      else delayedException s)"
  using f
proof (cases rule: finalizeOutput_cases)
  case (skipped out sp p)
  with o show ?thesis by simp
next
  case (checked out1 sp1 refs1 s' info s3 ap1)
  with out sp o have e: "out1 = CAFixed ca" "sp1 = sp" "refs1 = []" by simp_all
  from computeNewInfo_fixed_info [OF checked(4) [unfolded e]]
    placed_frame [OF checked(4,5)] checkOutput_frame [OF checked(7)]
  show ?thesis by simp
next
  case (recorded out1 sp1 refs1 s' info s3 ap1)
  with out sp o have e: "out1 = CAFixed ca" "sp1 = sp" "refs1 = []" by simp_all
  from computeNewInfo_fixed_info [OF recorded(4) [unfolded e]]
    placed_frame [OF recorded(4,5)] recorded(7)
  show ?thesis by (simp add: recordOutput_fields)
qed simp_all

lemma finalizeOutputs_prefix_invariant:
  assumes run: "finalizeOutputs P W b acc names st = (st', Inr u)"
    and base: "I [] st"
    and step: "\<And>pre n post s s1. names = pre @ n # post \<Longrightarrow> I pre s \<Longrightarrow>
           finalizeOutput P W b acc n s = (s1, Inr ()) \<Longrightarrow> I (pre @ [n]) s1"
  shows "I names st'"
proof -
  have "finalizeOutputs P W b acc rest s = (st', Inr u) \<Longrightarrow> I ds s \<Longrightarrow> names = ds @ rest \<Longrightarrow>
        I names st'" for rest ds s
  proof (induction rest arbitrary: ds s)
    case Nil
    then show ?case by simp
  next
    case (Cons n rest)
    obtain s1 r1 where f: "finalizeOutput P W b acc n s = (s1, r1)"
      by (cases "finalizeOutput P W b acc n s")
    with Cons.prems(1) have r1: "r1 = Inr ()"
      and rest: "finalizeOutputs P W b acc rest s1 = (st', Inr u)"
      by (auto split: sum.splits)
    from step [OF Cons.prems(3) Cons.prems(2) f [unfolded r1]] have i1: "I (ds @ [n]) s1" .
    from Cons.IH [OF rest i1] Cons.prems(3) show ?case by simp
  qed
  from this [OF run base] show ?thesis by simp
qed

text \<open>The ways in which \<^verbatim>\<open>registerOutputs\<close> ends.\<close>

lemma registerOutputs_cases:
  assumes r: "registerOutputs P W b st0 = (st', r)"
  obtains
    (scanErr) e where
      "scanOutputs P W b (map fst (drvOutputs P))
         \<lparr>outputsToSort = [], outputReferencesIfUnregistered = [], outputStats = []\<rparr>
         (st0\<lparr>finalOutputs := [], infos := [], delayedException := None\<rparr>) = (st', Inl e)"
      "r = Inl e"
  | (sortErr) acc e where
      "scanOutputs P W b (map fst (drvOutputs P))
         \<lparr>outputsToSort = [], outputReferencesIfUnregistered = [], outputStats = []\<rparr>
         (st0\<lparr>finalOutputs := [], infos := [], delayedException := None\<rparr>) = (st', Inr acc)"
      "sortedOutputNames P b acc = Inl e" "r = Inl e"
  | (loopErr) st1 acc names e where
      "scanOutputs P W b (map fst (drvOutputs P))
         \<lparr>outputsToSort = [], outputReferencesIfUnregistered = [], outputStats = []\<rparr>
         (st0\<lparr>finalOutputs := [], infos := [], delayedException := None\<rparr>) = (st1, Inr acc)"
      "sortedOutputNames P b acc = Inr names"
      "finalizeOutputs P W b acc names st1 = (st', Inl e)" "r = Inl e"
  | (checkMode) st1 acc names where
      "scanOutputs P W b (map fst (drvOutputs P))
         \<lparr>outputsToSort = [], outputReferencesIfUnregistered = [], outputStats = []\<rparr>
         (st0\<lparr>finalOutputs := [], infos := [], delayedException := None\<rparr>) = (st1, Inr acc)"
      "sortedOutputNames P b acc = Inr names"
      "finalizeOutputs P W b acc names st1 = (st', Inr ())" "buildMode P = bmCheck"
      "r = (case delayedException st' of Some e \<Rightarrow> Inl e | None \<Rightarrow> Inr (assertPathValidity P))"
  | (checksFailed) st1 acc names msg where
      "scanOutputs P W b (map fst (drvOutputs P))
         \<lparr>outputsToSort = [], outputReferencesIfUnregistered = [], outputStats = []\<rparr>
         (st0\<lparr>finalOutputs := [], infos := [], delayedException := None\<rparr>) = (st1, Inr acc)"
      "sortedOutputNames P b acc = Inr names"
      "finalizeOutputs P W b acc names st1 = (st', Inr ())" "buildMode P \<noteq> bmCheck"
      "checkOutputs P (infos st') = Some msg" "r = Inl (OutputCheckFailed msg)"
  | (delayed) st1 acc names st2 e where
      "scanOutputs P W b (map fst (drvOutputs P))
         \<lparr>outputsToSort = [], outputReferencesIfUnregistered = [], outputStats = []\<rparr>
         (st0\<lparr>finalOutputs := [], infos := [], delayedException := None\<rparr>) = (st1, Inr acc)"
      "sortedOutputNames P b acc = Inr names"
      "finalizeOutputs P W b acc names st1 = (st2, Inr ())" "buildMode P \<noteq> bmCheck"
      "checkOutputs P (infos st2) = None" "st' = registerValidPaths (infos2Of (infos st2)) st2"
      "delayedException st2 = Some e" "r = Inl e"
  | (committed) st1 acc names st2 where
      "scanOutputs P W b (map fst (drvOutputs P))
         \<lparr>outputsToSort = [], outputReferencesIfUnregistered = [], outputStats = []\<rparr>
         (st0\<lparr>finalOutputs := [], infos := [], delayedException := None\<rparr>) = (st1, Inr acc)"
      "sortedOutputNames P b acc = Inr names"
      "finalizeOutputs P W b acc names st1 = (st2, Inr ())" "buildMode P \<noteq> bmCheck"
      "checkOutputs P (infos st2) = None" "delayedException st2 = None"
      "builtOutputsOf P (infos st2) [] (registerValidPaths (infos2Of (infos st2)) st2) = (st', r)"
proof -
  define st where "st = st0\<lparr>finalOutputs := [], infos := [], delayedException := None\<rparr>"
  obtain st1 rs where sc: "scanOutputs P W b (map fst (drvOutputs P))
         \<lparr>outputsToSort = [], outputReferencesIfUnregistered = [], outputStats = []\<rparr> st = (st1, rs)"
    by (cases "scanOutputs P W b (map fst (drvOutputs P))
         \<lparr>outputsToSort = [], outputReferencesIfUnregistered = [], outputStats = []\<rparr> st")
  show ?thesis
  proof (cases rs)
    case (Inl e)
    with r sc have "st' = st1" "r = Inl e" by (simp_all add: registerOutputs_def st_def)
    with scanErr sc Inl show ?thesis by (simp add: st_def)
  next
    case (Inr acc)
    note sc = sc [unfolded Inr st_def]
    show ?thesis
    proof (cases "sortedOutputNames P b acc")
      case (Inl e)
      with r sc have "st' = st1" "r = Inl e" by (simp_all add: registerOutputs_def)
      with sortErr sc Inl show ?thesis by simp
    next
      case names: (Inr names)
      obtain st2 rf where fin: "finalizeOutputs P W b acc names st1 = (st2, rf)"
        by (cases "finalizeOutputs P W b acc names st1")
      show ?thesis
      proof (cases rf)
        case (Inl e)
        with r sc names fin have "st' = st2" "r = Inl e" by (simp_all add: registerOutputs_def)
        with loopErr [OF sc names] fin Inl show ?thesis by simp
      next
        case (Inr u)
        note fin = fin [unfolded Inr]
        have fin: "finalizeOutputs P W b acc names st1 = (st2, Inr ())" using fin by simp
        show ?thesis
        proof (cases "buildMode P = bmCheck")
          case True
          with r sc names fin have "st' = st2"
            "r = (case delayedException st2 of Some e \<Rightarrow> Inl e | None \<Rightarrow> Inr (assertPathValidity P))"
            by (auto simp: registerOutputs_def split: option.splits)
          with checkMode [OF sc names _ True] fin show ?thesis by simp
        next
          case False
          show ?thesis
          proof (cases "checkOutputs P (infos st2)")
            case (Some msg)
            with r sc names fin False have "st' = st2" "r = Inl (OutputCheckFailed msg)"
              by (simp_all add: registerOutputs_def)
            with checksFailed [OF sc names _ False] fin Some show ?thesis by simp
          next
            case None
            show ?thesis
            proof (cases "delayedException st2")
              case (Some e)
              with r sc names fin False None
              have "st' = registerValidPaths (infos2Of (infos st2)) st2" "r = Inl e"
                by (simp_all add: registerOutputs_def Let_def)
              with delayed [OF sc names fin False None _ Some] show ?thesis by simp
            next
              case dn: None
              with r sc names fin False None
              have "builtOutputsOf P (infos st2) [] (registerValidPaths (infos2Of (infos st2)) st2) = (st', r)"
                by (simp add: registerOutputs_def Let_def)
              with committed [OF sc names fin False None dn] show ?thesis by simp
            qed
          qed
        qed
      qed
    qed
  qed
qed

lemma sortedOutputNames_error:
  "sortedOutputNames P b acc = Inl e \<Longrightarrow> \<not> isDelayedKind e"
proof -
  assume "sortedOutputNames P b acc = Inl e"
  then have "topoSort (outputsToSort acc) (referencedOutputs P b acc)
      (\<lambda>path parent. CycleDetected (printStorePath (store P) (drvPath P)) path parent) = Inl e"
    by (auto simp: sortedOutputNames_def split: sum.splits)
  from topoSort_error [OF this] consider
      (gc) x where "referencedOutputs P b acc x = Inl e"
    | (cyc) path parent where "e = CycleDetected (printStorePath (store P) (drvPath P)) path parent"
    unfolding cycleError_def by blast
  then show ?thesis
  proof cases
    case gc
    then have "e = NoOutputReference x (printStorePath (store P) (drvPath P))"
      by (cases "map_of (outputReferencesIfUnregistered acc) x")
         (auto simp: referencedOutputs_def split: OutputRefs.splits)
    then show ?thesis by (simp add: isDelayedKind_def)
  next
    case cyc
    then show ?thesis by (simp add: isDelayedKind_def)
  qed
qed

lemma sortedOutputNames_success:
  "sortedOutputNames P b acc = Inr names \<Longrightarrow> distinct names \<and> set names = set (outputsToSort acc)"
proof -
  assume "sortedOutputNames P b acc = Inr names"
  then obtain order where
    t: "topoSort (outputsToSort acc) (referencedOutputs P b acc)
      (\<lambda>path parent. CycleDetected (printStorePath (store P) (drvPath P)) path parent) = Inr order"
    and n: "names = rev order"
    by (auto simp: sortedOutputNames_def split: sum.splits)
  from topoSort_success [OF t] show ?thesis by (simp add: n)
qed

text \<open>What holds when the second loop starts.\<close>

lemma registerOutputs_prepared:
  assumes scan: "scanOutputs P W b (map fst (drvOutputs P))
         \<lparr>outputsToSort = [], outputReferencesIfUnregistered = [], outputStats = []\<rparr>
         (st0\<lparr>finalOutputs := [], infos := [], delayedException := None\<rparr>) = (st1, Inr acc)"
    and sort: "sortedOutputNames P b acc = Inr names"
  shows "scanInv P W b acc" "distinct names" "set names = fst ` set (drvOutputs P)"
    "batchesOf (ops st1) = batchesOf (ops st0)" "validPaths st1 = validPaths st0"
    "finalOutputs st1 = []" "infos st1 = []" "delayedException st1 = None"
    "outputRewrites st1 = outputRewrites st0"
proof -
  from scanOutputs_inv [OF scanInv_empty scan]
  show "scanInv P W b acc" and items: "set names = fst ` set (drvOutputs P)"
    using sortedOutputNames_success [OF sort] by auto
  from sortedOutputNames_success [OF sort] show "distinct names" by simp
  from scanOutputs_frame [OF scan]
  show "batchesOf (ops st1) = batchesOf (ops st0)" "validPaths st1 = validPaths st0"
    "finalOutputs st1 = []" "infos st1 = []" "delayedException st1 = None"
    "outputRewrites st1 = outputRewrites st0"
    by (simp_all add: sameStore_def)
qed

text \<open>An output that has to be registered has its scanned references in the accumulator.\<close>

lemma scanInv_wanted:
  assumes inv: "scanInv P W b acc" and n: "n \<in> set (outputsToSort acc)"
    and sp: "map_of (scratchOutputs b) n = Some sp"
    and w: "buildMode P = bmCheck \<or> \<not> alreadyValid P n"
  shows "map_of (outputReferencesIfUnregistered acc) n =
     Some (PerhapsNeedToRegister (outputReferences P W b n (actualPathOf P b sp)))"
proof -
  from inv n obtain r where r: "map_of (outputReferencesIfUnregistered acc) n = Some r"
    unfolding scanInv_def by auto
  with inv have e: "entryOK P W b (outputStats acc) n r" unfolding scanInv_def by blast
  show ?thesis
  proof (cases r)
    case (AlreadyRegistered p)
    with e w show ?thesis
      by (auto simp: entryOK_def wantedOutput_def alreadyValid_def)
  next
    case (PerhapsNeedToRegister refs)
    with e sp r show ?thesis by (auto simp: entryOK_def actualPathOf_def)
  qed
qed

lemma scanInv_refs:
  assumes inv: "scanInv P W b acc"
    and r: "map_of (outputReferencesIfUnregistered acc) n = Some (PerhapsNeedToRegister refs)"
    and sp: "map_of (scratchOutputs b) n = Some sp"
  shows "refs = outputReferences P W b n (actualPathOf P b sp) \<and>
         (\<exists>info. map_of (initialOutputs P) n = Some info \<and> wantedOutput P info)"
  using inv r sp unfolding scanInv_def entryOK_def actualPathOf_def by fastforce

lemma scanInv_skipped:
  assumes inv: "scanInv P W b acc"
    and r: "map_of (outputReferencesIfUnregistered acc) n = Some (AlreadyRegistered p)"
  shows "alreadyValid P n \<and> buildMode P \<noteq> bmCheck"
  using inv r unfolding scanInv_def entryOK_def alreadyValid_def wantedOutput_def
  by (fastforce split: option.splits)

lemma builtOutputsOf_frame:
  "builtOutputsOf P is bo st = (st1, r) \<Longrightarrow>
   sameStore st st1 \<and> (\<forall>e. r = Inl e \<longrightarrow> e = AssertionFailed)"
proof (induction "is" arbitrary: bo st)
  case Nil
  then show ?case by auto
next
  case (Cons x xs)
  obtain n i where x: "x = (n, i)" by (cases x)
  show ?case
  proof (cases "map_of (initialOutputs P) n")
    case None
    with Cons.prems x show ?thesis by auto
  next
    case (Some old)
    define st2 where "st2 = (if caDerivationsEnabled P \<and> \<not> drvIsImpure P then
        emit [RegisterDrvOutput \<lparr>r_drvHash = io_outputHash old, r_outputName = n,
                r_outPath = vpi_path i\<rparr>] st else st)"
    have s2: "sameStore st st2" by (simp add: st2_def)
    from Cons.prems x Some obtain bo2 where "builtOutputsOf P xs bo2 st2 = (st1, r)"
      by (auto simp: st2_def Let_def)
    from Cons.IH [OF this] s2 show ?thesis by (blast intro: sameStore_trans)
  qed
qed

text \<open>A step of the second loop that succeeds in a build that is not a check build.\<close>

lemma finalizeOutput_success_normal:
  assumes f: "finalizeOutput P W b acc n s = (s1, Inr u)" and m: "buildMode P \<noteq> bmCheck"
  obtains
    (skipped) out sp p where
      "map_of (drvOutputs P) n = Some out" "map_of (scratchOutputs b) n = Some sp"
      "map_of (outputReferencesIfUnregistered acc) n = Some (AlreadyRegistered p)"
      "s1 = finish n sp p s"
  | (recorded) out sp refs s' info where
      "map_of (drvOutputs P) n = Some out" "map_of (scratchOutputs b) n = Some sp"
      "map_of (outputReferencesIfUnregistered acc) n = Some (PerhapsNeedToRegister refs)"
      "computeNewInfo P W acc n out sp (actualPathOf P b sp) refs s = (s', Inr info)"
      "infos s1 = emplace n (recordedInfo P info) (infos s)"
      "batchesOf (ops s1) = batchesOf (ops s) @
         (if vpi_ca info \<noteq> None then [[(vpi_path info, recordedInfo P info)]] else [])"
      "fst ` set (validPaths s1) =
         fst ` set (validPaths s) \<union> (if vpi_ca info \<noteq> None then {vpi_path info} else {})"
      "vpi_ca info = None \<longrightarrow> validPaths s1 = validPaths s"
      "finalOutputs s1 = AList.update n (vpi_path info) (finalOutputs s)"
      "delayedException s1 = delayedException s'"
  using f
proof (cases rule: finalizeOutput_cases)
  case (skipped out sp p)
  with that(1) show ?thesis by simp
next
  case (checked out sp refs s' info s3 ap1)
  with m show ?thesis by simp
next
  case (recorded out sp refs s' info s3 ap1)
  note pf = placed_frame [OF recorded(4,5)]
  from pf have same: "batchesOf (ops s3) = batchesOf (ops s)" "validPaths s3 = validPaths s"
    "finalOutputs s3 = finalOutputs s" "infos s3 = infos s" "delayedException s3 = delayedException s'"
    by (simp_all add: sameStore_def)
  show ?thesis
  proof (rule that(2) [OF recorded(1,2,3,4)])
    show "infos s1 = emplace n (recordedInfo P info) (infos s)"
      by (simp add: recorded(7) recordOutput_fields same)
    show "batchesOf (ops s1) = batchesOf (ops s) @
         (if vpi_ca info \<noteq> None then [[(vpi_path info, recordedInfo P info)]] else [])"
      by (simp only: recorded(7) recordOutput_fields same)
    show "fst ` set (validPaths s1) =
         fst ` set (validPaths s) \<union> (if vpi_ca info \<noteq> None then {vpi_path info} else {})"
      by (simp only: recorded(7) recordOutput_fields same)
    show "vpi_ca info = None \<longrightarrow> validPaths s1 = validPaths s"
      by (simp add: recorded(7) recordOutput_fields same)
    show "finalOutputs s1 = AList.update n (vpi_path info) (finalOutputs s)"
      by (simp add: recorded(7) recordOutput_fields same)
    show "delayedException s1 = delayedException s'"
      by (simp add: recorded(7) recordOutput_fields same)
  qed
qed simp_all

lemma emplace_keys: "fst ` set (emplace k v al) = insert k (fst ` set al)"
  by (auto simp: emplace_def)

lemma emplace_set: "set (emplace k v al) \<subseteq> insert (k, v) (set al) \<and> set al \<subseteq> set (emplace k v al)"
  by (auto simp: emplace_def)

lemma infos2Of_fold:
  "fst ` set (fold (\<lambda>e m. AList.update (vpi_path (snd e)) (snd e) m) is m0) =
   fst ` set m0 \<union> vpi_path ` snd ` set is"
  by (induction "is" arbitrary: m0) (auto simp: dom_update image_iff)

lemma infos2Of_dom: "fst ` set (infos2Of is) = vpi_path ` snd ` set is"
  by (simp add: infos2Of_def infos2Of_fold)

lemma wantedOutput_iff:
  "map_of (initialOutputs P) n = Some info \<Longrightarrow>
   wantedOutput P info = (buildMode P = bmCheck \<or> \<not> alreadyValid P n)"
  by (auto simp: wantedOutput_def alreadyValid_def split: option.splits)

text \<open>A hash mismatch in the delayed exception comes from a fixed output that has to be
  registered and whose content hash is not the declared one.\<close>

lemma finalizeOutputs_mismatch_origin:
  assumes inv: "scanInv P W b acc" and run: "finalizeOutputs P W b acc names s = (s2, rf)"
    and start: "delayedException s = None"
    and hm: "delayedException s2 = Some (HashMismatch d w g)"
  shows "\<exists>n ca sp. map_of (drvOutputs P) n = Some (CAFixed ca) \<and>
           map_of (scratchOutputs b) n = Some sp \<and>
           (buildMode P = bmCheck \<or> \<not> alreadyValid P n) \<and>
           ca_hash ca \<noteq> gotHash P W b ca sp \<and> d = printStorePath (store P) (drvPath P) \<and>
           w = hashToString P SRI True (ca_hash ca) \<and>
           g = hashToString P SRI True (gotHash P W b ca sp)"
proof -
  let ?origin = "\<lambda>e. \<forall>d w g. e = Some (HashMismatch d w g) \<longrightarrow>
        (\<exists>n ca sp. map_of (drvOutputs P) n = Some (CAFixed ca) \<and>
           map_of (scratchOutputs b) n = Some sp \<and>
           (buildMode P = bmCheck \<or> \<not> alreadyValid P n) \<and>
           ca_hash ca \<noteq> gotHash P W b ca sp \<and> d = printStorePath (store P) (drvPath P) \<and>
           w = hashToString P SRI True (ca_hash ca) \<and>
           g = hashToString P SRI True (gotHash P W b ca sp))"
  have "?origin (delayedException s2)"
    using run
  proof (rule finalizeOutputs_invariant [where I = "\<lambda>s. ?origin (delayedException s)"])
    show "?origin (delayedException s)" by (simp add: start)
  next
    fix n t t1 r1
    assume i: "?origin (delayedException t)" and f: "finalizeOutput P W b acc n t = (t1, r1)"
    from finalizeOutput_delayed [OF f] consider
        "delayedException t1 = delayedException t"
      | ca sp refs where "map_of (drvOutputs P) n = Some (CAFixed ca)"
          "map_of (scratchOutputs b) n = Some sp"
          "map_of (outputReferencesIfUnregistered acc) n = Some (PerhapsNeedToRegister refs)"
          "\<forall>d w g. delayedException t1 = Some (HashMismatch d w g) \<longrightarrow>
             delayedException t = Some (HashMismatch d w g) \<or>
             (ca_hash ca \<noteq> gotHash P W b ca sp \<and>
              HashMismatch d w g = mismatchOf P W b ca sp)"
      by blast
    then show "?origin (delayedException t1)"
    proof cases
      case 1
      with i show ?thesis by simp
    next
      case 2
      from scanInv_refs [OF inv 2(3) 2(2)] obtain info where
        "map_of (initialOutputs P) n = Some info" "wantedOutput P info" by blast
      with wantedOutput_iff have wn: "buildMode P = bmCheck \<or> \<not> alreadyValid P n" by blast
      show ?thesis
      proof (intro allI impI)
        fix d w g
        assume e: "delayedException t1 = Some (HashMismatch d w g)"
        show "\<exists>n ca sp. map_of (drvOutputs P) n = Some (CAFixed ca) \<and>
           map_of (scratchOutputs b) n = Some sp \<and>
           (buildMode P = bmCheck \<or> \<not> alreadyValid P n) \<and>
           ca_hash ca \<noteq> gotHash P W b ca sp \<and> d = printStorePath (store P) (drvPath P) \<and>
           w = hashToString P SRI True (ca_hash ca) \<and>
           g = hashToString P SRI True (gotHash P W b ca sp)"
        proof (cases "delayedException t = Some (HashMismatch d w g)")
          case True
          with i show ?thesis by blast
        next
          case False
          with e 2(4) have "ca_hash ca \<noteq> gotHash P W b ca sp"
            "d = printStorePath (store P) (drvPath P)"
            "w = hashToString P SRI True (ca_hash ca)"
            "g = hashToString P SRI True (gotHash P W b ca sp)"
            by (auto simp: mismatchOf_def)
          with 2(1,2) wn show ?thesis by blast
        qed
      qed
    qed
  qed
  with hm show ?thesis by blast
qed

text \<open>In a build that is not a check build, every output that the second loop has
  finalised is already valid or has its info recorded, and the recorded info of a fixed
  output carries the content hash that was computed.\<close>

lemma finalizeOutputs_infos:
  assumes inv: "scanInv P W b acc" and run: "finalizeOutputs P W b acc names s = (s2, Inr u)"
    and m: "buildMode P \<noteq> bmCheck" and start: "infos s = []"
  shows "(\<forall>n \<in> set names. alreadyValid P n \<or> n \<in> fst ` set (infos s2)) \<and>
     (\<forall>n i ca sp. (n, i) \<in> set (infos s2) \<and> map_of (drvOutputs P) n = Some (CAFixed ca) \<and>
        map_of (scratchOutputs b) n = Some sp \<longrightarrow>
        vpi_ca i = Some \<lparr>ca_method = ca_method ca, ca_hash = gotHash P W b ca sp\<rparr>)"
  using run
proof (rule finalizeOutputs_prefix_invariant
    [where I = "\<lambda>pre s. (\<forall>n \<in> set pre. alreadyValid P n \<or> n \<in> fst ` set (infos s)) \<and>
     (\<forall>n i ca sp. (n, i) \<in> set (infos s) \<and> map_of (drvOutputs P) n = Some (CAFixed ca) \<and>
        map_of (scratchOutputs b) n = Some sp \<longrightarrow>
        vpi_ca i = Some \<lparr>ca_method = ca_method ca, ca_hash = gotHash P W b ca sp\<rparr>)"])
  show "(\<forall>n \<in> set []. alreadyValid P n \<or> n \<in> fst ` set (infos s)) \<and>
     (\<forall>n i ca sp. (n, i) \<in> set (infos s) \<and> map_of (drvOutputs P) n = Some (CAFixed ca) \<and>
        map_of (scratchOutputs b) n = Some sp \<longrightarrow>
        vpi_ca i = Some \<lparr>ca_method = ca_method ca, ca_hash = gotHash P W b ca sp\<rparr>)"
    by (simp add: start)
next
  fix pre m post t t1
  assume i: "(\<forall>n \<in> set pre. alreadyValid P n \<or> n \<in> fst ` set (infos t)) \<and>
     (\<forall>n i ca sp. (n, i) \<in> set (infos t) \<and> map_of (drvOutputs P) n = Some (CAFixed ca) \<and>
        map_of (scratchOutputs b) n = Some sp \<longrightarrow>
        vpi_ca i = Some \<lparr>ca_method = ca_method ca, ca_hash = gotHash P W b ca sp\<rparr>)"
    and f: "finalizeOutput P W b acc m t = (t1, Inr ())"
  from f assms(3) show "(\<forall>n \<in> set (pre @ [m]). alreadyValid P n \<or> n \<in> fst ` set (infos t1)) \<and>
     (\<forall>n i ca sp. (n, i) \<in> set (infos t1) \<and> map_of (drvOutputs P) n = Some (CAFixed ca) \<and>
        map_of (scratchOutputs b) n = Some sp \<longrightarrow>
        vpi_ca i = Some \<lparr>ca_method = ca_method ca, ca_hash = gotHash P W b ca sp\<rparr>)"
  proof (cases rule: finalizeOutput_success_normal)
    case (skipped out sp p)
    from scanInv_skipped [OF inv skipped(3)] have "alreadyValid P m" by simp
    with i skipped(4) show ?thesis by simp
  next
    case (recorded out sp refs s' info)
    have a: "\<forall>n \<in> set (pre @ [m]). alreadyValid P n \<or> n \<in> fst ` set (infos t1)"
      using i by (auto simp: recorded(5) emplace_keys)
    have b: "vpi_ca i = Some \<lparr>ca_method = ca_method ca, ca_hash = gotHash P W b ca sp'\<rparr>"
      if "(n, i) \<in> set (infos t1)" "map_of (drvOutputs P) n = Some (CAFixed ca)"
        "map_of (scratchOutputs b) n = Some sp'" for n i ca sp'
    proof (cases "(n, i) \<in> set (infos t)")
      case True
      with i that show ?thesis by blast
    next
      case False
      with that(1) emplace_set [of m "recordedInfo P info" "infos t"]
      have e: "n = m" "i = recordedInfo P info" by (auto simp: recorded(5))
      with that recorded(1,2) have "out = CAFixed ca" "sp' = sp" by simp_all
      with computeNewInfo_fixed_info [of P W acc m ca sp b refs t s' info] recorded(4)
      show ?thesis by (simp add: e)
    qed
    from a b show ?thesis by blast
  qed
qed

lemma builtOutputsOf_success:
  "\<forall>n \<in> fst ` set is. map_of (initialOutputs P) n \<noteq> None \<Longrightarrow>
   \<exists>bo. snd (builtOutputsOf P is bo0 st) = Inr bo"
proof (induction "is" arbitrary: bo0 st)
  case Nil
  then show ?case by simp
next
  case (Cons x xs)
  obtain n i where x: "x = (n, i)" by (cases x)
  with Cons.prems obtain old where o: "map_of (initialOutputs P) n = Some old" by auto
  from Cons.prems have "\<forall>n \<in> fst ` set xs. map_of (initialOutputs P) n \<noteq> None" by simp
  from Cons.IH [OF this] x o show ?case by (simp add: Let_def)
qed

text \<open>The second loop of a build that is not a check build, when all outputs are
  input-addressed: nothing is registered and no exception is delayed.\<close>

lemma finalizeOutputs_inputAddressed:
  assumes inv: "scanInv P W b acc" and run: "finalizeOutputs P W b acc names s = (s2, rf)"
    and m: "buildMode P \<noteq> bmCheck"
    and ia: "\<forall>n out. map_of (drvOutputs P) n = Some out \<longrightarrow> (\<exists>p. out = InputAddressed p)"
    and start: "infos s = []" "delayedException s = None"
  shows "validPaths s2 = validPaths s \<and> batchesOf (ops s2) = batchesOf (ops s) \<and>
     delayedException s2 = None \<and>
     (\<forall>n i. (n, i) \<in> set (infos s2) \<longrightarrow>
        map_of (drvOutputs P) n = Some (InputAddressed (vpi_path i)) \<and> \<not> alreadyValid P n \<and>
        map_of (initialOutputs P) n \<noteq> None)"
  using run
proof (rule finalizeOutputs_invariant
    [where I = "\<lambda>t. validPaths t = validPaths s \<and> batchesOf (ops t) = batchesOf (ops s) \<and>
     delayedException t = None \<and>
     (\<forall>n i. (n, i) \<in> set (infos t) \<longrightarrow>
        map_of (drvOutputs P) n = Some (InputAddressed (vpi_path i)) \<and> \<not> alreadyValid P n \<and>
        map_of (initialOutputs P) n \<noteq> None)"])
  show "validPaths s = validPaths s \<and> batchesOf (ops s) = batchesOf (ops s) \<and>
     delayedException s = None \<and>
     (\<forall>n i. (n, i) \<in> set (infos s) \<longrightarrow>
        map_of (drvOutputs P) n = Some (InputAddressed (vpi_path i)) \<and> \<not> alreadyValid P n \<and>
        map_of (initialOutputs P) n \<noteq> None)"
    by (simp add: start)
next
  fix n t t1 r1
  assume i: "validPaths t = validPaths s \<and> batchesOf (ops t) = batchesOf (ops s) \<and>
     delayedException t = None \<and>
     (\<forall>n i. (n, i) \<in> set (infos t) \<longrightarrow>
        map_of (drvOutputs P) n = Some (InputAddressed (vpi_path i)) \<and> \<not> alreadyValid P n \<and>
        map_of (initialOutputs P) n \<noteq> None)"
    and f: "finalizeOutput P W b acc n t = (t1, r1)"
  from finalizeOutput_delayed [OF f] ia i have d: "delayedException t1 = None" by fastforce
  show "validPaths t1 = validPaths s \<and> batchesOf (ops t1) = batchesOf (ops s) \<and>
     delayedException t1 = None \<and>
     (\<forall>n i. (n, i) \<in> set (infos t1) \<longrightarrow>
        map_of (drvOutputs P) n = Some (InputAddressed (vpi_path i)) \<and> \<not> alreadyValid P n \<and>
        map_of (initialOutputs P) n \<noteq> None)"
  proof (cases r1)
    case (Inl e)
    from finalizeOutput_error [OF f [unfolded Inl]] i d show ?thesis
      by (simp add: sameStore_def)
  next
    case (Inr u)
    from f [unfolded Inr] m show ?thesis
    proof (cases rule: finalizeOutput_success_normal)
      case (skipped out sp p)
      with i d show ?thesis by simp
    next
      case (recorded out sp refs s' info)
      from ia recorded(1) obtain p where out: "out = InputAddressed p" by blast
      from computeNewInfo_inputAddressed [OF recorded(4) [unfolded out]]
      have pi: "vpi_path info = p" "vpi_ca info = None" by auto
      from scanInv_refs [OF inv recorded(3) recorded(2)] obtain ini where
        ini: "map_of (initialOutputs P) n = Some ini" "wantedOutput P ini" by blast
      with wantedOutput_iff [OF ini(1)] m have nv: "\<not> alreadyValid P n" by simp
      have v: "validPaths t1 = validPaths s" using recorded(8) pi i by simp
      have bt: "batchesOf (ops t1) = batchesOf (ops s)" using recorded(6) pi i by simp
      have e: "map_of (drvOutputs P) k = Some (InputAddressed (vpi_path j)) \<and> \<not> alreadyValid P k \<and>
          map_of (initialOutputs P) k \<noteq> None" if "(k, j) \<in> set (infos t1)" for k j
      proof (cases "(k, j) \<in> set (infos t)")
        case True
        with i show ?thesis by blast
      next
        case False
        with that emplace_set [of n "recordedInfo P info" "infos t"]
        have "k = n" "j = recordedInfo P info" by (auto simp: recorded(5))
        with recorded(1) out pi nv ini show ?thesis by simp
      qed
      from v bt d e show ?thesis by blast
    qed
  qed
qed

text \<open>A check build registers no new path, when every valid path is the path of its
  info.\<close>

lemma checkOutput_domain:
  assumes c: "checkOutput P b info ap st = (st1, r)"
    and k: "\<forall>p i. map_of (validPaths st) p = Some i \<longrightarrow> vpi_path i = p"
  shows "fst ` set (validPaths st1) = fst ` set (validPaths st) \<and>
         (\<forall>p i. map_of (validPaths st1) p = Some i \<longrightarrow> vpi_path i = p)"
proof (cases "map_of (validPaths st) (vpi_path info)")
  case None
  with c k show ?thesis by (simp add: checkOutput_def)
next
  case (Some old)
  with k have po: "vpi_path old = vpi_path info" by blast
  from Some have dom: "vpi_path info \<in> fst ` set (validPaths st)"
    by (auto dest: map_of_SomeD intro: rev_image_eqI)
  show ?thesis
  proof (cases "vpi_narHash info \<noteq> vpi_narHash old \<or> vpi_ultimate old")
    case True
    with c Some have "validPaths st1 = validPaths st"
      by (auto simp: checkOutput_def Let_def split: if_splits)
    with k show ?thesis by simp
  next
    case False
    define old2 where "old2 = (old\<lparr>vpi_ultimate := True\<rparr>)
      \<lparr>vpi_sigs := vpi_sigs old @ [signatureOf P (old\<lparr>vpi_ultimate := True\<rparr>)]\<rparr>"
    from False c Some po
    have v: "validPaths st1 = AList.update (vpi_path info) old2 (validPaths st)"
      by (auto simp: checkOutput_def Let_def registerValidPaths_def old2_def)
    have p2: "vpi_path old2 = vpi_path info" by (simp add: old2_def po)
    from dom have "fst ` set (validPaths st1) = fst ` set (validPaths st)"
      by (auto simp: v dom_update)
    moreover have "vpi_path i = p" if "map_of (validPaths st1) p = Some i" for p i
      using that k p2 by (auto simp: v update_conv' split: if_splits)
    ultimately show ?thesis by blast
  qed
qed

lemma finalizeOutputs_check_domain:
  assumes run: "finalizeOutputs P W b acc names s = (s2, rf)"
    and m: "buildMode P = bmCheck"
    and k: "\<forall>p i. map_of (validPaths s) p = Some i \<longrightarrow> vpi_path i = p"
  shows "fst ` set (validPaths s2) = fst ` set (validPaths s)"
proof -
  have "fst ` set (validPaths s2) = fst ` set (validPaths s) \<and>
         (\<forall>p i. map_of (validPaths s2) p = Some i \<longrightarrow> vpi_path i = p)"
    using run
  proof (rule finalizeOutputs_invariant
      [where I = "\<lambda>t. fst ` set (validPaths t) = fst ` set (validPaths s) \<and>
         (\<forall>p i. map_of (validPaths t) p = Some i \<longrightarrow> vpi_path i = p)"])
    show "fst ` set (validPaths s) = fst ` set (validPaths s) \<and>
         (\<forall>p i. map_of (validPaths s) p = Some i \<longrightarrow> vpi_path i = p)" using k by simp
  next
    fix n t t1 r1
    assume i: "fst ` set (validPaths t) = fst ` set (validPaths s) \<and>
         (\<forall>p i. map_of (validPaths t) p = Some i \<longrightarrow> vpi_path i = p)"
      and f: "finalizeOutput P W b acc n t = (t1, r1)"
    from f show "fst ` set (validPaths t1) = fst ` set (validPaths s) \<and>
         (\<forall>p i. map_of (validPaths t1) p = Some i \<longrightarrow> vpi_path i = p)"
    proof (cases rule: finalizeOutput_cases)
      case assert
      with i show ?thesis by simp
    next
      case (skipped out sp p)
      with i show ?thesis by simp
    next
      case (newInfoErr out sp refs e)
      from computeNewInfo_frame [OF newInfoErr(4)] i show ?thesis by (simp add: sameStore_def)
    next
      case (placeErr out sp refs s' info e)
      from placed_frame [OF placeErr(4,5)] i show ?thesis by (simp add: sameStore_def)
    next
      case (checked out sp refs s' info s3 ap1)
      from placed_frame [OF checked(4,5)] have "validPaths s3 = validPaths t"
        by (simp add: sameStore_def)
      with checkOutput_domain [OF checked(7)] i show ?thesis by simp
    next
      case (recorded out sp refs s' info s3 ap1)
      with m show ?thesis by simp
    qed
  qed
  then show ?thesis by simp
qed

lemma update_entries: "set (AList.update k v al) \<subseteq> insert (k, v) (set al)"
  by (induction al) auto

lemma infos2Of_fold_entries:
  "(p, i) \<in> set (fold (\<lambda>e m. AList.update (vpi_path (snd e)) (snd e) m) is m0) \<Longrightarrow>
   (p, i) \<in> set m0 \<or> (p = vpi_path i \<and> i \<in> snd ` set is)"
proof (induction "is" arbitrary: m0)
  case Nil
  then show ?case by simp
next
  case (Cons x xs)
  from Cons.IH [OF Cons.prems [simplified]]
  have "(p, i) \<in> set (AList.update (vpi_path (snd x)) (snd x) m0) \<or>
        (p = vpi_path i \<and> i \<in> snd ` set xs)" by simp
  then show ?case
  proof
    assume "(p, i) \<in> set (AList.update (vpi_path (snd x)) (snd x) m0)"
    with update_entries [of "vpi_path (snd x)" "snd x" m0]
    have "(p, i) = (vpi_path (snd x), snd x) \<or> (p, i) \<in> set m0" by blast
    then show ?thesis by auto
  next
    assume "p = vpi_path i \<and> i \<in> snd ` set xs"
    then show ?thesis by auto
  qed
qed

lemma infos2Of_entries:
  "(p, i) \<in> set (infos2Of is) \<Longrightarrow> p = vpi_path i \<and> i \<in> snd ` set is"
  using infos2Of_fold_entries [of p i "is" "[]"] by (simp add: infos2Of_def)

subsection \<open>The rewrites that the second loop installs\<close>

lemma finish_rewrites:
  "outputRewrites (finish n sp fp st) =
     (if sp \<noteq> fp then AList.update (hashPart sp) (hashPart fp) (outputRewrites st)
      else outputRewrites st)"
  by (simp add: finish_def Let_def)

lemma recordOutput_rewrites:
  "outputRewrites (recordOutput P n sp info ap st) =
     (if sp \<noteq> vpi_path info then
        AList.update (hashPart sp) (hashPart (vpi_path info)) (outputRewrites st)
      else outputRewrites st)"
  by (simp add: recordOutput_def Let_def finish_rewrites)

lemma computeNewInfo_rewrites:
  assumes c: "computeNewInfo P W acc n out sp ap refs s = (s', rc)" and k: "k \<noteq> hashPart sp"
  shows "map_of (outputRewrites s') k = map_of (outputRewrites s) k"
proof (cases out)
  case (InputAddressed p)
  with c k show ?thesis
    by (auto simp: computeNewInfo_def Let_def update_conv' split: if_splits)
next
  case (CAFixed ca)
  obtain s2 r2 where n2: "newInfoFromCA P W acc n sp ap refs (ca_method ca) (hashAlgo (ca_hash ca))
      (emit [CopyFresh ap] s) = (s2, r2)"
    by (cases "newInfoFromCA P W acc n sp ap refs (ca_method ca) (hashAlgo (ca_hash ca))
      (emit [CopyFresh ap] s)")
  from newInfoFromCA_frame [OF n2] have "outputRewrites s2 = outputRewrites s" by simp
  moreover from c CAFixed n2 have "outputRewrites s' = outputRewrites s2"
    by (auto simp: computeNewInfo_def Let_def split: sum.splits option.splits if_splits prod.splits)
  ultimately show ?thesis by simp
next
  case (CAFloating m a)
  with c newInfoFromCA_frame show ?thesis by (simp add: computeNewInfo_def)
next
  case Deferred
  with c show ?thesis by (simp add: computeNewInfo_def)
next
  case (Impure m a)
  with c newInfoFromCA_frame show ?thesis by (simp add: computeNewInfo_def)
qed

text \<open>In a build that is not a check build, an output that has been finalised has its
  final path noted and, when that is not its scratch path, the rewrite from the one to the
  other installed. The rewrites of other hash parts stay.\<close>

lemma finalizeOutput_rewrites:
  assumes f: "finalizeOutput P W b acc n s = (s1, Inr u)" and m: "buildMode P \<noteq> bmCheck"
    and sp: "map_of (scratchOutputs b) n = Some sp"
  shows "\<exists>fp. map_of (finalOutputs s1) n = Some fp \<and>
     (\<forall>k. k \<noteq> n \<longrightarrow> map_of (finalOutputs s1) k = map_of (finalOutputs s) k) \<and>
     (sp \<noteq> fp \<longrightarrow> map_of (outputRewrites s1) (hashPart sp) = Some (hashPart fp)) \<and>
     (\<forall>k. k \<noteq> hashPart sp \<longrightarrow> map_of (outputRewrites s1) k = map_of (outputRewrites s) k)"
  using f
proof (cases rule: finalizeOutput_cases)
  case (skipped out sp1 p)
  with sp have e: "sp1 = sp" by simp
  show ?thesis
    by (intro exI [of _ p]) (simp add: skipped(4) e finish_rewrites update_conv')
next
  case (checked out sp1 refs s' info s3 ap1)
  with m show ?thesis by simp
next
  case (recorded out sp1 refs s' info s3 ap1)
  with sp have e: "sp1 = sp" by simp
  from placed_frame [OF recorded(4,5)]
  have fo: "finalOutputs s3 = finalOutputs s" and rw: "outputRewrites s3 = outputRewrites s'"
    by (simp_all add: sameStore_def)
  note cr = computeNewInfo_rewrites [OF recorded(4) [unfolded e]]
  show ?thesis
    by (intro exI [of _ "vpi_path info"])
       (simp add: recorded(7) e recordOutput_fields recordOutput_rewrites update_conv' fo rw cr)
qed simp_all

lemma finalizeOutputs_rewrites:
  assumes run: "finalizeOutputs P W b acc names s = (s2, Inr u)" and m: "buildMode P \<noteq> bmCheck"
    and sc: "\<forall>n \<in> set names. map_of (scratchOutputs b) n \<noteq> None"
    and inj: "\<forall>n1 n2 p1 p2. map_of (scratchOutputs b) n1 = Some p1 \<and>
                map_of (scratchOutputs b) n2 = Some p2 \<and> n1 \<noteq> n2 \<longrightarrow> hashPart p1 \<noteq> hashPart p2"
  shows "\<forall>n \<in> set names. \<forall>sp. map_of (scratchOutputs b) n = Some sp \<longrightarrow>
     (\<exists>fp. map_of (finalOutputs s2) n = Some fp \<and>
        (sp \<noteq> fp \<longrightarrow> map_of (outputRewrites s2) (hashPart sp) = Some (hashPart fp)))"
  using run
proof (rule finalizeOutputs_prefix_invariant
    [where I = "\<lambda>pre t. \<forall>n \<in> set pre. \<forall>sp. map_of (scratchOutputs b) n = Some sp \<longrightarrow>
     (\<exists>fp. map_of (finalOutputs t) n = Some fp \<and>
        (sp \<noteq> fp \<longrightarrow> map_of (outputRewrites t) (hashPart sp) = Some (hashPart fp)))"])
  show "\<forall>n \<in> set []. \<forall>sp. map_of (scratchOutputs b) n = Some sp \<longrightarrow>
     (\<exists>fp. map_of (finalOutputs s) n = Some fp \<and>
        (sp \<noteq> fp \<longrightarrow> map_of (outputRewrites s) (hashPart sp) = Some (hashPart fp)))" by simp
next
  fix pre k post t t1
  assume split: "names = pre @ k # post"
    and i: "\<forall>n \<in> set pre. \<forall>sp. map_of (scratchOutputs b) n = Some sp \<longrightarrow>
     (\<exists>fp. map_of (finalOutputs t) n = Some fp \<and>
        (sp \<noteq> fp \<longrightarrow> map_of (outputRewrites t) (hashPart sp) = Some (hashPart fp)))"
    and f: "finalizeOutput P W b acc k t = (t1, Inr ())"
  from split sc obtain spk where spk: "map_of (scratchOutputs b) k = Some spk" by auto
  from finalizeOutput_rewrites [OF f m spk] obtain fpk where
    k1: "map_of (finalOutputs t1) k = Some fpk"
    and k2: "\<And>j. j \<noteq> k \<Longrightarrow> map_of (finalOutputs t1) j = map_of (finalOutputs t) j"
    and k3: "spk \<noteq> fpk \<Longrightarrow> map_of (outputRewrites t1) (hashPart spk) = Some (hashPart fpk)"
    and k4: "\<And>h. h \<noteq> hashPart spk \<Longrightarrow> map_of (outputRewrites t1) h = map_of (outputRewrites t) h"
    by blast
  show "\<forall>n \<in> set (pre @ [k]). \<forall>sp. map_of (scratchOutputs b) n = Some sp \<longrightarrow>
     (\<exists>fp. map_of (finalOutputs t1) n = Some fp \<and>
        (sp \<noteq> fp \<longrightarrow> map_of (outputRewrites t1) (hashPart sp) = Some (hashPart fp)))"
  proof (intro ballI allI impI)
    fix n sp
    assume n: "n \<in> set (pre @ [k])" and sp: "map_of (scratchOutputs b) n = Some sp"
    show "\<exists>fp. map_of (finalOutputs t1) n = Some fp \<and>
        (sp \<noteq> fp \<longrightarrow> map_of (outputRewrites t1) (hashPart sp) = Some (hashPart fp))"
    proof (cases "n = k")
      case True
      with sp spk have "sp = spk" by simp
      with k1 k3 True show ?thesis by auto
    next
      case False
      with n have np: "n \<in> set pre" by simp
      from inj sp spk False have "hashPart sp \<noteq> hashPart spk" by blast
      from k4 [OF this] k2 [OF False] i np sp show ?thesis by auto
    qed
  qed
qed

subsection \<open>A fixed-output derivation whose outputs have been produced\<close>

lemma fixedOutputProduced_cases:
  assumes "fixedOutputProduced P W b n"
  obtains ca sp ini where
    "map_of (drvOutputs P) n = Some (CAFixed ca)" "map_of (scratchOutputs b) n = Some sp"
    "map_of (initialOutputs P) n = Some ini"
    "\<not> wantedOutput P ini \<or>
     (\<exists>stt. maybeLstat W (actualPathOf P b sp) = Some stt \<and> \<not> suspiciousOwnership P b stt \<and>
        (getFileIngestionMethod (ca_method ca) = fimFlat \<longrightarrow>
           S_ISREG (st_mode stt) \<and> and (st_mode stt) S_IXUSR = 0) \<and>
        outputReferences P W b n (actualPathOf P b sp) = [])"
  using assms unfolding fixedOutputProduced_def
  by (auto split: option.splits DerivationOutput.splits)

lemma scanOutput_succeeds:
  assumes "fixedOutputProduced P W b n"
  shows "\<exists>st1 acc1. scanOutput P W b n acc st = (st1, Inr acc1)"
  using assms
proof (cases rule: fixedOutputProduced_cases)
  case (1 ca sp ini)
  show ?thesis
  proof (cases "wantedOutput P ini")
    case False
    then obtain k where "io_known ini = Some k"
      by (auto simp: wantedOutput_def split: option.splits)
    with 1 False show ?thesis by (simp add: scanOutput_def Let_def)
  next
    case True
    with 1(4) obtain stt where "maybeLstat W (actualPathOf P b sp) = Some stt"
      "\<not> suspiciousOwnership P b stt" by blast
    with 1 True show ?thesis by (simp add: scanOutput_def Let_def actualPathOf_def)
  qed
qed

lemma scanOutputs_succeeds:
  "\<forall>n \<in> set names. fixedOutputProduced P W b n \<Longrightarrow>
   \<exists>st1 acc1. scanOutputs P W b names acc st = (st1, Inr acc1)"
proof (induction names arbitrary: acc st)
  case Nil
  then show ?case by simp
next
  case (Cons n names)
  from Cons.prems have "fixedOutputProduced P W b n" by simp
  from scanOutput_succeeds [OF this, of acc st] obtain s2 acc2 where
    s: "scanOutput P W b n acc st = (s2, Inr acc2)" by blast
  from Cons.prems have "\<forall>n \<in> set names. fixedOutputProduced P W b n" by simp
  from Cons.IH [OF this, of acc2 s2] s show ?case by simp
qed

text \<open>The \<^verbatim>\<open>stat\<close> that the first loop records for an output is the one found at
  its scratch path.\<close>

lemma scanOutput_stats:
  assumes s: "scanOutput P W b n acc st = (st1, Inr acc1)"
    and i: "\<forall>m stt. map_of (outputStats acc) m = Some stt \<longrightarrow>
        (\<exists>sp. map_of (scratchOutputs b) m = Some sp \<and> maybeLstat W (actualPathOf P b sp) = Some stt)"
  shows "\<forall>m stt. map_of (outputStats acc1) m = Some stt \<longrightarrow>
        (\<exists>sp. map_of (scratchOutputs b) m = Some sp \<and> maybeLstat W (actualPathOf P b sp) = Some stt)"
  using s i
  by (auto simp: scanOutput_def Let_def actualPathOf_def emit_def update_conv'
      split: option.splits if_splits)

lemma scanOutputs_stats:
  assumes s: "scanOutputs P W b names acc st = (st1, Inr acc1)"
    and i: "\<forall>m stt. map_of (outputStats acc) m = Some stt \<longrightarrow>
        (\<exists>sp. map_of (scratchOutputs b) m = Some sp \<and> maybeLstat W (actualPathOf P b sp) = Some stt)"
  shows "\<forall>m stt. map_of (outputStats acc1) m = Some stt \<longrightarrow>
        (\<exists>sp. map_of (scratchOutputs b) m = Some sp \<and> maybeLstat W (actualPathOf P b sp) = Some stt)"
  using s i
proof (induction names arbitrary: acc st)
  case Nil
  then show ?case by simp
next
  case (Cons n names)
  obtain s2 r2 where s: "scanOutput P W b n acc st = (s2, r2)" by (cases "scanOutput P W b n acc st")
  with Cons.prems(1) obtain acc2 where r2: "r2 = Inr acc2"
    and rest: "scanOutputs P W b names acc2 s2 = (st1, Inr acc1)"
    by (auto split: sum.splits)
  from scanOutput_stats [OF s [unfolded r2] Cons.prems(2)]
  show ?case by (rule Cons.IH [OF rest])
qed

text \<open>Without references between the outputs the sort succeeds.\<close>

lemma sortedOutputNames_succeeds:
  assumes "\<forall>x \<in> set (outputsToSort acc). referencedOutputs P b acc x = Inr []"
  shows "\<exists>names. sortedOutputNames P b acc = Inr names"
proof (cases "sortedOutputNames P b acc")
  case (Inr names)
  then show ?thesis by blast
next
  case (Inl e)
  then have "topoSort (outputsToSort acc) (referencedOutputs P b acc)
      (\<lambda>path parent. CycleDetected (printStorePath (store P) (drvPath P)) path parent) = Inl e"
    by (auto simp: sortedOutputNames_def split: sum.splits)
  from topoSort_error [OF this] consider
      (gc) x where "x \<in> set (outputsToSort acc)" "referencedOutputs P b acc x = Inl e"
    | (cyc) path parent where
        "(parent, path) \<in> edges (outputsToSort acc) (referencedOutputs P b acc)"
        "(path, parent) \<in> (edges (outputsToSort acc) (referencedOutputs P b acc))\<^sup>*"
    unfolding cycleError_def by blast
  then show ?thesis
  proof cases
    case gc
    with assms show ?thesis by auto
  next
    case cyc
    from cyc(1) obtain cs where c: "referencedOutputs P b acc parent = Inr cs" "path \<in> set cs"
      unfolding edges_def by auto
    have "parent \<in> set (outputsToSort acc)"
    proof (cases "path = parent")
      case True
      with cyc(1) show ?thesis unfolding edges_def by auto
    next
      case False
      with cyc(2) obtain w where "(w, parent) \<in> edges (outputsToSort acc) (referencedOutputs P b acc)"
        by (meson rtranclE)
      then show ?thesis unfolding edges_def by auto
    qed
    with assms c show ?thesis by auto
  qed
qed

lemma newInfoFromCA_succeeds:
  assumes "map_of (outputStats acc) n = Some stt"
    and "getFileIngestionMethod m = fimFlat \<longrightarrow> S_ISREG (st_mode stt) \<and> and (st_mode stt) S_IXUSR = 0"
  shows "\<exists>s' info. newInfoFromCA P W acc n sp ap refs m a s = (s', Inr info)"
  using assms by (simp add: newInfoFromCA_def Let_def)

lemma newInfoFromCA_path:
  "newInfoFromCA P W acc n sp ap [] m a s = (s', Inr info) \<Longrightarrow>
   vpi_path info =
     makeFixedOutputPathFromCA (store P) (outputPathName P (drvName P) n) m
       (caHashOf W ap (getFileIngestionMethod m) a (hashPart sp)) \<lparr>sr_self = False, sr_others = []\<rparr>"
  by (auto simp: newInfoFromCA_def Let_def validPathInfoFromCA_def rewriteRefs_def
      split: option.splits if_splits)

text \<open>The new info of a fixed output in which no reference was found.\<close>

lemma computeNewInfo_fixed_succeeds:
  assumes st: "map_of (outputStats acc) n = Some stt"
    and fl: "getFileIngestionMethod (ca_method ca) = fimFlat \<longrightarrow>
               S_ISREG (st_mode stt) \<and> and (st_mode stt) S_IXUSR = 0"
  shows "\<exists>s' info. computeNewInfo P W acc n (CAFixed ca) sp (actualPathOf P b sp) [] s =
           (s', Inr info) \<and> vpi_path info = fixedPathOf P W b n ca sp"
proof -
  from newInfoFromCA_succeeds [OF st fl] obtain s2 info where
    n2: "newInfoFromCA P W acc n sp (actualPathOf P b sp) [] (ca_method ca) (hashAlgo (ca_hash ca))
      (emit [CopyFresh (actualPathOf P b sp)] s) = (s2, Inr info)" by blast
  from newInfoFromCA_info [OF n2] have r: "vpi_references info = []"
    and c: "vpi_ca info \<noteq> None" by simp_all
  from newInfoFromCA_path [OF n2] have p: "vpi_path info = fixedPathOf P W b n ca sp"
    by (simp add: fixedPathOf_def gotHash_def)
  from n2 r c p show ?thesis
    by (auto simp: computeNewInfo_def Let_def)
qed

lemma placeOutput_ca:
  "vpi_ca info \<noteq> None \<Longrightarrow> \<exists>s3 ap1. placeOutput P n out info ap s = (s3, Inr ap1)"
  by (auto simp: placeOutput_def Let_def)

lemma finalizeOutput_fixed_succeeds:
  assumes m: "buildMode P \<noteq> bmCheck"
    and out: "map_of (drvOutputs P) n = Some (CAFixed ca)"
    and sp: "map_of (scratchOutputs b) n = Some sp"
    and o: "map_of (outputReferencesIfUnregistered acc) n = Some (PerhapsNeedToRegister [])"
    and st: "map_of (outputStats acc) n = Some stt"
    and fl: "getFileIngestionMethod (ca_method ca) = fimFlat \<longrightarrow>
               S_ISREG (st_mode stt) \<and> and (st_mode stt) S_IXUSR = 0"
  shows "\<exists>s1. finalizeOutput P W b acc n s = (s1, Inr ())"
proof -
  from computeNewInfo_fixed_succeeds [OF st fl] obtain s' info where
    c: "computeNewInfo P W acc n (CAFixed ca) sp (actualPathOf P b sp) [] s = (s', Inr info)"
    by blast
  from computeNewInfo_ca [OF c] have "vpi_ca info \<noteq> None" by simp
  from placeOutput_ca [OF this] obtain s3 ap1 where
    p: "placeOutput P n (CAFixed ca) info (actualPathOf P b sp)
          (emit [Canonicalise (actualPathOf P b sp) None] s') = (s3, Inr ap1)" by blast
  from m out sp o c p show ?thesis
    by (simp add: finalizeOutput_def actualPathOf_def)
qed

lemma finalizeOutput_skipped_succeeds:
  assumes out: "map_of (drvOutputs P) n = Some out"
    and sp: "map_of (scratchOutputs b) n = Some sp"
    and o: "map_of (outputReferencesIfUnregistered acc) n = Some (AlreadyRegistered p)"
  shows "\<exists>s1. finalizeOutput P W b acc n s = (s1, Inr ())"
  using assms by (simp add: finalizeOutput_def)

text \<open>What the first loop leaves in its accumulator for a fixed output that has been
  produced.\<close>

lemma scanned_fixed:
  assumes inv: "scanInv P W b acc"
    and stats: "\<forall>m stt. map_of (outputStats acc) m = Some stt \<longrightarrow>
        (\<exists>sp. map_of (scratchOutputs b) m = Some sp \<and> maybeLstat W (actualPathOf P b sp) = Some stt)"
    and n: "n \<in> set (outputsToSort acc)" and pr: "fixedOutputProduced P W b n"
  obtains (skipped) ca sp p where
      "map_of (drvOutputs P) n = Some (CAFixed ca)" "map_of (scratchOutputs b) n = Some sp"
      "map_of (outputReferencesIfUnregistered acc) n = Some (AlreadyRegistered p)"
      "alreadyValid P n" "buildMode P \<noteq> bmCheck"
  | (wanted) ca sp stt where
      "map_of (drvOutputs P) n = Some (CAFixed ca)" "map_of (scratchOutputs b) n = Some sp"
      "map_of (outputReferencesIfUnregistered acc) n = Some (PerhapsNeedToRegister [])"
      "map_of (outputStats acc) n = Some stt"
      "getFileIngestionMethod (ca_method ca) = fimFlat \<longrightarrow>
         S_ISREG (st_mode stt) \<and> and (st_mode stt) S_IXUSR = 0"
      "buildMode P = bmCheck \<or> \<not> alreadyValid P n"
proof -
  from pr obtain ca sp ini where f: "map_of (drvOutputs P) n = Some (CAFixed ca)"
    "map_of (scratchOutputs b) n = Some sp" "map_of (initialOutputs P) n = Some ini"
    and d: "\<not> wantedOutput P ini \<or>
     (\<exists>stt. maybeLstat W (actualPathOf P b sp) = Some stt \<and> \<not> suspiciousOwnership P b stt \<and>
        (getFileIngestionMethod (ca_method ca) = fimFlat \<longrightarrow>
           S_ISREG (st_mode stt) \<and> and (st_mode stt) S_IXUSR = 0) \<and>
        outputReferences P W b n (actualPathOf P b sp) = [])"
    by (rule fixedOutputProduced_cases)
  from inv n obtain r where r: "map_of (outputReferencesIfUnregistered acc) n = Some r"
    unfolding scanInv_def by auto
  show ?thesis
  proof (cases r)
    case (AlreadyRegistered p)
    from scanInv_skipped [OF inv r [unfolded AlreadyRegistered]] f r AlreadyRegistered
    show ?thesis by (intro skipped) simp_all
  next
    case (PerhapsNeedToRegister refs)
    note r = r [unfolded PerhapsNeedToRegister]
    from scanInv_refs [OF inv r f(2)] f(3)
    have refs: "refs = outputReferences P W b n (actualPathOf P b sp)" and w: "wantedOutput P ini"
      by auto
    from w d obtain stt where l: "maybeLstat W (actualPathOf P b sp) = Some stt"
      and fl: "getFileIngestionMethod (ca_method ca) = fimFlat \<longrightarrow>
           S_ISREG (st_mode stt) \<and> and (st_mode stt) S_IXUSR = 0"
      and e: "outputReferences P W b n (actualPathOf P b sp) = []" by blast
    from inv r have "entryOK P W b (outputStats acc) n (PerhapsNeedToRegister refs)"
      unfolding scanInv_def by blast
    then obtain stt' where s': "map_of (outputStats acc) n = Some stt'"
      unfolding entryOK_def by auto
    with stats f(2) l have "stt' = stt" by fastforce
    with s' have s: "map_of (outputStats acc) n = Some stt" by simp
    from w wantedOutput_iff [OF f(3)] have wn: "buildMode P = bmCheck \<or> \<not> alreadyValid P n" by simp
    from f r refs e s fl wn show ?thesis by (intro wanted) simp_all
  qed
qed

lemma finalizeOutputs_fixed_succeeds:
  assumes m: "buildMode P \<noteq> bmCheck" and inv: "scanInv P W b acc"
    and stats: "\<forall>m stt. map_of (outputStats acc) m = Some stt \<longrightarrow>
        (\<exists>sp. map_of (scratchOutputs b) m = Some sp \<and> maybeLstat W (actualPathOf P b sp) = Some stt)"
    and names: "\<forall>n \<in> set names. n \<in> set (outputsToSort acc) \<and> fixedOutputProduced P W b n"
  shows "\<exists>s2. finalizeOutputs P W b acc names s = (s2, Inr ())"
  using names
proof (induction names arbitrary: s)
  case Nil
  then show ?case by simp
next
  case (Cons n names)
  from Cons.prems have n: "n \<in> set (outputsToSort acc)" "fixedOutputProduced P W b n" by simp_all
  from inv stats n have "\<exists>s1. finalizeOutput P W b acc n s = (s1, Inr ())"
  proof (cases rule: scanned_fixed)
    case (skipped ca sp p)
    from finalizeOutput_skipped_succeeds [OF skipped(1,2,3)] show ?thesis .
  next
    case (wanted ca sp stt)
    from finalizeOutput_fixed_succeeds [OF m wanted(1,2,3,4,5)] show ?thesis .
  qed
  then obtain s1 where f: "finalizeOutput P W b acc n s = (s1, Inr ())" by blast
  from Cons.prems have "\<forall>n \<in> set names. n \<in> set (outputsToSort acc) \<and> fixedOutputProduced P W b n"
    by simp
  from Cons.IH [OF this, of s1] f show ?case by simp
qed

text \<open>The second loop of a build that is not a check build, over fixed outputs that have
  been produced: every output that was not valid is recorded under the path made from the
  hash that was found, and the delayed exception is the mismatch of one of these outputs,
  if one of them has a mismatch.\<close>

lemma finalizeOutputs_fixed_result:
  assumes m: "buildMode P \<noteq> bmCheck" and inv: "scanInv P W b acc"
    and stats: "\<forall>m stt. map_of (outputStats acc) m = Some stt \<longrightarrow>
        (\<exists>sp. map_of (scratchOutputs b) m = Some sp \<and> maybeLstat W (actualPathOf P b sp) = Some stt)"
    and run: "finalizeOutputs P W b acc names s = (s2, Inr u)"
    and d: "distinct names"
    and names: "\<forall>n \<in> set names. n \<in> set (outputsToSort acc) \<and> fixedOutputProduced P W b n"
    and start: "infos s = []" "delayedException s = None"
  shows "(\<forall>n ca sp. n \<in> set names \<and> map_of (drvOutputs P) n = Some (CAFixed ca) \<and>
            map_of (scratchOutputs b) n = Some sp \<and> \<not> alreadyValid P n \<longrightarrow>
            (\<exists>i. (n, i) \<in> set (infos s2) \<and> vpi_path i = fixedPathOf P W b n ca sp)) \<and>
     ((\<exists>n ca sp. n \<in> set names \<and> map_of (drvOutputs P) n = Some (CAFixed ca) \<and>
            map_of (scratchOutputs b) n = Some sp \<and> \<not> alreadyValid P n \<and>
            ca_hash ca \<noteq> gotHash P W b ca sp \<and>
            delayedException s2 = Some (mismatchOf P W b ca sp)) \<or>
      (delayedException s2 = None \<and>
       \<not> (\<exists>n ca sp. n \<in> set names \<and> map_of (drvOutputs P) n = Some (CAFixed ca) \<and>
            map_of (scratchOutputs b) n = Some sp \<and> \<not> alreadyValid P n \<and>
            ca_hash ca \<noteq> gotHash P W b ca sp)))"
proof -
  let ?rec = "\<lambda>pre t. \<forall>n ca sp. n \<in> set pre \<and> map_of (drvOutputs P) n = Some (CAFixed ca) \<and>
            map_of (scratchOutputs b) n = Some sp \<and> \<not> alreadyValid P n \<longrightarrow>
            (\<exists>i. (n, i) \<in> set (infos t) \<and> vpi_path i = fixedPathOf P W b n ca sp)"
  let ?bad = "\<lambda>pre. \<exists>n ca sp. n \<in> set pre \<and> map_of (drvOutputs P) n = Some (CAFixed ca) \<and>
            map_of (scratchOutputs b) n = Some sp \<and> \<not> alreadyValid P n \<and>
            ca_hash ca \<noteq> gotHash P W b ca sp"
  let ?del = "\<lambda>pre t. (\<exists>n ca sp. n \<in> set pre \<and> map_of (drvOutputs P) n = Some (CAFixed ca) \<and>
            map_of (scratchOutputs b) n = Some sp \<and> \<not> alreadyValid P n \<and>
            ca_hash ca \<noteq> gotHash P W b ca sp \<and>
            delayedException t = Some (mismatchOf P W b ca sp)) \<or>
      (delayedException t = None \<and> \<not> ?bad pre)"
  have "fst ` set (infos s2) \<subseteq> set names \<and> ?rec names s2 \<and> ?del names s2"
    using run
  proof (rule finalizeOutputs_prefix_invariant
      [where I = "\<lambda>pre t. fst ` set (infos t) \<subseteq> set pre \<and> ?rec pre t \<and> ?del pre t"])
    show "fst ` set (infos s) \<subseteq> set [] \<and> ?rec [] s \<and> ?del [] s" by (simp add: start)
  next
    fix pre n post t t1
    assume split: "names = pre @ n # post"
      and i: "fst ` set (infos t) \<subseteq> set pre \<and> ?rec pre t \<and> ?del pre t"
      and f: "finalizeOutput P W b acc n t = (t1, Inr ())"
    from i have k0: "fst ` set (infos t) \<subseteq> set pre" and k1: "?rec pre t" and k2: "?del pre t"
      by blast+
    from d split have np: "n \<notin> set pre" by simp
    from names split have n: "n \<in> set (outputsToSort acc)" "fixedOutputProduced P W b n" by simp_all
    from inv stats n
    show "fst ` set (infos t1) \<subseteq> set (pre @ [n]) \<and> ?rec (pre @ [n]) t1 \<and> ?del (pre @ [n]) t1"
    proof (cases rule: scanned_fixed)
      case (skipped ca sp p)
      from f m have "infos t1 = infos t \<and> delayedException t1 = delayedException t"
      proof (cases rule: finalizeOutput_success_normal)
        case (skipped out1 sp1 p1)
        then show ?thesis by simp
      next
        case (recorded out1 sp1 refs s' info)
        with skipped(3) show ?thesis by simp
      qed
      then have t1: "infos t1 = infos t" "delayedException t1 = delayedException t" by simp_all
      have a: "fst ` set (infos t1) \<subseteq> set (pre @ [n])" using k0 t1 by auto
      have b: "?rec (pre @ [n]) t1" using k1 t1 skipped(4) by auto
      have "?bad (pre @ [n]) = ?bad pre" using skipped(4) by auto
      with k2 t1 have c: "?del (pre @ [n]) t1" by auto
      from a b c show ?thesis by blast
    next
      case (wanted ca sp stt)
      from wanted(6) m have nv: "\<not> alreadyValid P n" by simp
      from computeNewInfo_fixed_succeeds [OF wanted(4,5)] obtain s0 info0 where
        c0: "computeNewInfo P W acc n (CAFixed ca) sp (actualPathOf P b sp) [] t = (s0, Inr info0)"
        and p0: "vpi_path info0 = fixedPathOf P W b n ca sp" by blast
      from f m have inf: "infos t1 = emplace n (recordedInfo P info0) (infos t)"
      proof (cases rule: finalizeOutput_success_normal)
        case (skipped out1 sp1 p1)
        with wanted(3) show ?thesis by simp
      next
        case (recorded out1 sp1 refs s' info)
        with wanted(1,2,3) have "out1 = CAFixed ca" "sp1 = sp" "refs = []" by simp_all
        with recorded(4) c0 have "info = info0" by simp
        with recorded(5) show ?thesis by simp
      qed
      from finalizeOutput_delayed_fixed [OF f wanted(1,2,3)]
      have del: "delayedException t1 =
          (if ca_hash ca \<noteq> gotHash P W b ca sp then Some (mismatchOf P W b ca sp)
           else delayedException t)" .
      from k0 np have "n \<notin> fst ` set (infos t)" by auto
      then have set1: "set (infos t1) = insert (n, recordedInfo P info0) (set (infos t))"
        by (simp add: inf emplace_def)
      have a: "fst ` set (infos t1) \<subseteq> set (pre @ [n])" using k0 set1 by auto
      have b: "?rec (pre @ [n]) t1"
      proof (intro allI impI, elim conjE)
        fix k ca' sp'
        assume k: "k \<in> set (pre @ [n])" "map_of (drvOutputs P) k = Some (CAFixed ca')"
          "map_of (scratchOutputs b) k = Some sp'" "\<not> alreadyValid P k"
        show "\<exists>i. (k, i) \<in> set (infos t1) \<and> vpi_path i = fixedPathOf P W b k ca' sp'"
        proof (cases "k = n")
          case True
          with k wanted(1,2) have "ca' = ca" "sp' = sp" by simp_all
          with True p0 set1 show ?thesis
            by (intro exI [of _ "recordedInfo P info0"]) simp
        next
          case False
          with k have "k \<in> set pre" by simp
          with k1 k(2,3,4) obtain i where "(k, i) \<in> set (infos t)"
            "vpi_path i = fixedPathOf P W b k ca' sp'" by blast
          with set1 show ?thesis by auto
        qed
      qed
      have c: "?del (pre @ [n]) t1"
      proof (cases "ca_hash ca \<noteq> gotHash P W b ca sp")
        case True
        with del wanted(1,2) nv show ?thesis
          by (intro disjI1 exI [of _ n] exI [of _ ca] exI [of _ sp]) simp
      next
        case False
        with del have e: "delayedException t1 = delayedException t" by simp
        from False wanted(1,2) have "?bad (pre @ [n]) = ?bad pre" by auto
        with k2 e show ?thesis by auto
      qed
      from a b c show ?thesis by blast
    qed
  qed
  then show ?thesis by blast
qed

subsection \<open>The infos that the second loop registers\<close>

lemma finalizeOutputs_append:
  "finalizeOutputs P W b acc (xs @ ys) st =
     (case finalizeOutputs P W b acc xs st of
        (s, Inl e) \<Rightarrow> (s, Inl e)
      | (s, Inr u) \<Rightarrow> finalizeOutputs P W b acc ys s)"
  by (induction xs arbitrary: st) (auto split: prod.splits sum.splits)

text \<open>An invariant of the second loop, where each step knows the part of the loop that
  has been run before it.\<close>

lemma finalizeOutputs_run_invariant:
  assumes run: "finalizeOutputs P W b acc names st = (st', r)"
    and base: "I st"
    and step: "\<And>pre n post s s1 r1. names = pre @ n # post \<Longrightarrow>
           finalizeOutputs P W b acc pre st = (s, Inr ()) \<Longrightarrow> I s \<Longrightarrow>
           finalizeOutput P W b acc n s = (s1, r1) \<Longrightarrow> I s1"
  shows "I st'"
proof -
  have "finalizeOutputs P W b acc rest s = (st', r) \<Longrightarrow>
        finalizeOutputs P W b acc ds st = (s, Inr ()) \<Longrightarrow> I s \<Longrightarrow> names = ds @ rest \<Longrightarrow>
        I st'" for rest ds s
  proof (induction rest arbitrary: ds s)
    case Nil
    then show ?case by simp
  next
    case (Cons n rest)
    obtain s1 r1 where f: "finalizeOutput P W b acc n s = (s1, r1)"
      by (cases "finalizeOutput P W b acc n s")
    from step [OF Cons.prems(4) Cons.prems(2) Cons.prems(3) f] have i1: "I s1" .
    show ?case
    proof (cases r1)
      case (Inl e)
      with Cons.prems(1) f have "st' = s1" by simp
      with i1 show ?thesis by simp
    next
      case (Inr u)
      with Cons.prems(1) f have rest: "finalizeOutputs P W b acc rest s1 = (st', r)" by simp
      from Cons.prems(2) f Inr have pre: "finalizeOutputs P W b acc (ds @ [n]) st = (s1, Inr ())"
        by (simp add: finalizeOutputs_append)
      from Cons.IH [OF rest pre i1] Cons.prems(4) show ?thesis by simp
    qed
  qed
  from this [OF run, of "[]"] base show ?thesis by simp
qed

lemma takeWhile_prefix:
  "n \<notin> set pre \<Longrightarrow> takeWhile (\<lambda>m. m \<noteq> n) (pre @ n # post) = pre"
  by (induction pre) auto

lemma stateBefore_prefix:
  assumes "distinct (pre @ n # post)" and "finalizeOutputs P W b acc pre st1 = (s, r)"
  shows "stateBefore P W b acc (pre @ n # post) st1 n = s"
  using assms by (simp add: stateBefore_def takeWhile_prefix)

text \<open>In a build that is not a check build, what the second loop records and registers
  are infos made from the scanned references, rewritten with \<^verbatim>\<open>outputRewrites\<close>.\<close>

lemma finalizeOutputs_scanned:
  assumes inv: "scanInv P W b acc" and run: "finalizeOutputs P W b acc names st1 = (s2, rf)"
    and m: "buildMode P \<noteq> bmCheck" and d: "distinct names" and start: "infos st1 = []"
  shows "(\<forall>n i. (n, i) \<in> set (infos s2) \<longrightarrow>
            n \<in> set names \<and> scannedInfo P W b acc names st1 n i \<and> reachedOutput P W b acc names st1 n) \<and>
     (\<exists>new. batchesOf (ops s2) = batchesOf (ops st1) @ new \<and>
        (\<forall>batch \<in> set new. \<forall>(p, i) \<in> set batch.
           p = vpi_path i \<and> (\<exists>n \<in> set names. scannedInfo P W b acc names st1 n i \<and> reachedOutput P W b acc names st1 n)))"
  using run
proof (rule finalizeOutputs_run_invariant
    [where I = "\<lambda>t. (\<forall>n i. (n, i) \<in> set (infos t) \<longrightarrow>
            n \<in> set names \<and> scannedInfo P W b acc names st1 n i \<and> reachedOutput P W b acc names st1 n) \<and>
     (\<exists>new. batchesOf (ops t) = batchesOf (ops st1) @ new \<and>
        (\<forall>batch \<in> set new. \<forall>(p, i) \<in> set batch.
           p = vpi_path i \<and> (\<exists>n \<in> set names. scannedInfo P W b acc names st1 n i \<and> reachedOutput P W b acc names st1 n)))"])
  show "(\<forall>n i. (n, i) \<in> set (infos st1) \<longrightarrow>
            n \<in> set names \<and> scannedInfo P W b acc names st1 n i \<and> reachedOutput P W b acc names st1 n) \<and>
     (\<exists>new. batchesOf (ops st1) = batchesOf (ops st1) @ new \<and>
        (\<forall>batch \<in> set new. \<forall>(p, i) \<in> set batch.
           p = vpi_path i \<and> (\<exists>n \<in> set names. scannedInfo P W b acc names st1 n i \<and> reachedOutput P W b acc names st1 n)))"
    by (simp add: start)
next
  fix pre n post t t1 r1
  assume split: "names = pre @ n # post"
    and pre: "finalizeOutputs P W b acc pre st1 = (t, Inr ())"
    and i: "(\<forall>n i. (n, i) \<in> set (infos t) \<longrightarrow>
            n \<in> set names \<and> scannedInfo P W b acc names st1 n i \<and> reachedOutput P W b acc names st1 n) \<and>
     (\<exists>new. batchesOf (ops t) = batchesOf (ops st1) @ new \<and>
        (\<forall>batch \<in> set new. \<forall>(p, i) \<in> set batch.
           p = vpi_path i \<and> (\<exists>n \<in> set names. scannedInfo P W b acc names st1 n i \<and> reachedOutput P W b acc names st1 n)))"
    and f: "finalizeOutput P W b acc n t = (t1, r1)"
  from split have nn: "n \<in> set names" by simp
  from i obtain new where new: "batchesOf (ops t) = batchesOf (ops st1) @ new"
    "\<forall>batch \<in> set new. \<forall>(p, i) \<in> set batch.
           p = vpi_path i \<and> (\<exists>n \<in> set names. scannedInfo P W b acc names st1 n i \<and> reachedOutput P W b acc names st1 n)" by blast
  show "(\<forall>n i. (n, i) \<in> set (infos t1) \<longrightarrow>
            n \<in> set names \<and> scannedInfo P W b acc names st1 n i \<and> reachedOutput P W b acc names st1 n) \<and>
     (\<exists>new. batchesOf (ops t1) = batchesOf (ops st1) @ new \<and>
        (\<forall>batch \<in> set new. \<forall>(p, i) \<in> set batch.
           p = vpi_path i \<and> (\<exists>n \<in> set names. scannedInfo P W b acc names st1 n i \<and> reachedOutput P W b acc names st1 n)))"
  proof (cases r1)
    case (Inl e)
    from finalizeOutput_error [OF f [unfolded Inl]]
    have "infos t1 = infos t" "batchesOf (ops t1) = batchesOf (ops t)"
      by (simp_all add: sameStore_def)
    with i show ?thesis by simp
  next
    case (Inr u)
    from f [unfolded Inr] m show ?thesis
    proof (cases rule: finalizeOutput_success_normal)
      case (skipped out sp p)
      with i show ?thesis by simp
    next
      case (recorded out sp refs s' info)
      from scanInv_refs [OF inv recorded(3) recorded(2)]
      have refs: "refs = outputReferences P W b n (actualPathOf P b sp)" by simp
      from d pre have sb: "stateBefore P W b acc names st1 n = t"
        unfolding split by (rule stateBefore_prefix)
      from recorded(4) have rw: "rewritesFor P W b acc names st1 n = outputRewrites s'"
        by (simp add: rewritesFor_def recorded(1,2) sb refs [symmetric])
      from d pre have re: "reachedOutput P W b acc names st1 n"
        unfolding split by (simp add: reachedOutput_def takeWhile_prefix)
      from computeNewInfo_references [OF recorded(4)] re
      have sc: "scannedInfo P W b acc names st1 n (recordedInfo P info) \<and>
          reachedOutput P W b acc names st1 n"
        by (simp add: scannedInfo_def recorded(2) rw refs [symmetric])
      have a: "k \<in> set names \<and> scannedInfo P W b acc names st1 k j \<and> reachedOutput P W b acc names st1 k"
        if "(k, j) \<in> set (infos t1)" for k j
      proof (cases "(k, j) \<in> set (infos t)")
        case True
        with i show ?thesis by blast
      next
        case False
        with that emplace_set [of n "recordedInfo P info" "infos t"]
        have "k = n" "j = recordedInfo P info" by (auto simp: recorded(5))
        with sc nn show ?thesis by simp
      qed
      define extra where "extra =
        (if vpi_ca info \<noteq> None then [[(vpi_path info, recordedInfo P info)]] else [])"
      have b1: "batchesOf (ops t1) = batchesOf (ops st1) @ (new @ extra)"
        using recorded(6) new(1) by (simp add: extra_def)
      have b2: "\<forall>batch \<in> set (new @ extra). \<forall>(p, i) \<in> set batch.
           p = vpi_path i \<and> (\<exists>n \<in> set names. scannedInfo P W b acc names st1 n i \<and> reachedOutput P W b acc names st1 n)"
        using new(2) sc nn by (auto simp: extra_def)
      from a b1 b2 show ?thesis by blast
    qed
  qed
qed

subsection \<open>The table with which the scanned references are rewritten\<close>

lemma scanInv_scratch:
  assumes inv: "scanInv P W b acc" and n: "n \<in> set (outputsToSort acc)"
  shows "map_of (scratchOutputs b) n \<noteq> None"
proof -
  from inv n obtain r where "map_of (outputReferencesIfUnregistered acc) n = Some r"
    unfolding scanInv_def by auto
  with inv have "entryOK P W b (outputStats acc) n r" unfolding scanInv_def by blast
  then show ?thesis unfolding entryOK_def by auto
qed

lemma sortedOutputNames_order:
  assumes items: "set (outputsToSort acc) = fst ` set (drvOutputs P)"
    and so: "sortedOutputNames P b acc = Inr names" and e: "(A, B) \<in> outputGraph P b acc"
  shows "comesBefore names B A"
proof -
  from so obtain order where
    t: "topoSort (outputsToSort acc) (referencedOutputs P b acc)
      (\<lambda>path parent. CycleDetected (printStorePath (store P) (drvPath P)) path parent) = Inr order"
    and n: "names = rev order"
    by (auto simp: sortedOutputNames_def split: sum.splits)
  from topoSort_success [OF t]
  have d: "distinct order"
    and c: "\<And>x y. (x, y) \<in> edges (outputsToSort acc) (referencedOutputs P b acc) \<Longrightarrow>
       x \<in> set (outputsToSort acc) \<Longrightarrow> comesBefore order x y"
    by blast+
  from e edges_outputGraph [OF items, of b]
  have "(A, B) \<in> edges (outputsToSort acc) (referencedOutputs P b acc)"
    "A \<in> set (outputsToSort acc)" by blast+
  from c [OF this] comesBefore_rev [OF d] show ?thesis by (simp add: n)
qed

text \<open>The rewrites of the hash parts that are not the hash part of the scratch path of
  an output stay as they were.\<close>

lemma finalizeOutputs_rewrites_other:
  assumes run: "finalizeOutputs P W b acc names s = (s2, Inr u)" and m: "buildMode P \<noteq> bmCheck"
    and sc: "\<forall>n \<in> set names. map_of (scratchOutputs b) n \<noteq> None"
    and h: "h \<notin> hashPart ` snd ` set (scratchOutputs b)"
  shows "map_of (outputRewrites s2) h = map_of (outputRewrites s) h"
  using run
proof (rule finalizeOutputs_prefix_invariant
    [where I = "\<lambda>pre t. map_of (outputRewrites t) h = map_of (outputRewrites s) h"])
  show "map_of (outputRewrites s) h = map_of (outputRewrites s) h" by simp
next
  fix pre k post t t1
  assume split: "names = pre @ k # post"
    and i: "map_of (outputRewrites t) h = map_of (outputRewrites s) h"
    and f: "finalizeOutput P W b acc k t = (t1, Inr ())"
  from split sc obtain spk where spk: "map_of (scratchOutputs b) k = Some spk" by auto
  then have "(k, spk) \<in> set (scratchOutputs b)" by (rule map_of_SomeD)
  then have "hashPart spk \<in> hashPart ` snd ` set (scratchOutputs b)" by force
  with h have ne: "h \<noteq> hashPart spk" by blast
  from finalizeOutput_rewrites [OF f m spk] ne
  have "map_of (outputRewrites t1) h = map_of (outputRewrites t) h" by blast
  with i show "map_of (outputRewrites t1) h = map_of (outputRewrites s) h" by simp
qed

text \<open>The table with which the references of an output \<open>A\<close> are rewritten, in a build
  that is not a check build: an output that \<open>A\<close> refers to has its final path noted, and
  the table takes the hash part of its scratch path to the hash part of that final path;
  a hash part that is not the one of a scratch path is rewritten as it was when
  \<^verbatim>\<open>registerOutputs\<close> started.\<close>

lemma rewritesFor_table:
  assumes inv: "scanInv P W b acc" and items: "set (outputsToSort acc) = fst ` set (drvOutputs P)"
    and so: "sortedOutputNames P b acc = Inr names"
    and m: "buildMode P \<noteq> bmCheck"
    and re: "reachedOutput P W b acc names st1 A" and A: "A \<in> fst ` set (drvOutputs P)"
  shows "(\<forall>h. h \<notin> hashPart ` snd ` set (scratchOutputs b) \<longrightarrow>
            map_of (rewritesFor P W b acc names st1 A) h = map_of (outputRewrites st1) h) \<and>
     ((\<forall>n1 n2 p1 p2. map_of (scratchOutputs b) n1 = Some p1 \<and>
          map_of (scratchOutputs b) n2 = Some p2 \<and> n1 \<noteq> n2 \<longrightarrow> hashPart p1 \<noteq> hashPart p2) \<longrightarrow>
      (\<forall>B sp. (A, B) \<in> outputGraph P b acc \<and> map_of (scratchOutputs b) B = Some sp \<longrightarrow>
         (\<exists>fp. map_of (finalOutputs (stateBefore P W b acc names st1 A)) B = Some fp \<and>
            (sp \<noteq> fp \<longrightarrow>
               map_of (rewritesFor P W b acc names st1 A) (hashPart sp) = Some (hashPart fp)))))"
proof -
  define pre where "pre = takeWhile (\<lambda>m. m \<noteq> A) names"
  define t where "t = stateBefore P W b acc names st1 A"
  from sortedOutputNames_success [OF so] items
  have d: "distinct names" and s: "set names = fst ` set (drvOutputs P)" by simp_all
  from re have fin: "finalizeOutputs P W b acc pre st1 = (t, Inr ())"
    by (simp add: reachedOutput_def stateBefore_def pre_def t_def prod_eq_iff)
  from A s have "A \<in> set names" by simp
  then obtain ys zs where y: "names = ys @ A # zs" by (meson split_list)
  with d have "A \<notin> set ys" by simp
  then have pre: "pre = ys" unfolding pre_def y by (rule takeWhile_prefix)
  have sub: "set pre \<subseteq> set names" unfolding pre y by auto
  have sc: "\<forall>n \<in> set pre. map_of (scratchOutputs b) n \<noteq> None"
    using sub s items scanInv_scratch [OF inv] by blast
  from A obtain out where out: "map_of (drvOutputs P) A = Some out"
    by (metis domIff dom_map_of_conv_image_fst not_Some_eq)
  from A items scanInv_scratch [OF inv, of A] obtain spA where
    spA: "map_of (scratchOutputs b) A = Some spA" by auto
  obtain s' rc where c: "computeNewInfo P W acc A out spA (actualPathOf P b spA)
       (outputReferences P W b A (actualPathOf P b spA)) t = (s', rc)"
    by (cases "computeNewInfo P W acc A out spA (actualPathOf P b spA)
       (outputReferences P W b A (actualPathOf P b spA)) t")
  have rw: "rewritesFor P W b acc names st1 A = outputRewrites s'"
    by (simp add: rewritesFor_def out spA c t_def [symmetric])
  have other: "map_of (rewritesFor P W b acc names st1 A) h = map_of (outputRewrites st1) h"
    if h: "h \<notin> hashPart ` snd ` set (scratchOutputs b)" for h
  proof -
    from spA have "(A, spA) \<in> set (scratchOutputs b)" by (rule map_of_SomeD)
    then have "hashPart spA \<in> hashPart ` snd ` set (scratchOutputs b)" by force
    with h have "h \<noteq> hashPart spA" by blast
    from computeNewInfo_rewrites [OF c this] finalizeOutputs_rewrites_other [OF fin m sc h]
    show ?thesis by (simp add: rw)
  qed
  have ref: "\<exists>fp. map_of (finalOutputs t) B = Some fp \<and>
      (sp \<noteq> fp \<longrightarrow> map_of (rewritesFor P W b acc names st1 A) (hashPart sp) = Some (hashPart fp))"
    if inj: "\<forall>n1 n2 p1 p2. map_of (scratchOutputs b) n1 = Some p1 \<and>
          map_of (scratchOutputs b) n2 = Some p2 \<and> n1 \<noteq> n2 \<longrightarrow> hashPart p1 \<noteq> hashPart p2"
      and e: "(A, B) \<in> outputGraph P b acc" and sp: "map_of (scratchOutputs b) B = Some sp"
    for B sp
  proof -
    from e have ne: "B \<noteq> A" by (simp add: outputGraph_def)
    from sortedOutputNames_order [OF items so e] obtain us ws where
      u: "names = us @ A # ws" "B \<in> set us" unfolding comesBefore_def by blast
    from d u(1) have "A \<notin> set us" by simp
    then have "pre = us" unfolding pre_def u(1) by (rule takeWhile_prefix)
    with u(2) have Bp: "B \<in> set pre" by simp
    from finalizeOutputs_rewrites [OF fin m sc inj] Bp sp obtain fp where
      fp: "map_of (finalOutputs t) B = Some fp"
        "sp \<noteq> fp \<longrightarrow> map_of (outputRewrites t) (hashPart sp) = Some (hashPart fp)" by blast
    from inj sp spA ne have "hashPart sp \<noteq> hashPart spA" by blast
    from computeNewInfo_rewrites [OF c this] fp show ?thesis by (auto simp: rw)
  qed
  from other ref show ?thesis unfolding t_def by blast
qed

subsection \<open>C8: existence and ownership of the outputs\<close>

text \<open>
  C8, as the code has it. For an output that has to be registered (the build is a check
  build, or the output's final path is not known to be valid), on a platform other than
  Cygwin: the scratch path is \<^verbatim>\<open>lstat\<close>ed; the first loop throws when the path
  is missing; it throws when the path is not a symlink and its mode has the group-write
  or the other-write bit (bits 4 and 1), or when a build user is in use and is not the
  owner; otherwise the path is canonicalised next. In the first two cases
  \<^verbatim>\<open>registerOutputs\<close> fails. A symlink is accepted whatever its mode bits.
\<close>

theorem C8_existence_and_ownership:
  assumes sc: "map_of (scratchOutputs b) n = Some scratchPath"
    and ini: "map_of (initialOutputs P) n = Some initialInfo"
    and wanted: "buildMode P = bmCheck \<or> (\<forall>k. io_known initialInfo = Some k \<longrightarrow> \<not> isValid k)"
    and plat: "platform P \<noteq> Cygwin"
    and ap: "actualPath = toRealPathChroot P b (printStorePath (store P) scratchPath)"
  shows
    "(maybeLstat W actualPath = None \<longrightarrow>
        scanOutput P W b n acc st =
          (st, Inl (FailedToProduceOutput (printStorePath (store P) (drvPath P)) n actualPath))) \<and>
     (\<forall>stt. maybeLstat W actualPath = Some stt \<longrightarrow>
        (if (\<not> S_ISLNK (st_mode stt) \<and> (bit (st_mode stt) 4 \<or> bit (st_mode stt) 1)) \<or>
            (\<exists>u. buildUser b = Some u \<and> st_uid stt \<noteq> getUID u)
         then scanOutput P W b n acc st = (st, Inl (SuspiciousOwnership actualPath n))
         else (\<exists>acc'. scanOutput P W b n acc st =
                 (st\<lparr>ops := ops st @ [Canonicalise actualPath (buildUser b)]\<rparr>, Inr acc')))) \<and>
     ((maybeLstat W actualPath = None \<or>
       (\<exists>stt. maybeLstat W actualPath = Some stt \<and>
          ((\<not> S_ISLNK (st_mode stt) \<and> (bit (st_mode stt) 4 \<or> bit (st_mode stt) 1)) \<or>
           (\<exists>u. buildUser b = Some u \<and> st_uid stt \<noteq> getUID u)))) \<longrightarrow>
      (\<forall>out. (n, out) \<in> set (drvOutputs P) \<longrightarrow> (\<exists>e. snd (registerOutputs P W b st) = Inl e)))"
proof -
  have w: "wantedOutput P initialInfo"
    using wanted by (auto simp: wantedOutput_def split: option.splits)
  have susp: "suspiciousOwnership P b stt =
      ((\<not> S_ISLNK (st_mode stt) \<and> (bit (st_mode stt) 4 \<or> bit (st_mode stt) 1)) \<or>
       (\<exists>u. buildUser b = Some u \<and> st_uid stt \<noteq> getUID u))" for stt
    using plat by (auto simp: suspiciousOwnership_def mode_bits split: option.splits)
  have A: "scanOutput P W b n acc st =
          (st, Inl (FailedToProduceOutput (printStorePath (store P) (drvPath P)) n actualPath))"
    if "maybeLstat W actualPath = None" for acc st
    using that sc ini w by (simp add: scan_defs ap [symmetric])
  have B: "scanOutput P W b n acc st = (st, Inl (SuspiciousOwnership actualPath n))"
    if "maybeLstat W actualPath = Some stt" "suspiciousOwnership P b stt" for stt acc st
    using that sc ini w by (simp add: scan_defs ap [symmetric])
  have C: "\<exists>acc'. scanOutput P W b n acc st =
                 (st\<lparr>ops := ops st @ [Canonicalise actualPath (buildUser b)]\<rparr>, Inr acc')"
    if "maybeLstat W actualPath = Some stt" "\<not> suspiciousOwnership P b stt" for stt
    using that sc ini w by (simp add: scan_defs ap [symmetric])
  have D: "\<exists>e. snd (registerOutputs P W b st) = Inl e"
    if "(n, out) \<in> set (drvOutputs P)"
      and "maybeLstat W actualPath = None \<or>
       (\<exists>stt. maybeLstat W actualPath = Some stt \<and> suspiciousOwnership P b stt)" for out
  proof -
    from that(2) A [of acc st] B [of _ acc st]
    obtain e where "snd (scanOutput P W b n acc st) = Inl e" by force
    from registerOutputs_scan_error [OF that(1) this] show ?thesis .
  qed
  show ?thesis
    using A B C D unfolding susp [symmetric] by (auto split: if_splits)
qed

text \<open>Witness: the output \<open>dev\<close> of the example is not known to be valid. A regular
  file with mode 0664 is rejected; a symlink with mode 0777 is canonicalised.\<close>

theorem C8_existence_and_ownership_witness:
  "scanOutput exParams (exFsWorld \<lparr>st_mode = 0x81B4, st_uid = 0\<rparr>) exScratchBuilder ''dev'' exScanAcc exRegState =
     (exRegState, Inl (SuspiciousOwnership ''/nix/store/sd-foo-dev'' ''dev'')) \<and>
   (\<exists>acc'. scanOutput exParams (exFsWorld \<lparr>st_mode = 0xA1FF, st_uid = 0\<rparr>) exScratchBuilder ''dev'' exScanAcc exRegState =
     (exRegState\<lparr>ops := ops exRegState @ [Canonicalise ''/nix/store/sd-foo-dev'' None]\<rparr>, Inr acc'))"
proof -
  have sc: "map_of (scratchOutputs exScratchBuilder) ''dev'' = Some (StorePath ''sd'' ''foo-dev'')"
    by (simp add: exScratchBuilder_def)
  have ini: "map_of (initialOutputs exParams) ''dev'' =
      Some \<lparr>io_wanted = True, io_outputHash = zeroHash, io_known = None\<rparr>"
    by (simp add: exParams_def)
  have w: "buildMode exParams = bmCheck \<or>
      (\<forall>k. io_known \<lparr>io_wanted = True, io_outputHash = zeroHash, io_known = None\<rparr> = Some k \<longrightarrow> \<not> isValid k)"
    by simp
  have pl: "platform exParams \<noteq> Cygwin" by (simp add: exParams_def)
  have ap: "''/nix/store/sd-foo-dev'' =
      toRealPathChroot exParams exScratchBuilder (printStorePath (store exParams) (StorePath ''sd'' ''foo-dev''))"
    by (simp add: toRealPathChroot_def exParams_def exStore_def exScratchBuilder_def exBuilder_def to_string_def)
  have bu: "buildUser exScratchBuilder = None"
    by (simp add: exScratchBuilder_def exBuilder_def)
  have b1: "bit (0x81B4 :: 32 word) 4" by (simp add: bit_iff_odd_drop_bit)
  have l1: "S_ISLNK (0xA1FF :: 32 word)" "\<not> S_ISLNK (0x81B4 :: 32 word)"
    by (simp_all add: S_ISLNK_def S_IFMT_def S_IFLNK_def)
  from C8_existence_and_ownership [OF sc ini w pl ap, of "exFsWorld \<lparr>st_mode = 0x81B4, st_uid = 0\<rparr>" exScanAcc exRegState]
  have A: "scanOutput exParams (exFsWorld \<lparr>st_mode = 0x81B4, st_uid = 0\<rparr>) exScratchBuilder ''dev'' exScanAcc exRegState =
     (exRegState, Inl (SuspiciousOwnership ''/nix/store/sd-foo-dev'' ''dev''))"
    using b1 l1 by (simp add: exFsWorld_def)
  from C8_existence_and_ownership [OF sc ini w pl ap, of "exFsWorld \<lparr>st_mode = 0xA1FF, st_uid = 0\<rparr>" exScanAcc exRegState]
  have B: "\<exists>acc'. scanOutput exParams (exFsWorld \<lparr>st_mode = 0xA1FF, st_uid = 0\<rparr>) exScratchBuilder ''dev'' exScanAcc exRegState =
     (exRegState\<lparr>ops := ops exRegState @ [Canonicalise ''/nix/store/sd-foo-dev'' None]\<rparr>, Inr acc')"
    using l1 bu by (simp add: exFsWorld_def)
  show ?thesis using A B by blast
qed


text \<open>Counterexample to C8 as stated: the output \<open>out\<close> is already valid and the
  build is not a check build. Its scratch path does not exist, and the build is accepted:
  the path is never \<^verbatim>\<open>lstat\<close>ed.\<close>

theorem C8_counterexample:
  "map_of (scratchOutputs exScratchBuilder) ''out'' = Some (StorePath ''rewrite:dddd-foo.drv:oooo-foo'' ''foo'') \<and>
   maybeLstat exNoFiles
     (toRealPathChroot exValidOut exScratchBuilder
        (printStorePath (store exValidOut) (StorePath ''rewrite:dddd-foo.drv:oooo-foo'' ''foo''))) = None \<and>
   snd (registerOutputs exValidOut exNoFiles exScratchBuilder exRegState) = Inr []"
  by (simp add: register_defs example_defs)

subsection \<open>C5: the order of finalisation\<close>

text \<open>
  C5, as the code has it. After a first loop that succeeded, the outputs are sorted along
  the graph with an edge from \<open>A\<close> to \<open>B\<close> when \<open>A\<close> is to be registered and refers
  to the scratch path of another output \<open>B\<close>. When the sort succeeds, the order of
  finalisation lists every output once, and every output comes after the outputs it refers
  to. When it fails, the error is the cycle error; it names an edge from \<open>parent\<close> to
  \<open>path\<close> such that \<open>path\<close> reaches \<open>parent\<close>. A cycle in the graph makes the sort
  fail with that error. An output that was already valid when the build started has no
  outgoing edge, unless the build is a check build. In a build that is not a check build,
  when the scratch paths of different outputs have different hash parts: at the moment at
  which the second loop comes to an output \<open>A\<close>, every output \<open>B\<close> that \<open>A\<close> refers
  to has its final path noted and the rewrite from its scratch path to its final path
  installed in \<^verbatim>\<open>outputRewrites\<close>.
\<close>

theorem C5_finalisation_order:
  assumes scan: "scanOutputs P W b (map fst (drvOutputs P))
       \<lparr>outputsToSort = [], outputReferencesIfUnregistered = [], outputStats = []\<rparr> st = (st1, Inr acc)"
  shows
    "(\<forall>names. sortedOutputNames P b acc = Inr names \<longrightarrow>
        distinct names \<and> set names = fst ` set (drvOutputs P) \<and>
        (\<forall>A B. (A, B) \<in> outputGraph P b acc \<longrightarrow> comesBefore names B A)) \<and>
     (\<forall>e. sortedOutputNames P b acc = Inl e \<longrightarrow>
        (\<exists>path parent. e = CycleDetected (printStorePath (store P) (drvPath P)) path parent \<and>
           (parent, path) \<in> outputGraph P b acc \<and> (path, parent) \<in> (outputGraph P b acc)\<^sup>*)) \<and>
     ((\<exists>A. (A, A) \<in> (outputGraph P b acc)\<^sup>+) \<longrightarrow>
        (\<exists>path parent. sortedOutputNames P b acc =
           Inl (CycleDetected (printStorePath (store P) (drvPath P)) path parent))) \<and>
     (\<forall>n B. n \<in> fst ` set (drvOutputs P) \<and> alreadyValid P n \<and> buildMode P \<noteq> bmCheck \<longrightarrow>
        (n, B) \<notin> outputGraph P b acc) \<and>
     (buildMode P \<noteq> bmCheck \<and>
      (\<forall>n1 n2 p1 p2. map_of (scratchOutputs b) n1 = Some p1 \<and>
          map_of (scratchOutputs b) n2 = Some p2 \<and> n1 \<noteq> n2 \<longrightarrow> hashPart p1 \<noteq> hashPart p2) \<longrightarrow>
        (\<forall>pre A post s B sp.
            sortedOutputNames P b acc = Inr (pre @ A # post) \<and>
            finalizeOutputs P W b acc pre st1 = (s, Inr ()) \<and>
            (A, B) \<in> outputGraph P b acc \<and> map_of (scratchOutputs b) B = Some sp \<longrightarrow>
            (\<exists>fp. map_of (finalOutputs s) B = Some fp \<and>
               (sp \<noteq> fp \<longrightarrow> map_of (outputRewrites s) (hashPart sp) = Some (hashPart fp)))))"
proof -
  let ?items = "outputsToSort acc"
  let ?gc = "referencedOutputs P b acc"
  let ?mk = "\<lambda>path parent. CycleDetected (printStorePath (store P) (drvPath P)) path parent"
  let ?G = "outputGraph P b acc"
  from scanOutputs_inv [OF scanInv_empty scan]
  have inv: "scanInv P W b acc" and items: "set ?items = fst ` set (drvOutputs P)"
    by auto
  note G = edges_outputGraph [OF items, of b]
  have sub: "edges ?items ?gc \<inter> (set ?items \<times> UNIV) = ?G" by (rule G)
  have edgeG: "(A, B) \<in> ?G" if "(A, B) \<in> edges ?items ?gc" "A \<in> set ?items" for A B
    using that sub by blast
  have edge_in: "B \<in> set ?items" if "(A, B) \<in> edges ?items ?gc" for A B
    using that by (auto simp: edges_def)
  have gc_ok: "\<exists>cs. ?gc x = Inr cs" if "x \<in> set ?items" for x
  proof -
    from inv that have "map_of (outputReferencesIfUnregistered acc) x \<noteq> None"
      unfolding scanInv_def by blast
    then show ?thesis
      by (auto simp: referencedOutputs_def split: OutputRefs.splits)
  qed
  have succ: "distinct names \<and> set names = fst ` set (drvOutputs P) \<and>
        (\<forall>A B. (A, B) \<in> ?G \<longrightarrow> comesBefore names B A)"
    if "sortedOutputNames P b acc = Inr names" for names
  proof -
    from that obtain order where t: "topoSort ?items ?gc ?mk = Inr order" and n: "names = rev order"
      by (auto simp: sortedOutputNames_def split: sum.splits)
    from topoSort_success [OF t]
    have s: "set order = set ?items" and d: "distinct order"
      and c: "\<And>x y. (x, y) \<in> edges ?items ?gc \<Longrightarrow> x \<in> set ?items \<Longrightarrow> comesBefore order x y"
      by blast+
    have "comesBefore names B A" if "(A, B) \<in> ?G" for A B
    proof -
      from that sub have "(A, B) \<in> edges ?items ?gc" "A \<in> set ?items" by blast+
      from c [OF this] comesBefore_rev [OF d] show ?thesis by (simp add: n)
    qed
    with s d items show ?thesis by (simp add: n)
  qed
  have err: "\<exists>path parent. e = ?mk path parent \<and> (parent, path) \<in> ?G \<and> (path, parent) \<in> ?G\<^sup>*"
    if "sortedOutputNames P b acc = Inl e" for e
  proof -
    from that have "topoSort ?items ?gc ?mk = Inl e"
      by (auto simp: sortedOutputNames_def split: sum.splits)
    from topoSort_error [OF this] gc_ok obtain path parent where
      e: "e = ?mk path parent" and pe: "(parent, path) \<in> edges ?items ?gc"
      and r: "(path, parent) \<in> (edges ?items ?gc)\<^sup>*"
      unfolding cycleError_def by fastforce
    from pe have pin: "path \<in> set ?items" by (rule edge_in)
    from rtrancl_closed_domain [OF r pin edge_in]
    have r': "(path, parent) \<in> ?G\<^sup>*" unfolding sub by simp
    have "parent \<in> set ?items"
    proof (cases "path = parent")
      case True
      with pin show ?thesis by simp
    next
      case False
      with r obtain w where "(w, parent) \<in> edges ?items ?gc" by (meson rtranclE)
      then show ?thesis by (rule edge_in)
    qed
    with pe have "(parent, path) \<in> ?G" by (rule edgeG)
    with e r' show ?thesis by blast
  qed
  have cyc: "\<exists>path parent. sortedOutputNames P b acc = Inl (?mk path parent)"
    if "(A, A) \<in> ?G\<^sup>+" for A
  proof (cases "sortedOutputNames P b acc")
    case (Inl e)
    with err [OF Inl] show ?thesis by blast
  next
    case (Inr names)
    then obtain order where t: "topoSort ?items ?gc ?mk = Inr order"
      by (auto simp: sortedOutputNames_def split: sum.splits)
    from topoSort_acyclic [OF t, of A] that show ?thesis unfolding sub by simp
  qed
  have leaf: "(n, B) \<notin> ?G"
    if "n \<in> fst ` set (drvOutputs P)" "alreadyValid P n" "buildMode P \<noteq> bmCheck" for n B
  proof
    assume "(n, B) \<in> ?G"
    then obtain refs where
      r: "map_of (outputReferencesIfUnregistered acc) n = Some (PerhapsNeedToRegister refs)"
      unfolding outputGraph_def refersTo_def by blast
    with inv have "entryOK P W b (outputStats acc) n (PerhapsNeedToRegister refs)"
      unfolding scanInv_def by blast
    then obtain info where "map_of (initialOutputs P) n = Some info" "wantedOutput P info"
      unfolding entryOK_def by auto
    with that(2,3) show False
      unfolding alreadyValid_def wantedOutput_def by auto
  qed
  have rew: "\<exists>fp. map_of (finalOutputs s) B = Some fp \<and>
       (sp \<noteq> fp \<longrightarrow> map_of (outputRewrites s) (hashPart sp) = Some (hashPart fp))"
    if m: "buildMode P \<noteq> bmCheck"
      and inj: "\<forall>n1 n2 p1 p2. map_of (scratchOutputs b) n1 = Some p1 \<and>
          map_of (scratchOutputs b) n2 = Some p2 \<and> n1 \<noteq> n2 \<longrightarrow> hashPart p1 \<noteq> hashPart p2"
      and so: "sortedOutputNames P b acc = Inr (pre @ A # post)"
      and fin: "finalizeOutputs P W b acc pre st1 = (s, Inr ())"
      and e: "(A, B) \<in> ?G" and sp: "map_of (scratchOutputs b) B = Some sp"
    for pre A post s B sp
  proof -
    from succ [OF so] e have d: "distinct (pre @ A # post)"
      and s: "set (pre @ A # post) = fst ` set (drvOutputs P)"
      and c: "comesBefore (pre @ A # post) B A" by blast+
    from c obtain ys zs where y: "pre @ A # post = ys @ A # zs" "B \<in> set ys"
      unfolding comesBefore_def by blast
    from d have a1: "A \<notin> set pre" by simp
    from d have "distinct (ys @ A # zs)" unfolding y(1) .
    then have a2: "A \<notin> set ys" by simp
    from split_unique [OF a1 a2 y(1)] y(2) have Bp: "B \<in> set pre" by simp
    have sc: "\<forall>n \<in> set pre. map_of (scratchOutputs b) n \<noteq> None"
    proof
      fix n
      assume "n \<in> set pre"
      with s items have "n \<in> set ?items" by auto
      with inv obtain r where "map_of (outputReferencesIfUnregistered acc) n = Some r"
        unfolding scanInv_def by auto
      with inv have "entryOK P W b (outputStats acc) n r" unfolding scanInv_def by blast
      then show "map_of (scratchOutputs b) n \<noteq> None" unfolding entryOK_def by auto
    qed
    from finalizeOutputs_rewrites [OF fin m sc inj] Bp sp show ?thesis by blast
  qed
  have last: "\<forall>pre A post s B sp.
            sortedOutputNames P b acc = Inr (pre @ A # post) \<and>
            finalizeOutputs P W b acc pre st1 = (s, Inr ()) \<and>
            (A, B) \<in> ?G \<and> map_of (scratchOutputs b) B = Some sp \<longrightarrow>
            (\<exists>fp. map_of (finalOutputs s) B = Some fp \<and>
               (sp \<noteq> fp \<longrightarrow> map_of (outputRewrites s) (hashPart sp) = Some (hashPart fp)))"
    if "buildMode P \<noteq> bmCheck \<and>
      (\<forall>n1 n2 p1 p2. map_of (scratchOutputs b) n1 = Some p1 \<and>
          map_of (scratchOutputs b) n2 = Some p2 \<and> n1 \<noteq> n2 \<longrightarrow> hashPart p1 \<noteq> hashPart p2)"
    using rew that by blast
  have first: "(\<forall>names. sortedOutputNames P b acc = Inr names \<longrightarrow>
        distinct names \<and> set names = fst ` set (drvOutputs P) \<and>
        (\<forall>A B. (A, B) \<in> ?G \<longrightarrow> comesBefore names B A)) \<and>
     (\<forall>e. sortedOutputNames P b acc = Inl e \<longrightarrow>
        (\<exists>path parent. e = ?mk path parent \<and>
           (parent, path) \<in> ?G \<and> (path, parent) \<in> ?G\<^sup>*)) \<and>
     ((\<exists>A. (A, A) \<in> ?G\<^sup>+) \<longrightarrow>
        (\<exists>path parent. sortedOutputNames P b acc = Inl (?mk path parent))) \<and>
     (\<forall>n B. n \<in> fst ` set (drvOutputs P) \<and> alreadyValid P n \<and> buildMode P \<noteq> bmCheck \<longrightarrow>
        (n, B) \<notin> ?G)"
    using succ err cyc leaf by blast
  from first last show ?thesis by (intro conjI impI) simp_all
qed

text \<open>Witness: in the example with two floating outputs, the bytes of \<open>out\<close> contain
  the hash part of the scratch path of \<open>dev\<close>: \<open>dev\<close> is finalised first, and when
  the loop comes to \<open>out\<close> the rewrite for \<open>dev\<close> is installed.\<close>

theorem C5_finalisation_order_witness:
  "scanOutputs exTwoFloating exRefWorld exScratchBuilder (map fst (drvOutputs exTwoFloating))
          exScanAcc exRegState = (exTwoScanned, Inr exTwoAcc) \<and>
   sortedOutputNames exTwoFloating exScratchBuilder exTwoAcc = Inr [''dev'', ''out''] \<and>
   distinct [''dev'', ''out''] \<and>
   set [''dev'', ''out''] = fst ` set (drvOutputs exTwoFloating) \<and>
   (''out'', ''dev'') \<in> outputGraph exTwoFloating exScratchBuilder exTwoAcc \<and>
   comesBefore [''dev'', ''out''] ''dev'' ''out'' \<and>
   buildMode exTwoFloating \<noteq> bmCheck \<and>
   snd (finalizeOutputs exTwoFloating exRefWorld exScratchBuilder exTwoAcc [''dev''] exTwoScanned) =
     Inr () \<and>
   map_of (finalOutputs (fst (finalizeOutputs exTwoFloating exRefWorld exScratchBuilder exTwoAcc
      [''dev''] exTwoScanned))) ''dev'' = Some (StorePath ''ca:ab'' ''foo-dev'') \<and>
   map_of (outputRewrites (fst (finalizeOutputs exTwoFloating exRefWorld exScratchBuilder exTwoAcc
      [''dev''] exTwoScanned))) ''sd'' = Some ''ca:ab''"
proof -
  have sc: "scanOutputs exTwoFloating exRefWorld exScratchBuilder (map fst (drvOutputs exTwoFloating))
       \<lparr>outputsToSort = [], outputReferencesIfUnregistered = [], outputStats = []\<rparr> exRegState =
     (exTwoScanned, Inr exTwoAcc)"
    by (simp add: register_defs example_defs exTwoFloating_def exRefWorld_def exTwoAcc_def
        exTwoScanned_def)
  have so: "sortedOutputNames exTwoFloating exScratchBuilder exTwoAcc = Inr [''dev'', ''out'']"
    by (simp add: register_defs example_defs exTwoFloating_def exTwoAcc_def)
  have "refersTo exTwoFloating exScratchBuilder exTwoAcc ''out'' ''dev''"
    unfolding refersTo_def
    by (intro exI [of _ "[StorePath ''sd'' ''foo-dev'']"] exI [of _ "StorePath ''sd'' ''foo-dev''"])
       (simp add: exTwoAcc_def exScratchBuilder_def exBuilder_def)
  then have g: "(''out'', ''dev'') \<in> outputGraph exTwoFloating exScratchBuilder exTwoAcc"
    by (simp add: outputGraph_def exTwoFloating_def exParams_def)
  have m: "buildMode exTwoFloating \<noteq> bmCheck" by (simp add: exTwoFloating_def exParams_def)
  have f: "snd (finalizeOutputs exTwoFloating exRefWorld exScratchBuilder exTwoAcc [''dev'']
        exTwoScanned) = Inr ()"
    "map_of (finalOutputs (fst (finalizeOutputs exTwoFloating exRefWorld exScratchBuilder exTwoAcc
      [''dev''] exTwoScanned))) ''dev'' = Some (StorePath ''ca:ab'' ''foo-dev'')"
    "map_of (outputRewrites (fst (finalizeOutputs exTwoFloating exRefWorld exScratchBuilder exTwoAcc
      [''dev''] exTwoScanned))) ''sd'' = Some ''ca:ab''"
    by (simp_all add: register_defs example_defs exTwoFloating_def exRefWorld_def exTwoAcc_def
        exTwoScanned_def example_chars)
  from C5_finalisation_order [OF sc] so sc g m f show ?thesis
    by (simp add: exScanAcc_def)
qed

text \<open>Counterexample to C5 as stated: in a check build the output \<open>out\<close>, valid when
  the build starts, is scanned like the others, and the function that gives the sort its
  edges returns \<open>dev\<close> for it. In that build \<open>dev\<close> is finalised first, and after it
  no rewrite is installed.\<close>

theorem C5_counterexample:
  "alreadyValid exTwoCheck ''out'' \<and>
   (case scanOutputs exTwoCheck exRefWorld exScratchBuilder [''dev'', ''out''] exScanAcc exRegState of
      (st1, Inl e) \<Rightarrow> False
    | (st1, Inr acc) \<Rightarrow>
        referencedOutputs exTwoCheck exScratchBuilder acc ''out'' = Inr [''dev''] \<and>
        sortedOutputNames exTwoCheck exScratchBuilder acc = Inr [''dev'', ''out''] \<and>
        (case finalizeOutputs exTwoCheck exRefWorld exScratchBuilder acc [''dev''] st1 of
           (s, r) \<Rightarrow> r = Inr () \<and> outputRewrites s = []))"
  by (simp add: register_defs example_defs exTwoCheck_def exRefWorld_def alreadyValid_def
      example_chars)

subsection \<open>C4: the delayed hash mismatch of a fixed output\<close>

text \<open>
  C4, as the code has it. Take a build that is not a check build, of a derivation all of
  whose outputs are fixed outputs that the builder has produced (each has a scratch path and
  an initial status and, unless it was valid already, a file that passes the tests of the
  two loops and in which no reference is found), with no failing output check. If one of
  the outputs that were not valid has a content hash that is not the declared one, then
  \<^verbatim>\<open>registerOutputs\<close> ends with the hash mismatch of such an output, holding the
  derivation and the two hashes in SRI form; the commit of all the infos is the last
  registration that was made; and every output that was not valid is then valid under the
  path made from the hash that was found. Conversely, whenever \<^verbatim>\<open>registerOutputs\<close>
  ends with a hash mismatch, some fixed output has a content hash that is not the declared
  one, the error holds the two hashes in SRI form, and, unless the build is a check build,
  the commit was the last registration, every output is valid or was valid before, and the
  info of that output is recorded with the hash that was found.
\<close>

theorem C4_delayed_hash_mismatch:
  assumes run: "registerOutputs P W b st0 = (st', r)"
  shows
    "(buildMode P \<noteq> bmCheck \<and>
      (\<forall>n \<in> fst ` set (drvOutputs P). fixedOutputProduced P W b n) \<and>
      (\<forall>is. checkOutputs P is = None) \<and>
      (\<exists>n ca sp. map_of (drvOutputs P) n = Some (CAFixed ca) \<and>
         map_of (scratchOutputs b) n = Some sp \<and> \<not> alreadyValid P n \<and>
         ca_hash ca \<noteq> gotHash P W b ca sp) \<longrightarrow>
        (\<exists>n ca sp. map_of (drvOutputs P) n = Some (CAFixed ca) \<and>
           map_of (scratchOutputs b) n = Some sp \<and> \<not> alreadyValid P n \<and>
           ca_hash ca \<noteq> gotHash P W b ca sp \<and>
           r = Inl (HashMismatch (printStorePath (store P) (drvPath P))
                      (hashToString P SRI True (ca_hash ca))
                      (hashToString P SRI True (gotHash P W b ca sp)))) \<and>
        (\<exists>pre. batchesOf (ops st') = pre @ [infos2Of (infos st')]) \<and>
        (\<forall>n ca sp. map_of (drvOutputs P) n = Some (CAFixed ca) \<and>
           map_of (scratchOutputs b) n = Some sp \<and> \<not> alreadyValid P n \<longrightarrow>
           isValidPath st' (fixedPathOf P W b n ca sp))) \<and>
     (\<forall>d w g. r = Inl (HashMismatch d w g) \<longrightarrow>
        (\<exists>n ca sp. map_of (drvOutputs P) n = Some (CAFixed ca) \<and>
           map_of (scratchOutputs b) n = Some sp \<and>
           ca_hash ca \<noteq> gotHash P W b ca sp \<and> d = printStorePath (store P) (drvPath P) \<and>
           w = hashToString P SRI True (ca_hash ca) \<and>
           g = hashToString P SRI True (gotHash P W b ca sp) \<and>
           (buildMode P \<noteq> bmCheck \<longrightarrow>
              (\<exists>pre. batchesOf (ops st') = pre @ [infos2Of (infos st')]) \<and>
              (\<forall>m \<in> fst ` set (drvOutputs P).
                 alreadyValid P m \<or>
                 (\<exists>i. (m, i) \<in> set (infos st') \<and> isValidPath st' (vpi_path i))) \<and>
              (\<exists>i. (n, i) \<in> set (infos st') \<and> isValidPath st' (vpi_path i) \<and>
                 vpi_ca i = Some \<lparr>ca_method = ca_method ca, ca_hash = gotHash P W b ca sp\<rparr>))))"
    (is "(?H \<longrightarrow> ?F) \<and> ?B")
proof -
  have fwd: ?F if H: ?H
  proof -
  from H have m: "buildMode P \<noteq> bmCheck"
    and pr: "\<forall>n \<in> fst ` set (drvOutputs P). fixedOutputProduced P W b n"
    and chk: "\<And>is. checkOutputs P is = None" by simp_all
  from H obtain n0 ca0 sp0 where n0: "map_of (drvOutputs P) n0 = Some (CAFixed ca0)"
    "map_of (scratchOutputs b) n0 = Some sp0" "\<not> alreadyValid P n0"
    "ca_hash ca0 \<noteq> gotHash P W b ca0 sp0" by blast
  let ?acc0 = "\<lparr>outputsToSort = [], outputReferencesIfUnregistered = [], outputStats = []\<rparr>"
  let ?s0 = "st0\<lparr>finalOutputs := [], infos := [], delayedException := None\<rparr>"
  from pr have "\<forall>n \<in> set (map fst (drvOutputs P)). fixedOutputProduced P W b n" by simp
  from scanOutputs_succeeds [OF this, of ?acc0 ?s0] obtain st1 acc where
    sc: "scanOutputs P W b (map fst (drvOutputs P)) ?acc0 ?s0 = (st1, Inr acc)" by blast
  from scanOutputs_inv [OF scanInv_empty sc]
  have inv: "scanInv P W b acc" and items: "set (outputsToSort acc) = fst ` set (drvOutputs P)"
    by auto
  have stats: "\<forall>m stt. map_of (outputStats acc) m = Some stt \<longrightarrow>
        (\<exists>sp. map_of (scratchOutputs b) m = Some sp \<and> maybeLstat W (actualPathOf P b sp) = Some stt)"
    by (rule scanOutputs_stats [OF sc]) simp
  have leaves: "\<forall>x \<in> set (outputsToSort acc). referencedOutputs P b acc x = Inr []"
  proof
    fix x
    assume x: "x \<in> set (outputsToSort acc)"
    with items pr have "fixedOutputProduced P W b x" by blast
    with inv stats x show "referencedOutputs P b acc x = Inr []"
      by (cases rule: scanned_fixed) (simp_all add: referencedOutputs_def)
  qed
  from sortedOutputNames_succeeds [OF leaves] obtain names where
    so: "sortedOutputNames P b acc = Inr names" by blast
  note p = registerOutputs_prepared [OF sc so]
  from p(3) items pr
  have nm: "\<forall>n \<in> set names. n \<in> set (outputsToSort acc) \<and> fixedOutputProduced P W b n" by blast
  from finalizeOutputs_fixed_succeeds [OF m inv stats nm, of st1] obtain st2 where
    fin: "finalizeOutputs P W b acc names st1 = (st2, Inr ())" by blast
  note res = finalizeOutputs_fixed_result [OF m inv stats fin p(2) nm p(7,8)]
  from n0(1) have "n0 \<in> fst ` set (drvOutputs P)"
    by (auto dest: map_of_SomeD intro: rev_image_eqI)
  with p(3) have "n0 \<in> set names" by simp
  with res n0 obtain n ca sp where n: "map_of (drvOutputs P) n = Some (CAFixed ca)"
    "map_of (scratchOutputs b) n = Some sp" "\<not> alreadyValid P n"
    "ca_hash ca \<noteq> gotHash P W b ca sp"
    and del: "delayedException st2 = Some (mismatchOf P W b ca sp)" by blast
  define st3 where "st3 = registerValidPaths (infos2Of (infos st2)) st2"
  from sc so fin m chk del have "registerOutputs P W b st0 = (st3, Inl (mismatchOf P W b ca sp))"
    by (simp add: registerOutputs_def Let_def st3_def)
  with run have st': "st' = st3" and r: "r = Inl (mismatchOf P W b ca sp)" by simp_all
  have f1: "\<exists>n ca sp. map_of (drvOutputs P) n = Some (CAFixed ca) \<and>
           map_of (scratchOutputs b) n = Some sp \<and> \<not> alreadyValid P n \<and>
           ca_hash ca \<noteq> gotHash P W b ca sp \<and>
           r = Inl (HashMismatch (printStorePath (store P) (drvPath P))
                      (hashToString P SRI True (ca_hash ca))
                      (hashToString P SRI True (gotHash P W b ca sp)))"
    using n r unfolding mismatchOf_def
    by (intro exI [of _ n] exI [of _ ca] exI [of _ sp]) simp
  have f2: "\<exists>pre. batchesOf (ops st') = pre @ [infos2Of (infos st')]"
    by (intro exI [of _ "batchesOf (ops st2)"]) (simp add: st' st3_def)
  have f3: "isValidPath st' (fixedPathOf P W b k ca' sp')"
    if k: "map_of (drvOutputs P) k = Some (CAFixed ca')" "map_of (scratchOutputs b) k = Some sp'"
      "\<not> alreadyValid P k" for k ca' sp'
  proof -
    from k(1) have "k \<in> fst ` set (drvOutputs P)"
      by (auto dest: map_of_SomeD intro: rev_image_eqI)
    with p(3) have "k \<in> set names" by simp
    with res k obtain i where i: "(k, i) \<in> set (infos st2)"
      "vpi_path i = fixedPathOf P W b k ca' sp'" by blast
    from i(1) have "vpi_path i \<in> fst ` set (infos2Of (infos st2))"
      unfolding infos2Of_dom by force
    with i(2) show ?thesis by (simp add: isValidPath_iff st' st3_def)
  qed
  from f1 f2 f3 show ?thesis by (intro conjI allI impI) auto
  qed
  from run have bwd: ?B
  proof (cases rule: registerOutputs_cases)
    case (scanErr e)
    from scanOutputs_frame [OF scanErr(1)] scanErr(2) show ?thesis
      by (auto simp: isDelayedKind_def)
  next
    case (sortErr acc e)
    from sortedOutputNames_error [OF sortErr(2)] sortErr(3) show ?thesis
      by (auto simp: isDelayedKind_def)
  next
    case (loopErr st1 acc names e)
    from finalizeOutputs_error [OF loopErr(3)] loopErr(4) show ?thesis
      by (auto simp: isDelayedKind_def)
  next
    case (checksFailed st1 acc names msg)
    then show ?thesis by simp
  next
    case (checkMode st1 acc names)
    note p = registerOutputs_prepared [OF checkMode(1,2)]
    show ?thesis
    proof (intro allI impI)
      fix d w g
      assume "r = Inl (HashMismatch d w g)"
      with checkMode(5) have "delayedException st' = Some (HashMismatch d w g)"
        by (simp split: option.splits)
      from finalizeOutputs_mismatch_origin [OF p(1) checkMode(3) p(8) this]
      obtain n ca sp where "map_of (drvOutputs P) n = Some (CAFixed ca)"
        "map_of (scratchOutputs b) n = Some sp"
        "ca_hash ca \<noteq> gotHash P W b ca sp" "d = printStorePath (store P) (drvPath P)"
        "w = hashToString P SRI True (ca_hash ca)"
        "g = hashToString P SRI True (gotHash P W b ca sp)" by blast
      then show "\<exists>n ca sp. map_of (drvOutputs P) n = Some (CAFixed ca) \<and>
           map_of (scratchOutputs b) n = Some sp \<and>
           ca_hash ca \<noteq> gotHash P W b ca sp \<and> d = printStorePath (store P) (drvPath P) \<and>
           w = hashToString P SRI True (ca_hash ca) \<and>
           g = hashToString P SRI True (gotHash P W b ca sp) \<and>
           (buildMode P \<noteq> bmCheck \<longrightarrow>
              (\<exists>pre. batchesOf (ops st') = pre @ [infos2Of (infos st')]) \<and>
              (\<forall>m \<in> fst ` set (drvOutputs P).
                 alreadyValid P m \<or>
                 (\<exists>i. (m, i) \<in> set (infos st') \<and> isValidPath st' (vpi_path i))) \<and>
              (\<exists>i. (n, i) \<in> set (infos st') \<and> isValidPath st' (vpi_path i) \<and>
                 vpi_ca i = Some \<lparr>ca_method = ca_method ca, ca_hash = gotHash P W b ca sp\<rparr>))"
        using checkMode(4) by (intro exI [of _ n] exI [of _ ca] exI [of _ sp]) simp
    qed
  next
    case (delayed st1 acc names st2 e)
    note p = registerOutputs_prepared [OF delayed(1,2)]
    note i = finalizeOutputs_infos [OF p(1) delayed(3,4) p(7)]
    have inf: "infos st' = infos st2" by (simp add: delayed(6))
    have bt: "batchesOf (ops st') = batchesOf (ops st2) @ [infos2Of (infos st')]"
      by (simp add: delayed(6))
    have v: "isValidPath st' (vpi_path i)" if "(n, i) \<in> set (infos st2)" for n i
    proof -
      from that have "vpi_path i \<in> fst ` set (infos2Of (infos st2))"
        unfolding infos2Of_dom by force
      then show ?thesis by (simp add: isValidPath_iff delayed(6))
    qed
    have a: "alreadyValid P n \<or> (\<exists>i. (n, i) \<in> set (infos st') \<and> isValidPath st' (vpi_path i))"
      if "n \<in> fst ` set (drvOutputs P)" for n
    proof (cases "alreadyValid P n")
      case True
      then show ?thesis by simp
    next
      case False
      from that p(3) have "n \<in> set names" by simp
      with i False have "n \<in> fst ` set (infos st2)" by blast
      then obtain i where "(n, i) \<in> set (infos st2)" by auto
      with v [OF this] inf show ?thesis by auto
    qed
    show ?thesis
    proof (intro allI impI)
      fix d w g
      assume "r = Inl (HashMismatch d w g)"
      with delayed(7,8) have "delayedException st2 = Some (HashMismatch d w g)" by simp
      from finalizeOutputs_mismatch_origin [OF p(1) delayed(3) p(8) this]
      obtain n ca sp where n: "map_of (drvOutputs P) n = Some (CAFixed ca)"
        "map_of (scratchOutputs b) n = Some sp" "buildMode P = bmCheck \<or> \<not> alreadyValid P n"
        "ca_hash ca \<noteq> gotHash P W b ca sp" "d = printStorePath (store P) (drvPath P)"
        "w = hashToString P SRI True (ca_hash ca)"
        "g = hashToString P SRI True (gotHash P W b ca sp)" by blast
      from n(1) have "n \<in> fst ` set (drvOutputs P)"
        by (auto dest: map_of_SomeD intro: rev_image_eqI)
      from a [OF this] n(3) delayed(4) obtain i where
        ii: "(n, i) \<in> set (infos st')" "isValidPath st' (vpi_path i)" by blast
      from i have "\<And>n i ca sp. (n, i) \<in> set (infos st2) \<Longrightarrow>
          map_of (drvOutputs P) n = Some (CAFixed ca) \<Longrightarrow> map_of (scratchOutputs b) n = Some sp \<Longrightarrow>
          vpi_ca i = Some \<lparr>ca_method = ca_method ca, ca_hash = gotHash P W b ca sp\<rparr>" by blast
      from this [OF ii(1) [unfolded inf] n(1,2)]
      have ca: "vpi_ca i = Some \<lparr>ca_method = ca_method ca, ca_hash = gotHash P W b ca sp\<rparr>" .
      have all: "\<forall>m \<in> fst ` set (drvOutputs P).
                 alreadyValid P m \<or>
                 (\<exists>i. (m, i) \<in> set (infos st') \<and> isValidPath st' (vpi_path i))"
        using a by blast
      have last: "\<exists>pre. batchesOf (ops st') = pre @ [infos2Of (infos st')]" using bt by blast
      show "\<exists>n ca sp. map_of (drvOutputs P) n = Some (CAFixed ca) \<and>
           map_of (scratchOutputs b) n = Some sp \<and>
           ca_hash ca \<noteq> gotHash P W b ca sp \<and> d = printStorePath (store P) (drvPath P) \<and>
           w = hashToString P SRI True (ca_hash ca) \<and>
           g = hashToString P SRI True (gotHash P W b ca sp) \<and>
           (buildMode P \<noteq> bmCheck \<longrightarrow>
              (\<exists>pre. batchesOf (ops st') = pre @ [infos2Of (infos st')]) \<and>
              (\<forall>m \<in> fst ` set (drvOutputs P).
                 alreadyValid P m \<or>
                 (\<exists>i. (m, i) \<in> set (infos st') \<and> isValidPath st' (vpi_path i))) \<and>
              (\<exists>i. (n, i) \<in> set (infos st') \<and> isValidPath st' (vpi_path i) \<and>
                 vpi_ca i = Some \<lparr>ca_method = ca_method ca, ca_hash = gotHash P W b ca sp\<rparr>))"
        using n(1,2,4,5,6,7) ii ca all last
        by (intro exI [of _ n] exI [of _ ca] exI [of _ sp] conjI impI exI [of _ i])
    qed
  next
    case (committed st1 acc names st2)
    from builtOutputsOf_frame [OF committed(7)]
    have "\<And>e. r = Inl e \<Longrightarrow> e = AssertionFailed" by simp
    then show ?thesis by auto
  qed
  from fwd bwd show ?thesis by blast
qed

text \<open>Witness: the fixed output of the example, declared with the hash \<open>w\<close>, has the
  content hash \<open>ab\<close> and no references. The build fails with the mismatch, after the
  commit, and the path made from \<open>ab\<close> is valid.\<close>

theorem C4_delayed_hash_mismatch_witness:
  "buildMode exFixed \<noteq> bmCheck \<and>
   fst ` set (drvOutputs exFixed) = {''out''} \<and>
   fixedOutputProduced exFixed (exFsWorld \<lparr>st_mode = 0x8124, st_uid = 0\<rparr>) exFixedBuilder ''out'' \<and>
   \<not> alreadyValid exFixed ''out'' \<and>
   gotHash exFixed (exFsWorld \<lparr>st_mode = 0x8124, st_uid = 0\<rparr>) exFixedBuilder
     \<lparr>ca_method = camFlat, ca_hash = Hash SHA256 [0x77]\<rparr> (StorePath ''ca:w'' ''foo'') =
     Hash SHA256 [0x61, 0x62] \<and>
   snd (registerOutputs exFixed (exFsWorld \<lparr>st_mode = 0x8124, st_uid = 0\<rparr>) exFixedBuilder exRegState) =
     Inl (HashMismatch ''/nix/store/dddd-foo.drv'' ''sha256-w'' ''sha256-ab'') \<and>
   isValidPath (fst (registerOutputs exFixed (exFsWorld \<lparr>st_mode = 0x8124, st_uid = 0\<rparr>)
                      exFixedBuilder exRegState)) (StorePath ''ca:ab'' ''foo'') \<and>
   (\<exists>pre. batchesOf (ops (fst (registerOutputs exFixed (exFsWorld \<lparr>st_mode = 0x8124, st_uid = 0\<rparr>)
                      exFixedBuilder exRegState))) =
      pre @ [infos2Of (infos (fst (registerOutputs exFixed (exFsWorld \<lparr>st_mode = 0x8124, st_uid = 0\<rparr>)
                      exFixedBuilder exRegState)))])"
proof -
  let ?W = "exFsWorld \<lparr>st_mode = 0x8124, st_uid = 0\<rparr>"
  let ?ca = "\<lparr>ca_method = camFlat, ca_hash = Hash SHA256 [0x77]\<rparr>"
  have r: "registerOutputs exFixed ?W exFixedBuilder exRegState =
      (fst (registerOutputs exFixed ?W exFixedBuilder exRegState),
       snd (registerOutputs exFixed ?W exFixedBuilder exRegState))" by simp
  have m: "buildMode exFixed \<noteq> bmCheck" by (simp add: exFixed_def exParams_def)
  have o: "fst ` set (drvOutputs exFixed) = {''out''}" by (simp add: exFixed_def exParams_def)
  have d: "map_of (drvOutputs exFixed) ''out'' = Some (CAFixed ?ca)"
    "map_of (scratchOutputs exFixedBuilder) ''out'' = Some (StorePath ''ca:w'' ''foo'')"
    by (simp_all add: exFixed_def exParams_def exFixedBuilder_def exBuilder_def)
  have pr: "fixedOutputProduced exFixed ?W exFixedBuilder ''out''"
    by (simp add: fixedOutputProduced_def actualPathOf_def register_defs example_defs
        exFixed_def exFixedBuilder_def)
  have c: "\<forall>is. checkOutputs exFixed is = None" by (simp add: exFixed_def exParams_def)
  have nv: "\<not> alreadyValid exFixed ''out''"
    by (simp add: alreadyValid_def exFixed_def exParams_def isValid_def)
  have g: "gotHash exFixed ?W exFixedBuilder ?ca (StorePath ''ca:w'' ''foo'') =
      Hash SHA256 [0x61, 0x62]"
    by (simp add: gotHash_def exFsWorld_def)
  have fp: "fixedPathOf exFixed ?W exFixedBuilder ''out'' ?ca (StorePath ''ca:w'' ''foo'') =
      StorePath ''ca:ab'' ''foo''"
    unfolding fixedPathOf_def g
    by (simp add: exFixed_def exParams_def exStore_def example_chars)
  have e: "snd (registerOutputs exFixed ?W exFixedBuilder exRegState) =
     Inl (HashMismatch ''/nix/store/dddd-foo.drv'' ''sha256-w'' ''sha256-ab'')"
    by (simp add: register_defs example_defs exFixed_def exFixedBuilder_def example_chars)
  have bad: "\<exists>n ca sp. map_of (drvOutputs exFixed) n = Some (CAFixed ca) \<and>
         map_of (scratchOutputs exFixedBuilder) n = Some sp \<and> \<not> alreadyValid exFixed n \<and>
         ca_hash ca \<noteq> gotHash exFixed ?W exFixedBuilder ca sp"
    using d nv g by (intro exI [of _ "''out''"] exI [of _ ?ca] exI [of _ "StorePath ''ca:w'' ''foo''"]) simp
  from C4_delayed_hash_mismatch [OF r] m o pr c bad
  have "(\<exists>pre. batchesOf (ops (fst (registerOutputs exFixed ?W exFixedBuilder exRegState))) =
      pre @ [infos2Of (infos (fst (registerOutputs exFixed ?W exFixedBuilder exRegState)))]) \<and>
    (\<forall>n ca sp. map_of (drvOutputs exFixed) n = Some (CAFixed ca) \<and>
           map_of (scratchOutputs exFixedBuilder) n = Some sp \<and> \<not> alreadyValid exFixed n \<longrightarrow>
           isValidPath (fst (registerOutputs exFixed ?W exFixedBuilder exRegState))
             (fixedPathOf exFixed ?W exFixedBuilder n ca sp))"
    by simp
  with d nv fp have "(\<exists>pre. batchesOf (ops (fst (registerOutputs exFixed ?W exFixedBuilder exRegState))) =
      pre @ [infos2Of (infos (fst (registerOutputs exFixed ?W exFixedBuilder exRegState)))])"
    and "isValidPath (fst (registerOutputs exFixed ?W exFixedBuilder exRegState))
      (StorePath ''ca:ab'' ''foo'')"
    by (blast, metis)
  with m o pr nv g e show ?thesis by simp
qed

text \<open>Counterexample to C4 as stated: in a check build of the same derivation the
  mismatch is raised and no path has been registered. And in a build that is not a check
  build, when the bytes of the fixed output contain the hash part of an input path, the
  branch reads \<^verbatim>\<open>newInfo.references\<close> while \<^verbatim>\<open>newInfo\<close> is being initialised
  (lines 2714 and 2719); where that read traps, the run ends there and no path has been
  registered.\<close>

theorem C4_counterexample:
  "snd (registerOutputs (exFixed\<lparr>buildMode := bmCheck\<rparr>) (exFsWorld \<lparr>st_mode = 0x8124, st_uid = 0\<rparr>)
          exFixedBuilder exRegState) =
     Inl (HashMismatch ''/nix/store/dddd-foo.drv'' ''sha256-w'' ''sha256-ab'') \<and>
   validPaths (fst (registerOutputs (exFixed\<lparr>buildMode := bmCheck\<rparr>)
                      (exFsWorld \<lparr>st_mode = 0x8124, st_uid = 0\<rparr>) exFixedBuilder exRegState)) = [] \<and>
   buildMode exFixed = bmNormal \<and>
   outputReferences exFixed exDepWorld exFixedBuilder ''out''
       (actualPathOf exFixed exFixedBuilder (StorePath ''ca:w'' ''foo'')) = [StorePath ''iiii'' ''dep''] \<and>
   snd (registerOutputs exFixed exDepWorld exFixedBuilder exRegState) = Inl UninitialisedRead \<and>
   validPaths (fst (registerOutputs exFixed exDepWorld exFixedBuilder exRegState)) = []"
proof -
  have c: "snd (registerOutputs (exFixed\<lparr>buildMode := bmCheck\<rparr>) (exFsWorld \<lparr>st_mode = 0x8124, st_uid = 0\<rparr>)
          exFixedBuilder exRegState) =
     Inl (HashMismatch ''/nix/store/dddd-foo.drv'' ''sha256-w'' ''sha256-ab'')"
    "validPaths (fst (registerOutputs (exFixed\<lparr>buildMode := bmCheck\<rparr>)
                      (exFsWorld \<lparr>st_mode = 0x8124, st_uid = 0\<rparr>) exFixedBuilder exRegState)) = []"
    by (simp_all add: register_defs example_defs exFixed_def exFixedBuilder_def example_chars)
  have m: "buildMode exFixed = bmNormal" by (simp add: exFixed_def exParams_def)
  have o: "outputReferences exFixed exDepWorld exFixedBuilder ''out''
       (actualPathOf exFixed exFixedBuilder (StorePath ''ca:w'' ''foo'')) = [StorePath ''iiii'' ''dep'']"
    by (simp add: register_defs example_defs exFixed_def exDepWorld_def exFixedBuilder_def
        actualPathOf_def)
  have e: "snd (registerOutputs exFixed exDepWorld exFixedBuilder exRegState) = Inl UninitialisedRead"
    "validPaths (fst (registerOutputs exFixed exDepWorld exFixedBuilder exRegState)) = []"
    by (simp_all add: register_defs example_defs exFixed_def exDepWorld_def exFixedBuilder_def
        example_chars)
  from c m o e show ?thesis by simp
qed

subsection \<open>C2: what a build registers\<close>

text \<open>
  C2, as the code has it. In a build that is not a check build and whose outputs are all
  input-addressed: when \<^verbatim>\<open>registerOutputs\<close> fails, the valid paths are what they
  were and no registration was made; when it succeeds, one registration was made, that of
  all the recorded infos together, every output is valid or was valid before the build,
  and the paths that became valid are the paths of the outputs that were not valid before.
  In a check build no path becomes valid, when every valid path is the path of its info.
\<close>

theorem C2_single_commit:
  assumes run: "registerOutputs P W b st0 = (st', r)"
  shows
    "(buildMode P \<noteq> bmCheck \<and>
      (\<forall>n out. map_of (drvOutputs P) n = Some out \<longrightarrow> (\<exists>p. out = InputAddressed p)) \<longrightarrow>
        (\<forall>e. r = Inl e \<longrightarrow>
           validPaths st' = validPaths st0 \<and> batchesOf (ops st') = batchesOf (ops st0)) \<and>
        (\<forall>bo. r = Inr bo \<longrightarrow>
           batchesOf (ops st') = batchesOf (ops st0) @ [infos2Of (infos st')] \<and>
           (\<forall>n p. map_of (drvOutputs P) n = Some (InputAddressed p) \<longrightarrow>
              alreadyValid P n \<or> isValidPath st' p) \<and>
           fst ` set (validPaths st') =
             fst ` set (validPaths st0) \<union>
             {p. \<exists>n. map_of (drvOutputs P) n = Some (InputAddressed p) \<and> \<not> alreadyValid P n})) \<and>
     (buildMode P = bmCheck \<and>
      (\<forall>p i. map_of (validPaths st0) p = Some i \<longrightarrow> vpi_path i = p) \<longrightarrow>
        fst ` set (validPaths st') = fst ` set (validPaths st0))"
    (is "(?N \<longrightarrow> ?F \<and> ?S) \<and> (?K \<longrightarrow> ?D)")
proof (intro conjI impI)
  assume K: ?K
  from run show ?D
  proof (cases rule: registerOutputs_cases)
    case (scanErr e)
    from scanOutputs_frame [OF scanErr(1)] show ?thesis by (simp add: sameStore_def)
  next
    case (sortErr acc e)
    from scanOutputs_frame [OF sortErr(1)] show ?thesis by (simp add: sameStore_def)
  next
    case (loopErr st1 acc names e)
    note p = registerOutputs_prepared [OF loopErr(1,2)]
    from finalizeOutputs_check_domain [OF loopErr(3)] K p(5) show ?thesis by simp
  next
    case (checkMode st1 acc names)
    note p = registerOutputs_prepared [OF checkMode(1,2)]
    from finalizeOutputs_check_domain [OF checkMode(3)] K p(5) show ?thesis by simp
  next
    case (checksFailed st1 acc names msg)
    with K show ?thesis by simp
  next
    case (delayed st1 acc names st2 e)
    with K show ?thesis by simp
  next
    case (committed st1 acc names st2)
    with K show ?thesis by simp
  qed
next
  assume N: ?N
  then have m: "buildMode P \<noteq> bmCheck"
    and ia: "\<forall>n out. map_of (drvOutputs P) n = Some out \<longrightarrow> (\<exists>p. out = InputAddressed p)"
    by simp_all
  from run show ?F
  proof (cases rule: registerOutputs_cases)
    case (scanErr e)
    from scanOutputs_frame [OF scanErr(1)] show ?thesis by (simp add: sameStore_def)
  next
    case (sortErr acc e)
    from scanOutputs_frame [OF sortErr(1)] show ?thesis by (simp add: sameStore_def)
  next
    case (loopErr st1 acc names e)
    note p = registerOutputs_prepared [OF loopErr(1,2)]
    from finalizeOutputs_inputAddressed [OF p(1) loopErr(3) m ia p(7,8)] p(4,5)
    show ?thesis by simp
  next
    case (checkMode st1 acc names)
    with m show ?thesis by simp
  next
    case (checksFailed st1 acc names msg)
    note p = registerOutputs_prepared [OF checksFailed(1,2)]
    from finalizeOutputs_inputAddressed [OF p(1) checksFailed(3) m ia p(7,8)] p(4,5)
    show ?thesis by simp
  next
    case (delayed st1 acc names st2 e)
    note p = registerOutputs_prepared [OF delayed(1,2)]
    from finalizeOutputs_inputAddressed [OF p(1) delayed(3) m ia p(7,8)] delayed(7)
    show ?thesis by simp
  next
    case (committed st1 acc names st2)
    note p = registerOutputs_prepared [OF committed(1,2)]
    note l = finalizeOutputs_inputAddressed [OF p(1) committed(3) m ia p(7,8)]
    from l have "\<forall>n \<in> fst ` set (infos st2). map_of (initialOutputs P) n \<noteq> None" by auto
    from builtOutputsOf_success [OF this, of "[]" "registerValidPaths (infos2Of (infos st2)) st2"]
      committed(7)
    show ?thesis by auto
  qed
  from run show ?S
  proof (cases rule: registerOutputs_cases)
    case (committed st1 acc names st2)
    note p = registerOutputs_prepared [OF committed(1,2)]
    note l = finalizeOutputs_inputAddressed [OF p(1) committed(3) m ia p(7,8)]
    note i = finalizeOutputs_infos [OF p(1) committed(3) m p(7)]
    define st3 where "st3 = registerValidPaths (infos2Of (infos st2)) st2"
    from builtOutputsOf_frame [OF committed(7)] have same: "sameStore st3 st'"
      by (simp add: st3_def)
    then have inf: "infos st' = infos st2" and vp: "validPaths st' = validPaths st3"
      and bt: "batchesOf (ops st') = batchesOf (ops st3)"
      by (simp_all add: sameStore_def st3_def)
    have b1: "batchesOf (ops st') = batchesOf (ops st0) @ [infos2Of (infos st')]"
      using l p(4) by (simp add: bt inf st3_def)
    have dom: "fst ` set (validPaths st') =
        fst ` set (validPaths st0) \<union> vpi_path ` snd ` set (infos st2)"
      using l p(5) by (simp add: vp st3_def infos2Of_dom)
    have eq: "vpi_path ` snd ` set (infos st2) =
        {p. \<exists>n. map_of (drvOutputs P) n = Some (InputAddressed p) \<and> \<not> alreadyValid P n}"
    proof (intro set_eqI iffI)
      fix p
      assume "p \<in> vpi_path ` snd ` set (infos st2)"
      then obtain n i where "(n, i) \<in> set (infos st2)" "p = vpi_path i" by auto
      with l show "p \<in> {p. \<exists>n. map_of (drvOutputs P) n = Some (InputAddressed p) \<and>
          \<not> alreadyValid P n}" by blast
    next
      fix p
      assume "p \<in> {p. \<exists>n. map_of (drvOutputs P) n = Some (InputAddressed p) \<and>
          \<not> alreadyValid P n}"
      then obtain n where n: "map_of (drvOutputs P) n = Some (InputAddressed p)"
        "\<not> alreadyValid P n" by blast
      from n(1) have "n \<in> fst ` set (drvOutputs P)"
        by (auto dest: map_of_SomeD intro: rev_image_eqI)
      with p(3) have "n \<in> set names" by simp
      with i n(2) have "n \<in> fst ` set (infos st2)" by blast
      then obtain j where j: "(n, j) \<in> set (infos st2)" by auto
      with l have "map_of (drvOutputs P) n = Some (InputAddressed (vpi_path j))" by blast
      with n(1) have "vpi_path j = p" by simp
      with j show "p \<in> vpi_path ` snd ` set (infos st2)" by force
    qed
    have b3: "fst ` set (validPaths st') =
             fst ` set (validPaths st0) \<union>
             {p. \<exists>n. map_of (drvOutputs P) n = Some (InputAddressed p) \<and> \<not> alreadyValid P n}"
      using dom eq by simp
    have b2: "alreadyValid P n \<or> isValidPath st' p"
      if "map_of (drvOutputs P) n = Some (InputAddressed p)" for n p
      using that b3 by (auto simp: isValidPath_iff)
    from b1 b2 b3 show ?thesis by blast
  qed (use m in simp_all)
qed

text \<open>Witness: the two input-addressed outputs of the example, of which \<open>out\<close> is
  valid before the build. The build succeeds with one registration, and the path of
  \<open>dev\<close> is the path that became valid.\<close>

theorem C2_single_commit_witness:
  "snd (registerOutputs exInputAddressed (exFsWorld \<lparr>st_mode = 0x8124, st_uid = 0\<rparr>)
          exScratchBuilder exRegState) =
     Inr [(''dev'', \<lparr>r_drvHash = zeroHash, r_outputName = ''dev'',
                     r_outPath = StorePath ''dddv'' ''foo-dev''\<rparr>)] \<and>
   buildMode exInputAddressed \<noteq> bmCheck \<and>
   length (batchesOf (ops (fst (registerOutputs exInputAddressed
      (exFsWorld \<lparr>st_mode = 0x8124, st_uid = 0\<rparr>) exScratchBuilder exRegState)))) = 1 \<and>
   isValidPath (fst (registerOutputs exInputAddressed
      (exFsWorld \<lparr>st_mode = 0x8124, st_uid = 0\<rparr>) exScratchBuilder exRegState))
      (StorePath ''dddv'' ''foo-dev'') \<and>
   alreadyValid exInputAddressed ''out''"
proof -
  let ?W = "exFsWorld \<lparr>st_mode = 0x8124, st_uid = 0\<rparr>"
  have r: "registerOutputs exInputAddressed ?W exScratchBuilder exRegState =
      (fst (registerOutputs exInputAddressed ?W exScratchBuilder exRegState),
       snd (registerOutputs exInputAddressed ?W exScratchBuilder exRegState))" by simp
  have e: "snd (registerOutputs exInputAddressed ?W exScratchBuilder exRegState) =
     Inr [(''dev'', \<lparr>r_drvHash = zeroHash, r_outputName = ''dev'',
                     r_outPath = StorePath ''dddv'' ''foo-dev''\<rparr>)]"
    by (simp add: register_defs example_defs exInputAddressed_def)
  have m: "buildMode exInputAddressed \<noteq> bmCheck"
    by (simp add: exInputAddressed_def exParams_def)
  have ia: "\<forall>n out. map_of (drvOutputs exInputAddressed) n = Some out \<longrightarrow>
      (\<exists>p. out = InputAddressed p)"
    by (simp add: exInputAddressed_def exParams_def)
  have d: "map_of (drvOutputs exInputAddressed) ''dev'' =
      Some (InputAddressed (StorePath ''dddv'' ''foo-dev''))"
    by (simp add: exInputAddressed_def exParams_def)
  have v: "alreadyValid exInputAddressed ''out''" "\<not> alreadyValid exInputAddressed ''dev''"
    by (simp_all add: alreadyValid_def exInputAddressed_def exParams_def isValid_def)
  have b0: "batchesOf (ops exRegState) = []" by (simp add: exRegState_def)
  from C2_single_commit [OF r] m ia e
  have "batchesOf (ops (fst (registerOutputs exInputAddressed ?W exScratchBuilder exRegState))) =
      batchesOf (ops exRegState) @
      [infos2Of (infos (fst (registerOutputs exInputAddressed ?W exScratchBuilder exRegState)))]"
    and "\<forall>n p. map_of (drvOutputs exInputAddressed) n = Some (InputAddressed p) \<longrightarrow>
      alreadyValid exInputAddressed n \<or>
      isValidPath (fst (registerOutputs exInputAddressed ?W exScratchBuilder exRegState)) p"
    by blast+
  with d v b0 e m show ?thesis by auto
qed

text \<open>Counterexample to C2 as stated: of two floating outputs, \<open>dev\<close> is finalised
  and registered first; \<open>out\<close>, whose method is flat, is an executable file and the
  build fails. The path of \<open>dev\<close> is then the one valid path.\<close>

theorem C2_counterexample:
  "snd (registerOutputs exPartial exExecWorld exScratchBuilder exRegState) =
     Inl (NotRegularFile ''/nix/store/rewrite:dddd-foo.drv:oooo-foo-foo'') \<and>
   map fst (validPaths (fst (registerOutputs exPartial exExecWorld exScratchBuilder exRegState))) =
     [StorePath ''ca:ab'' ''foo-dev'']"
  by (simp add: register_defs example_defs exPartial_def exTwoFloating_def exExecWorld_def
      exRefWorld_def example_chars)

subsection \<open>C3: the references that are registered\<close>

text \<open>
  C3, as the code has it. The references scanned for an output are among the input
  paths, the scratch paths of the outputs and the added paths, the hash part of each of
  them occurs in the bytes that were scanned, and there are none when the references of the
  output are to be discarded. In a build that is not a check build, every info that
  \<^verbatim>\<open>registerOutputs\<close> registers is registered under its own path and is made from the
  scanned references of an output of the derivation that the second loop has come to: its
  references are the scanned ones, rewritten with the table that \<^verbatim>\<open>outputRewrites\<close>
  holds when the references of that output are rewritten, and with its own path in place
  of the scratch path. So it has no references when they are to be discarded. That table
  rewrites a hash part that is not the one of a scratch path as the table did when
  \<^verbatim>\<open>registerOutputs\<close> started, and, when the scratch paths of different outputs have
  different hash parts, it takes the hash part of the scratch path of another output that
  is referred to, to the hash part of the final path of that output.
\<close>

theorem C3_registered_references:
  assumes run: "registerOutputs P W b st0 = (st', r)"
  shows
    "(\<forall>n ap. set (outputReferences P W b n ap) \<subseteq>
               set (inputPaths P) \<union> snd ` set (scratchOutputs b) \<union> set (addedPaths b) \<and>
             (\<forall>q \<in> set (outputReferences P W b n ap). occursIn (hashPart q) (pathBytes W ap)) \<and>
             (discardReferences P n \<longrightarrow> outputReferences P W b n ap = [])) \<and>
     (\<forall>acc names st1 n i. scannedInfo P W b acc names st1 n i \<and> discardReferences P n \<longrightarrow>
        vpi_references i = []) \<and>
     (buildMode P \<noteq> bmCheck \<longrightarrow>
        (\<exists>new. batchesOf (ops st') = batchesOf (ops st0) @ new \<and>
           (new \<noteq> [] \<longrightarrow>
              (\<exists>st1 acc names.
                 scanOutputs P W b (map fst (drvOutputs P))
                   \<lparr>outputsToSort = [], outputReferencesIfUnregistered = [], outputStats = []\<rparr>
                   (st0\<lparr>finalOutputs := [], infos := [], delayedException := None\<rparr>) =
                   (st1, Inr acc) \<and>
                 sortedOutputNames P b acc = Inr names)) \<and>
           (\<forall>st1 acc names.
              scanOutputs P W b (map fst (drvOutputs P))
                \<lparr>outputsToSort = [], outputReferencesIfUnregistered = [], outputStats = []\<rparr>
                (st0\<lparr>finalOutputs := [], infos := [], delayedException := None\<rparr>) =
                (st1, Inr acc) \<and>
              sortedOutputNames P b acc = Inr names \<longrightarrow>
              (\<forall>batch \<in> set new. \<forall>(p, i) \<in> set batch.
                 p = vpi_path i \<and>
                 (\<exists>n \<in> fst ` set (drvOutputs P).
                    scannedInfo P W b acc names st1 n i \<and>
                    reachedOutput P W b acc names st1 n))))) \<and>
     (buildMode P \<noteq> bmCheck \<longrightarrow>
        (\<forall>st1 acc names A.
           scanOutputs P W b (map fst (drvOutputs P))
             \<lparr>outputsToSort = [], outputReferencesIfUnregistered = [], outputStats = []\<rparr>
             (st0\<lparr>finalOutputs := [], infos := [], delayedException := None\<rparr>) =
             (st1, Inr acc) \<and>
           sortedOutputNames P b acc = Inr names \<and> A \<in> fst ` set (drvOutputs P) \<and>
           reachedOutput P W b acc names st1 A \<longrightarrow>
           (\<forall>h. h \<notin> hashPart ` snd ` set (scratchOutputs b) \<longrightarrow>
              map_of (rewritesFor P W b acc names st1 A) h = map_of (outputRewrites st0) h) \<and>
           ((\<forall>n1 n2 p1 p2. map_of (scratchOutputs b) n1 = Some p1 \<and>
               map_of (scratchOutputs b) n2 = Some p2 \<and> n1 \<noteq> n2 \<longrightarrow>
               hashPart p1 \<noteq> hashPart p2) \<longrightarrow>
            (\<forall>B sp. (A, B) \<in> outputGraph P b acc \<and> map_of (scratchOutputs b) B = Some sp \<longrightarrow>
               (\<exists>fp. map_of (finalOutputs (stateBefore P W b acc names st1 A)) B = Some fp \<and>
                  (sp \<noteq> fp \<longrightarrow>
                     map_of (rewritesFor P W b acc names st1 A) (hashPart sp) =
                       Some (hashPart fp)))))))"
    (is "?A \<and> ?B \<and> (?M \<longrightarrow> ?C) \<and> (?M \<longrightarrow> ?D)")
proof -
  let ?scan = "\<lambda>st1 acc. scanOutputs P W b (map fst (drvOutputs P))
         \<lparr>outputsToSort = [], outputReferencesIfUnregistered = [], outputStats = []\<rparr>
         (st0\<lparr>finalOutputs := [], infos := [], delayedException := None\<rparr>) = (st1, Inr acc)"
  have A: ?A
    by (auto simp: outputReferences_def scanForReferences_def referenceablePaths_def)
  have B: ?B
    by (auto simp: scannedInfo_def outputReferences_def split: option.splits)
  have D: ?D if m: ?M
  proof (intro allI impI)
    fix st1 acc names A
    assume a: "?scan st1 acc \<and> sortedOutputNames P b acc = Inr names \<and>
        A \<in> fst ` set (drvOutputs P) \<and> reachedOutput P W b acc names st1 A"
    then have sc: "?scan st1 acc" and so: "sortedOutputNames P b acc = Inr names"
      and Ain: "A \<in> fst ` set (drvOutputs P)" and re: "reachedOutput P W b acc names st1 A"
      by blast+
    note p = registerOutputs_prepared [OF sc so]
    from sortedOutputNames_success [OF so] p(3)
    have items: "set (outputsToSort acc) = fst ` set (drvOutputs P)" by simp
    from rewritesFor_table [OF p(1) items so m re Ain]
    show "(\<forall>h. h \<notin> hashPart ` snd ` set (scratchOutputs b) \<longrightarrow>
              map_of (rewritesFor P W b acc names st1 A) h = map_of (outputRewrites st0) h) \<and>
           ((\<forall>n1 n2 p1 p2. map_of (scratchOutputs b) n1 = Some p1 \<and>
               map_of (scratchOutputs b) n2 = Some p2 \<and> n1 \<noteq> n2 \<longrightarrow>
               hashPart p1 \<noteq> hashPart p2) \<longrightarrow>
            (\<forall>B sp. (A, B) \<in> outputGraph P b acc \<and> map_of (scratchOutputs b) B = Some sp \<longrightarrow>
               (\<exists>fp. map_of (finalOutputs (stateBefore P W b acc names st1 A)) B = Some fp \<and>
                  (sp \<noteq> fp \<longrightarrow>
                     map_of (rewritesFor P W b acc names st1 A) (hashPart sp) =
                       Some (hashPart fp)))))"
      unfolding p(9) .
  qed
  have fromNew: ?C
    if sc: "?scan st1 acc" and so: "sortedOutputNames P b acc = Inr names"
      and b1: "batchesOf (ops st') = batchesOf (ops st0) @ new"
      and b2: "\<forall>batch \<in> set new. \<forall>(p, i) \<in> set batch.
           p = vpi_path i \<and> (\<exists>n \<in> set names. scannedInfo P W b acc names st1 n i \<and>
              reachedOutput P W b acc names st1 n)"
    for st1 acc names new
  proof (intro exI [of _ new] conjI impI allI)
    show "batchesOf (ops st') = batchesOf (ops st0) @ new" by (rule b1)
    show "\<exists>st1 acc names. ?scan st1 acc \<and> sortedOutputNames P b acc = Inr names"
      using sc so by blast
    fix st1' acc' names'
    assume "?scan st1' acc' \<and> sortedOutputNames P b acc' = Inr names'"
    with sc so have e: "st1' = st1" "acc' = acc" "names' = names" by auto
    note p = registerOutputs_prepared [OF sc so]
    from b2 show "\<forall>batch \<in> set new. \<forall>(p, i) \<in> set batch.
                 p = vpi_path i \<and>
                 (\<exists>n \<in> fst ` set (drvOutputs P).
                    scannedInfo P W b acc' names' st1' n i \<and>
                    reachedOutput P W b acc' names' st1' n)"
      unfolding e p(3) [symmetric] .
  qed
  have commit: ?C
    if sc: "?scan st1 acc" and so: "sortedOutputNames P b acc = Inr names"
      and fin: "finalizeOutputs P W b acc names st1 = (st2, Inr ())"
      and st': "batchesOf (ops st') = batchesOf (ops st2) @ [infos2Of (infos st2)]"
      and m: ?M
    for st1 acc names st2
  proof -
    note p = registerOutputs_prepared [OF sc so]
    from finalizeOutputs_scanned [OF p(1) fin m p(2) p(7)] obtain new where
      inf: "\<And>n i. (n, i) \<in> set (infos st2) \<Longrightarrow> n \<in> set names \<and>
          scannedInfo P W b acc names st1 n i \<and> reachedOutput P W b acc names st1 n"
      and new: "batchesOf (ops st2) = batchesOf (ops st1) @ new"
        "\<forall>batch \<in> set new. \<forall>(p, i) \<in> set batch.
           p = vpi_path i \<and> (\<exists>n \<in> set names. scannedInfo P W b acc names st1 n i \<and>
              reachedOutput P W b acc names st1 n)" by blast
    have last: "\<forall>(q, i) \<in> set (infos2Of (infos st2)).
        q = vpi_path i \<and> (\<exists>n \<in> set names. scannedInfo P W b acc names st1 n i \<and>
              reachedOutput P W b acc names st1 n)"
    proof (intro ballI, clarify)
      fix q i
      assume "(q, i) \<in> set (infos2Of (infos st2))"
      from infos2Of_entries [OF this] obtain n where "q = vpi_path i" "(n, i) \<in> set (infos st2)"
        by auto
      with inf [of n i] show "q = vpi_path i \<and>
          (\<exists>n \<in> set names. scannedInfo P W b acc names st1 n i \<and>
              reachedOutput P W b acc names st1 n)" by blast
    qed
    have b1: "batchesOf (ops st') = batchesOf (ops st0) @ (new @ [infos2Of (infos st2)])"
      using st' new(1) p(4) by simp
    have b2: "\<forall>batch \<in> set (new @ [infos2Of (infos st2)]). \<forall>(p, i) \<in> set batch.
           p = vpi_path i \<and> (\<exists>n \<in> set names. scannedInfo P W b acc names st1 n i \<and>
              reachedOutput P W b acc names st1 n)"
      using new(2) last by auto
    from fromNew [OF sc so b1 b2] show ?thesis .
  qed
  have partial: ?C
    if sc: "?scan st1 acc" and so: "sortedOutputNames P b acc = Inr names"
      and fin: "finalizeOutputs P W b acc names st1 = (st', rf)" and m: ?M
    for st1 acc names rf
  proof -
    note p = registerOutputs_prepared [OF sc so]
    from finalizeOutputs_scanned [OF p(1) fin m p(2) p(7)] obtain new where
      new: "batchesOf (ops st') = batchesOf (ops st1) @ new"
        "\<forall>batch \<in> set new. \<forall>(p, i) \<in> set batch.
           p = vpi_path i \<and> (\<exists>n \<in> set names. scannedInfo P W b acc names st1 n i \<and>
              reachedOutput P W b acc names st1 n)" by blast
    from new(1) p(4) have b1: "batchesOf (ops st') = batchesOf (ops st0) @ new" by simp
    from fromNew [OF sc so b1 new(2)] show ?thesis .
  qed
  have none: ?C if "batchesOf (ops st') = batchesOf (ops st0)"
    using that by (intro exI [of _ "[]"]) simp
  have C: ?C if m: ?M
    using run
  proof (cases rule: registerOutputs_cases)
    case (scanErr e)
    from scanOutputs_frame [OF scanErr(1)] show ?thesis
      by (intro none) (simp add: sameStore_def)
  next
    case (sortErr acc e)
    from scanOutputs_frame [OF sortErr(1)] show ?thesis
      by (intro none) (simp add: sameStore_def)
  next
    case (loopErr st1 acc names e)
    from partial [OF loopErr(1,2,3) m] show ?thesis .
  next
    case (checkMode st1 acc names)
    with m show ?thesis by simp
  next
    case (checksFailed st1 acc names msg)
    from partial [OF checksFailed(1,2,3) m] show ?thesis .
  next
    case (delayed st1 acc names st2 e)
    have "batchesOf (ops st') = batchesOf (ops st2) @ [infos2Of (infos st2)]"
      by (simp add: delayed(6))
    from commit [OF delayed(1,2,3) this m] show ?thesis .
  next
    case (committed st1 acc names st2)
    from builtOutputsOf_frame [OF committed(7)]
    have "batchesOf (ops st') = batchesOf (ops st2) @ [infos2Of (infos st2)]"
      by (simp add: sameStore_def)
    from commit [OF committed(1,2,3) this m] show ?thesis .
  qed
  from A B C D show ?thesis by blast
qed

text \<open>Witness: the two floating outputs of the example. The scanned references of
  \<open>out\<close> are the scratch path of \<open>dev\<close>, which is in the list of paths that may be
  referred to; \<open>dev\<close> is finalised first, and the table with which the references of
  \<open>out\<close> are rewritten takes the hash part of the scratch path of \<open>dev\<close> to the hash
  part of its final path.\<close>

theorem C3_registered_references_witness:
  "buildMode exTwoFloating \<noteq> bmCheck \<and>
   scanOutputs exTwoFloating exRefWorld exScratchBuilder (map fst (drvOutputs exTwoFloating))
     exScanAcc exRegState = (exTwoScanned, Inr exTwoAcc) \<and>
   sortedOutputNames exTwoFloating exScratchBuilder exTwoAcc = Inr [''dev'', ''out''] \<and>
   outputReferences exTwoFloating exRefWorld exScratchBuilder ''out''
     ''/nix/store/rewrite:dddd-foo.drv:oooo-foo-foo'' = [StorePath ''sd'' ''foo-dev''] \<and>
   StorePath ''sd'' ''foo-dev'' \<in> snd ` set (scratchOutputs exScratchBuilder) \<and>
   reachedOutput exTwoFloating exRefWorld exScratchBuilder exTwoAcc [''dev'', ''out'']
     exTwoScanned ''out'' \<and>
   (''out'', ''dev'') \<in> outputGraph exTwoFloating exScratchBuilder exTwoAcc \<and>
   map_of (rewritesFor exTwoFloating exRefWorld exScratchBuilder exTwoAcc [''dev'', ''out'']
     exTwoScanned ''out'') ''sd'' = Some ''ca:ab'' \<and>
   (\<exists>new. batchesOf (ops (fst (registerOutputs exTwoFloating exRefWorld exScratchBuilder exRegState))) =
            batchesOf (ops exRegState) @ new \<and> new \<noteq> [] \<and>
      (\<forall>batch \<in> set new. \<forall>(p, i) \<in> set batch.
         p = vpi_path i \<and>
         (\<exists>n \<in> fst ` set (drvOutputs exTwoFloating).
            scannedInfo exTwoFloating exRefWorld exScratchBuilder exTwoAcc [''dev'', ''out'']
              exTwoScanned n i \<and>
            reachedOutput exTwoFloating exRefWorld exScratchBuilder exTwoAcc [''dev'', ''out'']
              exTwoScanned n)))"
proof -
  have r: "registerOutputs exTwoFloating exRefWorld exScratchBuilder exRegState =
      (fst (registerOutputs exTwoFloating exRefWorld exScratchBuilder exRegState),
       snd (registerOutputs exTwoFloating exRefWorld exScratchBuilder exRegState))" by simp
  have m: "buildMode exTwoFloating \<noteq> bmCheck" by (simp add: exTwoFloating_def exParams_def)
  have st: "exRegState\<lparr>finalOutputs := [], infos := [], delayedException := None\<rparr> = exRegState"
    by (simp add: exRegState_def)
  have sc: "scanOutputs exTwoFloating exRefWorld exScratchBuilder (map fst (drvOutputs exTwoFloating))
       \<lparr>outputsToSort = [], outputReferencesIfUnregistered = [], outputStats = []\<rparr>
       (exRegState\<lparr>finalOutputs := [], infos := [], delayedException := None\<rparr>) =
     (exTwoScanned, Inr exTwoAcc)"
    unfolding st
    by (simp add: register_defs example_defs exTwoFloating_def exRefWorld_def exTwoAcc_def
        exTwoScanned_def)
  have so: "sortedOutputNames exTwoFloating exScratchBuilder exTwoAcc = Inr [''dev'', ''out'']"
    by (simp add: register_defs example_defs exTwoFloating_def exTwoAcc_def)
  have o: "outputReferences exTwoFloating exRefWorld exScratchBuilder ''out''
     ''/nix/store/rewrite:dddd-foo.drv:oooo-foo-foo'' = [StorePath ''sd'' ''foo-dev'']"
    by (simp add: register_defs example_defs exTwoFloating_def exRefWorld_def)
  have s: "StorePath ''sd'' ''foo-dev'' \<in> snd ` set (scratchOutputs exScratchBuilder)"
    by (simp add: exScratchBuilder_def exBuilder_def)
  have dv: "map_of (scratchOutputs exScratchBuilder) ''dev'' = Some (StorePath ''sd'' ''foo-dev'')"
    by (simp add: exScratchBuilder_def exBuilder_def)
  have inj: "\<forall>n1 n2 p1 p2. map_of (scratchOutputs exScratchBuilder) n1 = Some p1 \<and>
       map_of (scratchOutputs exScratchBuilder) n2 = Some p2 \<and> n1 \<noteq> n2 \<longrightarrow>
       hashPart p1 \<noteq> hashPart p2"
    by (auto simp: exScratchBuilder_def exBuilder_def split: if_splits)
  have "refersTo exTwoFloating exScratchBuilder exTwoAcc ''out'' ''dev''"
    unfolding refersTo_def
    by (intro exI [of _ "[StorePath ''sd'' ''foo-dev'']"] exI [of _ "StorePath ''sd'' ''foo-dev''"])
       (simp add: exTwoAcc_def exScratchBuilder_def exBuilder_def)
  then have g: "(''out'', ''dev'') \<in> outputGraph exTwoFloating exScratchBuilder exTwoAcc"
    by (simp add: outputGraph_def exTwoFloating_def exParams_def)
  have oin: "''out'' \<in> fst ` set (drvOutputs exTwoFloating)"
    by (simp add: exTwoFloating_def exParams_def)
  have f: "snd (finalizeOutputs exTwoFloating exRefWorld exScratchBuilder exTwoAcc [''dev'']
        exTwoScanned) = Inr ()"
    "map_of (finalOutputs (fst (finalizeOutputs exTwoFloating exRefWorld exScratchBuilder exTwoAcc
      [''dev''] exTwoScanned))) ''dev'' = Some (StorePath ''ca:ab'' ''foo-dev'')"
    by (simp_all add: register_defs example_defs exTwoFloating_def exRefWorld_def exTwoAcc_def
        exTwoScanned_def example_chars)
  from f(1) have re: "reachedOutput exTwoFloating exRefWorld exScratchBuilder exTwoAcc
      [''dev'', ''out''] exTwoScanned ''out''"
    by (simp add: reachedOutput_def)
  from f(2) have fo: "map_of (finalOutputs (stateBefore exTwoFloating exRefWorld exScratchBuilder
      exTwoAcc [''dev'', ''out''] exTwoScanned ''out'')) ''dev'' = Some (StorePath ''ca:ab'' ''foo-dev'')"
    by (simp add: stateBefore_def)
  have ne: "batchesOf (ops (fst (registerOutputs exTwoFloating exRefWorld exScratchBuilder exRegState)))
      \<noteq> batchesOf (ops exRegState)"
    by (simp add: register_defs example_defs exTwoFloating_def exRefWorld_def example_chars)
  note t = C3_registered_references [OF r]
  note c = mp [OF t [THEN conjunct2, THEN conjunct2, THEN conjunct1] m]
  note dd = mp [OF t [THEN conjunct2, THEN conjunct2, THEN conjunct2] m]
  from c obtain new where n: "batchesOf (ops (fst (registerOutputs exTwoFloating exRefWorld
        exScratchBuilder exRegState))) = batchesOf (ops exRegState) @ new \<and>
     (new \<noteq> [] \<longrightarrow>
        (\<exists>st1 acc names.
           scanOutputs exTwoFloating exRefWorld exScratchBuilder (map fst (drvOutputs exTwoFloating))
             \<lparr>outputsToSort = [], outputReferencesIfUnregistered = [], outputStats = []\<rparr>
             (exRegState\<lparr>finalOutputs := [], infos := [], delayedException := None\<rparr>) =
             (st1, Inr acc) \<and>
           sortedOutputNames exTwoFloating exScratchBuilder acc = Inr names)) \<and>
     (\<forall>st1 acc names.
       scanOutputs exTwoFloating exRefWorld exScratchBuilder (map fst (drvOutputs exTwoFloating))
         \<lparr>outputsToSort = [], outputReferencesIfUnregistered = [], outputStats = []\<rparr>
         (exRegState\<lparr>finalOutputs := [], infos := [], delayedException := None\<rparr>) =
         (st1, Inr acc) \<and>
       sortedOutputNames exTwoFloating exScratchBuilder acc = Inr names \<longrightarrow>
       (\<forall>batch \<in> set new. \<forall>(p, i) \<in> set batch.
          p = vpi_path i \<and>
          (\<exists>n \<in> fst ` set (drvOutputs exTwoFloating).
             scannedInfo exTwoFloating exRefWorld exScratchBuilder acc names st1 n i \<and>
             reachedOutput exTwoFloating exRefWorld exScratchBuilder acc names st1 n)))" ..
  note n1 = n [THEN conjunct1]
  from n1 ne have n2: "new \<noteq> []" by auto
  note n4 = n [THEN conjunct2, THEN conjunct2, THEN spec, THEN spec, THEN spec, THEN mp,
      OF conjI [OF sc so]]
  note d1 = dd [THEN spec, THEN spec, THEN spec, THEN spec, THEN mp,
      OF conjI [OF sc conjI [OF so conjI [OF oin re]]]]
  note d2 = d1 [THEN conjunct2, THEN mp, OF inj, THEN spec, THEN spec, THEN mp,
      OF conjI [OF g dv]]
  from d2 fo have tb: "map_of (rewritesFor exTwoFloating exRefWorld exScratchBuilder exTwoAcc
     [''dev'', ''out''] exTwoScanned ''out'') ''sd'' = Some ''ca:ab''"
    by (simp add: hashPart_def)
  from sc have sc': "scanOutputs exTwoFloating exRefWorld exScratchBuilder
     (map fst (drvOutputs exTwoFloating)) exScanAcc exRegState = (exTwoScanned, Inr exTwoAcc)"
    unfolding st by (simp add: exScanAcc_def)
  from n1 n2 n4 have e: "\<exists>new. batchesOf (ops (fst (registerOutputs exTwoFloating exRefWorld exScratchBuilder exRegState))) =
            batchesOf (ops exRegState) @ new \<and> new \<noteq> [] \<and>
      (\<forall>batch \<in> set new. \<forall>(p, i) \<in> set batch.
         p = vpi_path i \<and>
         (\<exists>n \<in> fst ` set (drvOutputs exTwoFloating).
            scannedInfo exTwoFloating exRefWorld exScratchBuilder exTwoAcc [''dev'', ''out'']
              exTwoScanned n i \<and>
            reachedOutput exTwoFloating exRefWorld exScratchBuilder exTwoAcc [''dev'', ''out'']
              exTwoScanned n))"
    by (intro exI [of _ new] conjI)
  from m sc' so o s re g tb e show ?thesis by (intro conjI)
qed

text \<open>Counterexample to C3 as stated: the build of the two floating outputs succeeds.
  The info of \<open>out\<close> is registered with the final path of \<open>dev\<close> as its reference,
  and that path is not among the paths that were scanned for.\<close>

theorem C3_counterexample:
  "map (map (\<lambda>(p, i). (p, vpi_references i)))
     (batchesOf (ops (fst (registerOutputs exTwoFloating exRefWorld exScratchBuilder exRegState)))) =
     [[(StorePath ''ca:ab'' ''foo-dev'', [])],
      [(StorePath ''ca:ab'' ''foo'', [StorePath ''ca:ab'' ''foo-dev''])],
      [(StorePath ''ca:ab'' ''foo-dev'', []),
       (StorePath ''ca:ab'' ''foo'', [StorePath ''ca:ab'' ''foo-dev''])]] \<and>
   StorePath ''ca:ab'' ''foo-dev'' \<notin> set (referenceablePaths exTwoFloating exScratchBuilder)"
  by (simp add: register_defs example_defs exTwoFloating_def exRefWorld_def example_chars)

subsection \<open>C10: a fixed output with a wrong hash and with references\<close>

text \<open>
  C10. The branch for a fixed output first notes the hash mismatch and then, when the new
  info has references, assigns the error about the references to the same variable: that
  is what the claim describes. But the message of that error is made from
  \<^verbatim>\<open>newInfo.references\<close> (lines 2714 and 2719), where \<^verbatim>\<open>newInfo\<close> is the
  variable that this very expression initialises; the info at hand is \<^verbatim>\<open>newInfo0\<close>.
  The fixed output of the example has the declared hash \<open>w\<close>, the content hash \<open>ab\<close>,
  and its bytes contain the hash part of the input path. Where the read of
  \<^verbatim>\<open>newInfo\<close> traps, the run ends there: the caller receives neither the error
  about the references nor the hash mismatch, and no path has been registered. Where the
  read yields the references of \<^verbatim>\<open>newInfo0\<close>, the caller receives the error about
  the references, and the path is valid.
\<close>

theorem C10_uninitialised_read:
  "ca_hash \<lparr>ca_method = camFlat, ca_hash = Hash SHA256 [0x77]\<rparr> \<noteq>
     gotHash exFixed exDepWorld exFixedBuilder \<lparr>ca_method = camFlat, ca_hash = Hash SHA256 [0x77]\<rparr>
       (StorePath ''ca:w'' ''foo'') \<and>
   outputReferences exFixed exDepWorld exFixedBuilder ''out''
       (actualPathOf exFixed exFixedBuilder (StorePath ''ca:w'' ''foo'')) = [StorePath ''iiii'' ''dep''] \<and>
   readOfNewInfo exFixed [StorePath ''iiii'' ''dep''] = None \<and>
   snd (registerOutputs exFixed exDepWorld exFixedBuilder exRegState) = Inl UninitialisedRead \<and>
   validPaths (fst (registerOutputs exFixed exDepWorld exFixedBuilder exRegState)) = [] \<and>
   snd (registerOutputs (exFixed\<lparr>readOfNewInfo := (\<lambda>refs. Some (length refs, hd refs))\<rparr>)
          exDepWorld exFixedBuilder exRegState) =
     Inl (FixedOutputReferences ''/nix/store/dddd-foo.drv'' 1 ''/nix/store/iiii-dep'') \<and>
   isValidPath (fst (registerOutputs (exFixed\<lparr>readOfNewInfo := (\<lambda>refs. Some (length refs, hd refs))\<rparr>)
          exDepWorld exFixedBuilder exRegState)) (StorePath ''ca:ab'' ''foo'')"
proof -
  have o: "outputReferences exFixed exDepWorld exFixedBuilder ''out''
       (actualPathOf exFixed exFixedBuilder (StorePath ''ca:w'' ''foo'')) = [StorePath ''iiii'' ''dep'']"
    by (simp add: register_defs example_defs exFixed_def exDepWorld_def exFixedBuilder_def
        actualPathOf_def)
  have g: "gotHash exFixed exDepWorld exFixedBuilder \<lparr>ca_method = camFlat, ca_hash = Hash SHA256 [0x77]\<rparr>
       (StorePath ''ca:w'' ''foo'') = Hash SHA256 [0x61, 0x62]"
    by (simp add: gotHash_def exDepWorld_def)
  have r: "readOfNewInfo exFixed [StorePath ''iiii'' ''dep''] = None"
    by (simp add: exFixed_def exParams_def)
  have e: "snd (registerOutputs exFixed exDepWorld exFixedBuilder exRegState) = Inl UninitialisedRead"
    "validPaths (fst (registerOutputs exFixed exDepWorld exFixedBuilder exRegState)) = []"
    by (simp_all add: register_defs example_defs exFixed_def exDepWorld_def exFixedBuilder_def
        example_chars)
  have f: "snd (registerOutputs (exFixed\<lparr>readOfNewInfo := (\<lambda>refs. Some (length refs, hd refs))\<rparr>)
          exDepWorld exFixedBuilder exRegState) =
     Inl (FixedOutputReferences ''/nix/store/dddd-foo.drv'' 1 ''/nix/store/iiii-dep'')"
    "isValidPath (fst (registerOutputs (exFixed\<lparr>readOfNewInfo := (\<lambda>refs. Some (length refs, hd refs))\<rparr>)
          exDepWorld exFixedBuilder exRegState)) (StorePath ''ca:ab'' ''foo'')"
    by (simp_all add: register_defs example_defs exFixed_def exDepWorld_def exFixedBuilder_def
        example_chars)
  from o g r e f show ?thesis by simp
qed


end
